(* ===== verification/Jvm_Base.thy ===== *)
theory Jvm_Base
  imports Main "HOL-Library.Word"
begin

text \<open>
  The prelude of the development: the machine types the C++ sources use, the little-endian
  layout of packed structs in a byte buffer, C strings, and the generic notions of a labelled
  run and of an invariant that the concurrent components share.
\<close>

section \<open>Collections\<close>

named_theorems run_intros \<open>introduction rules of labelled runs\<close>

named_theorems byte_simps \<open>rewriting of little-endian byte layouts\<close>

section \<open>Machine types\<close>

type_synonym byte = "8 word"

type_synonym u32 = "32 word"

type_synonym u64 = "64 word"

text \<open>A pointer of the 64-bit target is an address; \<open>NULL\<close> is address zero.\<close>

type_synonym ptr = "64 word"

abbreviation (input) NULL :: ptr where
  "NULL \<equiv> 0"

section \<open>Little-endian integers in byte buffers\<close>

text \<open>The value that \<open>memcpy\<close> into an unsigned integer of the length of the list gives.\<close>

fun le_nat :: "byte list \<Rightarrow> nat" where
  "le_nat [] = 0"
| "le_nat (b # bs) = unat b + 256 * le_nat bs"

text \<open>Two's complement reading of an unsigned value of \<open>w\<close> bits.\<close>

definition to_signed :: "nat \<Rightarrow> nat \<Rightarrow> int" where
  "to_signed w n = (if n < 2 ^ (w - 1) then int n else int n - 2 ^ w)"

definition le_int :: "byte list \<Rightarrow> int" where
  "le_int bs = to_signed (8 * length bs) (le_nat bs)"

text \<open>The bytes a store of an unsigned value writes, least significant first.\<close>

fun le_bytes :: "nat \<Rightarrow> nat \<Rightarrow> byte list" where
  "le_bytes 0 n = []"
| "le_bytes (Suc k) n = word_of_nat (n mod 256) # le_bytes k (n div 256)"

definition of_signed :: "nat \<Rightarrow> int \<Rightarrow> nat" where
  "of_signed w i = nat (i mod 2 ^ w)"

section \<open>C strings\<close>

text \<open>The bytes of a string literal.\<close>

definition str_bytes :: "string \<Rightarrow> byte list" where
  "str_bytes s = map of_char s"

text \<open>What \<open>%s\<close> prints of a byte sequence: everything before the first NUL.\<close>

definition c_str :: "byte list \<Rightarrow> byte list" where
  "c_str bs = takeWhile (\<lambda>b. b \<noteq> 0) bs"

text \<open>\<open>strncmp(lit, s, length lit) == 0\<close> for a literal without NUL.\<close>

definition strncmp_eq :: "string \<Rightarrow> string \<Rightarrow> bool" where
  "strncmp_eq lit s \<longleftrightarrow> take (length lit) s = lit"

section \<open>Labelled runs and invariants\<close>

text \<open>
  A component with concurrent callers is a labelled step relation. A run is a finite sequence
  of labels leading from one state to another; the labels record what the callers observed.
\<close>

inductive lrun :: "('s \<Rightarrow> 'e \<Rightarrow> 's \<Rightarrow> bool) \<Rightarrow> 's \<Rightarrow> 'e list \<Rightarrow> 's \<Rightarrow> bool"
  for step s where
  lrun_nil [intro!]: "lrun step s [] s"
| lrun_snoc [intro]: "lrun step s es t \<Longrightarrow> step t e u \<Longrightarrow> lrun step s (es @ [e]) u"

declare lrun.intros [run_intros]

inductive_cases lrun_snocE: "lrun step s (es @ [e]) u"

text \<open>
  The contract of an inductive invariant. A component supplies its start state, its step
  relation and a candidate; the client gets the invariant in every state a run reaches.
\<close>

locale labelled_invariant =
  fixes start :: "'s"
    and step :: "'s \<Rightarrow> 'e \<Rightarrow> 's \<Rightarrow> bool"
    and inv_on :: "'e list \<Rightarrow> 's \<Rightarrow> bool"
  assumes inv_start: "inv_on [] start"
    and inv_step: "inv_on es s \<Longrightarrow> step s e t \<Longrightarrow> inv_on (es @ [e]) t"
begin

lemma run_invariant: "lrun step start es s \<Longrightarrow> inv_on es s"
  by (induction rule: lrun.induct) (auto intro: inv_start inv_step)

end

lemma lrun_Cons:
  assumes "step s e t" and "lrun step t es u"
  shows "lrun step s (e # es) u"
  using assms(2)
proof (induction rule: lrun.induct)
  case lrun_nil
  have "lrun step s ([] @ [e]) t" using lrun.lrun_nil assms(1) by (rule lrun.lrun_snoc)
  then show ?case by simp
next
  case (lrun_snoc es' t' e' u')
  then have "lrun step s ((e # es') @ [e']) u'" by (blast intro: lrun.lrun_snoc)
  then show ?case by simp
qed

declare lrun_Cons [run_intros]

lemma lrun_append: "lrun step s es t \<Longrightarrow> lrun step t fs u \<Longrightarrow> lrun step s (es @ fs) u"
proof (induction fs arbitrary: u rule: rev_induct)
  case Nil
  from Nil(2) have "u = t" by (cases rule: lrun.cases) auto
  with Nil show ?case by simp
next
  case (snoc e fs)
  from snoc(3) obtain t' where "lrun step t fs t'" and "step t' e u" by (rule lrun_snocE)
  with snoc have "lrun step s ((es @ fs) @ [e]) u" by (intro lrun.lrun_snoc) auto
  then show ?case by simp
qed

lemma lrun_split:
  "lrun step s (es @ fs) u \<Longrightarrow> \<exists>t. lrun step s es t \<and> lrun step t fs u"
proof (induction fs arbitrary: u rule: rev_induct)
  case Nil
  then show ?case by auto
next
  case (snoc f fs)
  then obtain u' where "lrun step s (es @ fs) u'" and f: "step u' f u"
    by (metis append_assoc lrun_snocE)
  with snoc.IH obtain t where "lrun step s es t" and "lrun step t fs u'" by blast
  then show ?case using f by (blast intro: lrun.lrun_snoc)
qed

lemma lrun_single: "step s e t \<Longrightarrow> lrun step s [e] t"
  using lrun_snoc [OF lrun_nil, of step s e t] by simp

section \<open>Lemmas on updates and cardinalities\<close>

lemma const_fun_upd [simp]: "(\<lambda>_. c)(t := c) = (\<lambda>_. c)"
  by auto

lemma card_swap: "finite A \<Longrightarrow> t \<in> A \<Longrightarrow> u \<notin> A \<Longrightarrow> card (insert u (A - {t})) = card A"
  by (metis Diff_iff card_Suc_Diff1 card_insert_disjoint finite_Diff)

lemma card_remove_le: "finite A \<Longrightarrow> card A \<le> Suc (card (A - {t}))"
  by (cases "t \<in> A") (auto simp: card_Diff_singleton_if)

section \<open>Lemmas on byte layouts\<close>

lemma length_le_bytes [simp]: "length (le_bytes k n) = k"
  by (induction k arbitrary: n) auto

lemma le_bytes_nonempty: "0 < k \<Longrightarrow> le_bytes k n \<noteq> []"
  by (cases k) auto

lemma le_nat_le_bytes [byte_simps]: "n < 256 ^ k \<Longrightarrow> le_nat (le_bytes k n) = n"
proof (induction k arbitrary: n)
  case 0
  then show ?case by simp
next
  case (Suc k)
  then have "n div 256 < 256 ^ k" by (simp add: less_mult_imp_div_less mult.commute)
  then have IH: "le_nat (le_bytes k (n div 256)) = n div 256" by (rule Suc.IH)
  have "unat (word_of_nat (n mod 256) :: byte) = n mod 256"
    by (simp add: unat_of_nat take_bit_eq_mod)
  with IH show ?case by simp
qed

lemma le_nat_bound: "le_nat bs < 256 ^ length bs"
proof (induction bs)
  case Nil
  then show ?case by simp
next
  case (Cons b bs)
  have "unat b < 2 ^ 8" using unsigned_less [of b, where ?'a = nat] by simp
  with Cons show ?case by simp
qed

lemma of_signed_bound: "of_signed w i < 2 ^ w"
  by (simp add: of_signed_def nat_less_iff)

lemma to_signed_of_signed [byte_simps]:
  assumes "0 < w" and "- (2 ^ (w - 1)) \<le> i" and "i < 2 ^ (w - 1)"
  shows "to_signed w (of_signed w i) = i"
proof -
  obtain v where w: "w = Suc v" using assms(1) by (cases w) auto
  show ?thesis
  proof (cases "0 \<le> i")
    case True
    with assms(3) w have "i mod 2 ^ w = i" by simp
    with True assms(3) w show ?thesis by (simp add: of_signed_def to_signed_def nat_less_iff)
  next
    case False
    with assms(2) w have "i mod 2 ^ w = i + 2 ^ w"
      using mod_pos_pos_trivial [of "i + 2 ^ w" "2 ^ w"] by simp
    with False assms(2) w show ?thesis
      by (simp add: of_signed_def to_signed_def nat_less_iff)
  qed
qed

lemma le_int_le_bytes:
  assumes "0 < k" and "- (2 ^ (8 * k - 1)) \<le> i" and "i < 2 ^ (8 * k - 1)"
  shows "le_int (le_bytes k (of_signed (8 * k) i)) = i"
proof -
  have "(256::nat) ^ k = 2 ^ (8 * k)" by (simp add: power_mult)
  then have "le_nat (le_bytes k (of_signed (8 * k) i)) = of_signed (8 * k) i"
    using of_signed_bound [of "8 * k" i] by (simp add: le_nat_le_bytes)
  then show ?thesis using assms by (simp add: le_int_def to_signed_of_signed)
qed

end
