(* ===== verification/ZQueue.thy ===== *)
theory ZQueue
  imports Jvm_Base
begin

text \<open>
  \<^verbatim>\<open>src/src/zqueue.h\<close>: the blocking queue between the JVM callbacks and the agent threads, and the
  microsecond clock \<open>gtm\<close>. First the operations as functions on the queue's contents, where
  the outcome of each \<open>wait\<close> is an input; then the operations of several threads as a step
  relation, one step per section of code that runs under \<open>mutex_\<close>. A wait of the condition
  variable releases the mutex, so the code before and after it are different steps.
\<close>

section \<open>The clock\<close>

text \<open>\<open>gtm\<close> of a \<open>timeval\<close>; the arithmetic is that of \<open>uint64_t\<close>.\<close>

definition gtm :: "u64 \<Rightarrow> u64 \<Rightarrow> u64" where
  "gtm tv_sec tv_usec = tv_sec * 1000 * 1000 + tv_usec"

section \<open>The queue's operations\<close>

record 'a zqueue =
  que :: "'a list"

datatype cv_status = no_timeout | timeout

text \<open>
  The ways an operation that may block ends. \<open>Blocked\<close>: no further wake-up arrived, the
  caller is still inside \<open>cv_.wait\<close>.
\<close>

datatype 'a pop_result = Popped 'a "'a zqueue" | TimedOut "'a zqueue" | Blocked "'a zqueue"

definition zq_new :: "'a zqueue" where
  "zq_new = \<lparr>que = []\<rparr>"

definition push :: "'a \<Rightarrow> 'a zqueue \<Rightarrow> 'a zqueue" where
  "push t q = q\<lparr>que := que q @ [t]\<rparr>"

text \<open>\<open>t = que_.front(); que_.pop()\<close>, or \<open>None\<close> where the loop guard \<open>que_.empty()\<close> holds.\<close>

definition front_pop :: "'a zqueue \<Rightarrow> ('a \<times> 'a zqueue) option" where
  "front_pop q = (case que q of [] \<Rightarrow> None | x # xs \<Rightarrow> Some (x, q\<lparr>que := xs\<rparr>))"

text \<open>
  \<open>pop\<close> and \<open>try_pop\<close>: the list holds, for each wait in turn, how it returned and the queue
  as the thread finds it when it holds the mutex again.
\<close>

fun pop :: "'a zqueue list \<Rightarrow> 'a zqueue \<Rightarrow> 'a pop_result" where
  "pop ws q =
     (case front_pop q of
        Some (x, q') \<Rightarrow> Popped x q'
      | None \<Rightarrow> (case ws of [] \<Rightarrow> Blocked q | q' # ws' \<Rightarrow> pop ws' q'))"

fun try_pop :: "(cv_status \<times> 'a zqueue) list \<Rightarrow> 'a zqueue \<Rightarrow> 'a pop_result" where
  "try_pop ws q =
     (case front_pop q of
        Some (x, q') \<Rightarrow> Popped x q'
      | None \<Rightarrow>
          (case ws of
             [] \<Rightarrow> Blocked q
           | (st, q') # ws' \<Rightarrow> (if st = timeout then TimedOut q' else try_pop ws' q')))"

text \<open>\<open>count\<close> converts \<open>size()\<close> to \<open>int\<close>.\<close>

definition count :: "'a zqueue \<Rightarrow> int" where
  "count q = sint (word_of_nat (length (que q)) :: 32 word)"

text \<open>\<open>clear\<close> pops until the queue is empty.\<close>

function clear :: "'a zqueue \<Rightarrow> 'a zqueue" where
  "clear q = (case que q of [] \<Rightarrow> q | x # xs \<Rightarrow> clear (q\<lparr>que := xs\<rparr>))"
  by pat_completeness auto
termination
  by (relation "measure (\<lambda>q. length (que q))") auto

declare pop.simps [simp del] try_pop.simps [simp del] clear.simps [simp del]

section \<open>Several threads\<close>

text \<open>
  Where a thread stands: outside, between the end of \<open>push\<close>'s critical section and
  \<open>cv_.notify_one()\<close> (the mutex is released first), asleep in a wait, or woken and about to
  take the mutex. The flag says whether the wait is the timed one of \<open>try_pop\<close>. A timed wait
  reports \<open>timeout\<close> when its deadline has passed, also to a thread that a notification had
  already woken (\<open>z_timeout_late\<close>); \<open>try_pop\<close> then returns false without looking at the queue.
\<close>

datatype zpc = Outside | Notifying | Asleep bool | Woken bool

record 'a zmon =
  zq :: "'a zqueue"
  zpcs :: "nat \<Rightarrow> zpc"

datatype 'a zevent =
    EPush nat 'a | ENotify nat "nat option" | ETake nat 'a | EWait nat bool
  | ESpurious nat | ETimeout nat bool | EClear nat "'a list"

definition zmon_start :: "'a zmon" where
  "zmon_start = \<lparr>zq = zq_new, zpcs = (\<lambda>_. Outside)\<rparr>"

text \<open>The callers that may run the loop head of \<open>pop\<close> (\<open>tm\<close> false) or \<open>try_pop\<close>.\<close>

definition at_head :: "zpc \<Rightarrow> bool \<Rightarrow> bool" where
  "at_head p tm \<longleftrightarrow> p = Outside \<or> p = Woken tm"

inductive zstep :: "'a zmon \<Rightarrow> 'a zevent \<Rightarrow> 'a zmon \<Rightarrow> bool" where
  z_push: "zpcs s t = Outside \<Longrightarrow>
     zstep s (EPush t v) (s\<lparr>zq := push v (zq s), zpcs := (zpcs s)(t := Notifying)\<rparr>)"
| z_notify: "zpcs s t = Notifying \<Longrightarrow> zpcs s u = Asleep tm \<Longrightarrow>
     zstep s (ENotify t (Some u)) (s\<lparr>zpcs := (zpcs s)(t := Outside, u := Woken tm)\<rparr>)"
| z_notify_none: "zpcs s t = Notifying \<Longrightarrow> \<forall>u tm. zpcs s u \<noteq> Asleep tm \<Longrightarrow>
     zstep s (ENotify t None) (s\<lparr>zpcs := (zpcs s)(t := Outside)\<rparr>)"
| z_take: "at_head (zpcs s t) tm \<Longrightarrow> front_pop (zq s) = Some (v, q') \<Longrightarrow>
     zstep s (ETake t v) (s\<lparr>zq := q', zpcs := (zpcs s)(t := Outside)\<rparr>)"
| z_wait: "at_head (zpcs s t) tm \<Longrightarrow> front_pop (zq s) = None \<Longrightarrow>
     zstep s (EWait t tm) (s\<lparr>zpcs := (zpcs s)(t := Asleep tm)\<rparr>)"
| z_spurious: "zpcs s t = Asleep tm \<Longrightarrow>
     zstep s (ESpurious t) (s\<lparr>zpcs := (zpcs s)(t := Woken tm)\<rparr>)"
| z_timeout: "zpcs s t = Asleep True \<Longrightarrow>
     zstep s (ETimeout t False) (s\<lparr>zpcs := (zpcs s)(t := Outside)\<rparr>)"
| z_timeout_late: "zpcs s t = Woken True \<Longrightarrow>
     zstep s (ETimeout t True) (s\<lparr>zpcs := (zpcs s)(t := Outside)\<rparr>)"
| z_clear: "zpcs s t = Outside \<Longrightarrow>
     zstep s (EClear t (que (zq s))) (s\<lparr>zq := clear (zq s)\<rparr>)"

text \<open>What a run put into the queue and what it took out, in the order of the run.\<close>

fun pushed :: "'a zevent list \<Rightarrow> 'a list" where
  "pushed [] = []"
| "pushed (EPush t v # es) = v # pushed es"
| "pushed (_ # es) = pushed es"

fun removed :: "'a zevent list \<Rightarrow> 'a list" where
  "removed [] = []"
| "removed (ETake t v # es) = v # removed es"
| "removed (EClear t vs # es) = vs @ removed es"
| "removed (_ # es) = removed es"

definition late_timeout :: "'a zevent \<Rightarrow> bool" where
  "late_timeout e \<longleftrightarrow> (\<exists>t. e = ETimeout t True)"

text \<open>Threads that will run the loop head or notify without waiting for anybody.\<close>

definition awake :: "'a zmon \<Rightarrow> nat set" where
  "awake s = {t. zpcs s t = Notifying \<or> (\<exists>tm. zpcs s t = Woken tm)}"

definition some_asleep :: "'a zmon \<Rightarrow> bool" where
  "some_asleep s \<longleftrightarrow> (\<exists>t tm. zpcs s t = Asleep tm)"

section \<open>The queue contract\<close>

text \<open>
  What the agent relies on: a first-in first-out queue, seen through its contents \<open>abs\<close>.
  \<open>take_one\<close> is the part of \<open>pop\<close> after its wait.
\<close>

locale fifo_queue =
  fixes abs :: "'q \<Rightarrow> 'a list"
    and empty :: "'q"
    and enq :: "'a \<Rightarrow> 'q \<Rightarrow> 'q"
    and take_one :: "'q \<Rightarrow> ('a \<times> 'q) option"
    and discard :: "'q \<Rightarrow> 'q"
  assumes abs_empty: "abs empty = []"
    and abs_enq: "abs (enq x q) = abs q @ [x]"
    and take_none: "take_one q = None \<longleftrightarrow> abs q = []"
    and take_some: "take_one q = Some (x, q') \<Longrightarrow> abs q = x # abs q'"
    and abs_discard: "abs (discard q) = []"
begin

lemma abs_enqs: "abs (fold enq xs q) = abs q @ xs"
  by (induction xs arbitrary: q) (auto simp: abs_enq)

lemma take_after_enqs:
  assumes "abs q = []"
  shows "\<exists>q'. take_one (fold enq (x # xs) q) = Some (x, q') \<and> abs q' = xs"
proof -
  have contents: "abs (fold enq (x # xs) q) = x # xs"
    using abs_enqs [of "x # xs" q] assms by simp
  then have "take_one (fold enq (x # xs) q) \<noteq> None" by (simp add: take_none)
  then obtain y q' where taken: "take_one (fold enq (x # xs) q) = Some (y, q')" by auto
  with contents take_some [OF taken] show ?thesis by simp
qed

end

lemma front_pop_None: "front_pop q = None \<longleftrightarrow> que q = []"
  by (simp add: front_pop_def split: list.splits)

lemma front_pop_Some: "front_pop q = Some (x, q') \<longleftrightarrow> que q = x # que q'"
  by (cases q; cases q') (auto simp: front_pop_def split: list.splits)

lemma que_clear [simp]: "que (clear q) = []"
proof (induction "que q" arbitrary: q)
  case Nil
  then show ?case by (simp add: clear.simps [of q])
next
  case (Cons x xs)
  have "que (clear (q\<lparr>que := xs\<rparr>)) = []" using Cons.hyps(1) [of "q\<lparr>que := xs\<rparr>"] by simp
  then show ?case by (simp add: clear.simps [of q] Cons.hyps(2) [symmetric])
qed

interpretation zq: fifo_queue que zq_new push front_pop clear
  by unfold_locales (auto simp: zq_new_def push_def front_pop_Some front_pop_None)

section \<open>Order and conservation of the elements\<close>

lemma pushed_append [simp]: "pushed (es @ fs) = pushed es @ pushed fs"
  by (induction es rule: pushed.induct) auto

lemma removed_append [simp]: "removed (es @ fs) = removed es @ removed fs"
  by (induction es rule: removed.induct) auto

interpretation zfifo: labelled_invariant zmon_start zstep
  "\<lambda>es s. pushed es = removed es @ que (zq s)"
proof unfold_locales
  show "pushed [] = removed [] @ que (zq zmon_start)"
    by (simp add: zmon_start_def zq_new_def)
next
  fix es and s t :: "'a zmon" and e
  assume "pushed es = removed es @ que (zq s)" and "zstep s e t"
  from this(2,1) show "pushed (es @ [e]) = removed (es @ [e]) @ que (zq t)"
    by (cases rule: zstep.cases) (auto simp: push_def front_pop_Some front_pop_None)
qed

section \<open>Wake-ups\<close>

definition enough_awake :: "'a zmon \<Rightarrow> bool" where
  "enough_awake s \<longleftrightarrow>
     finite (awake s) \<and> (some_asleep s \<longrightarrow> length (que (zq s)) \<le> card (awake s))"

lemma awake_zq [simp]: "awake (s\<lparr>zq := q\<rparr>) = awake s"
  by (simp add: awake_def)

lemma some_asleep_zq [simp]: "some_asleep (s\<lparr>zq := q\<rparr>) = some_asleep s"
  by (simp add: some_asleep_def)

lemma zstep_enough_awake:
  assumes "zstep s e s'" and inv: "enough_awake s" and "\<not> late_timeout e"
  shows "enough_awake s'"
  using assms(1)
proof cases
  case (z_push t v)
  have "t \<notin> awake s" using z_push by (simp add: awake_def)
  moreover have "some_asleep s' \<Longrightarrow> some_asleep s"
    using z_push by (auto simp: some_asleep_def split: if_splits)
  moreover have "awake s' = insert t (awake s)" using z_push by (auto simp: awake_def)
  ultimately show ?thesis using inv z_push by (auto simp: enough_awake_def push_def)
next
  case (z_notify t u tm)
  have "awake s' = insert u (awake s - {t})" using z_notify by (auto simp: awake_def)
  moreover have "t \<in> awake s" and "u \<notin> awake s" using z_notify by (auto simp: awake_def)
  moreover have "some_asleep s" using z_notify by (auto simp: some_asleep_def)
  ultimately have "card (awake s') = card (awake s)" and "finite (awake s')"
    and "some_asleep s" using inv by (auto simp: enough_awake_def card_swap simp del: card_insert_disjoint)
  then show ?thesis using inv z_notify(2) by (simp add: enough_awake_def)
next
  case (z_notify_none t)
  then have "\<not> some_asleep s'" by (auto simp: some_asleep_def split: if_splits)
  moreover have "awake s' = awake s - {t}" using z_notify_none by (auto simp: awake_def)
  ultimately show ?thesis using inv by (auto simp: enough_awake_def)
next
  case (z_take t tm v q')
  have aw: "awake s' = awake s - {t}" using z_take by (auto simp: awake_def)
  have asl: "some_asleep s' \<Longrightarrow> some_asleep s"
    using z_take by (auto simp: some_asleep_def split: if_splits)
  have len: "length (que (zq s)) = Suc (length (que (zq s')))"
    using z_take by (simp add: front_pop_Some front_pop_None)
  have fin: "finite (awake s)" using inv by (simp add: enough_awake_def)
  have "length (que (zq s')) \<le> card (awake s')" if "some_asleep s'"
  proof -
    have "length (que (zq s)) \<le> card (awake s)" using inv asl [OF that] by (simp add: enough_awake_def)
    then show ?thesis unfolding aw using len card_remove_le [OF fin, of t] by linarith
  qed
  then show ?thesis using fin by (simp add: enough_awake_def aw)
next
  case (z_wait t tm)
  have "awake s' = awake s - {t}" using z_wait by (auto simp: awake_def)
  then show ?thesis using inv z_wait by (auto simp: enough_awake_def front_pop_None)
next
  case (z_spurious t tm)
  have "awake s' = insert t (awake s)" using z_spurious by (auto simp: awake_def)
  moreover have "some_asleep s" using z_spurious by (auto simp: some_asleep_def)
  ultimately show ?thesis using inv z_spurious by (auto simp: enough_awake_def card_insert_if)
next
  case (z_timeout t)
  have "awake s' = awake s" using z_timeout by (auto simp: awake_def)
  moreover have "some_asleep s" using z_timeout by (auto simp: some_asleep_def)
  ultimately show ?thesis using inv z_timeout by (auto simp: enough_awake_def)
next
  case (z_timeout_late t)
  then show ?thesis using assms(3) by (simp add: late_timeout_def)
next
  case (z_clear t)
  then show ?thesis using inv by (auto simp: enough_awake_def)
qed

interpretation zwake: labelled_invariant zmon_start zstep
  "\<lambda>es s. list_all (\<lambda>e. \<not> late_timeout e) es \<longrightarrow> enough_awake s"
proof unfold_locales
  have "enough_awake (zmon_start :: 'a zmon)"
    by (simp add: enough_awake_def zmon_start_def awake_def some_asleep_def)
  then show "list_all (\<lambda>e. \<not> late_timeout e) ([] :: 'a zevent list) \<longrightarrow>
      enough_awake (zmon_start :: 'a zmon)" by simp
qed (auto intro: zstep_enough_awake)

section \<open>Properties\<close>

text \<open>
  C6. First in, first out, nothing lost and nothing invented: in every run of any number of
  threads, what was pushed is, in order, what was taken followed by what the queue holds.
\<close>

theorem zqueue_fifo: "lrun zstep zmon_start es s \<Longrightarrow> pushed es = removed es @ que (zq s)"
  by (rule zfifo.run_invariant)

theorem zqueue_fifo_witness:
  "pushed [EPush 0 (7::nat), ENotify 0 None, ETake 1 7] = [7]
   \<and> lrun zstep zmon_start [EPush 0 (7::nat), ENotify 0 None, ETake 1 7] zmon_start
   \<and> pushed [EPush 0 (7::nat), ENotify 0 None, ETake 1 7]
       = removed [EPush 0 7, ENotify 0 None, ETake 1 7] @ que (zq (zmon_start :: nat zmon))"
proof -
  let ?s1 = "\<lparr>zq = \<lparr>que = [7::nat]\<rparr>, zpcs = (\<lambda>_. Outside)(0 := Notifying)\<rparr>"
  let ?s2 = "\<lparr>zq = \<lparr>que = [7::nat]\<rparr>, zpcs = (\<lambda>_. Outside)\<rparr>"
  have 1: "zstep zmon_start (EPush 0 7) ?s1"
    using z_push [of "zmon_start :: nat zmon" 0 7] by (simp add: zmon_start_def zq_new_def push_def)
  have 2: "zstep ?s1 (ENotify 0 None) ?s2"
    using z_notify_none [of ?s1 0] by simp
  have 3: "zstep ?s2 (ETake 1 7) zmon_start"
    using z_take [of ?s2 1 False 7 zq_new]
    by (simp add: zmon_start_def zq_new_def at_head_def front_pop_def)
  have run: "lrun zstep zmon_start [EPush 0 (7::nat), ENotify 0 None, ETake 1 7] zmon_start"
    by (rule lrun_Cons [of zstep, OF 1 lrun_Cons [of zstep, OF 2 lrun_Cons [of zstep, OF 3]]])
      (rule lrun.lrun_nil)
  show ?thesis using run zqueue_fifo [OF run] by simp
qed

text \<open>
  C20. No wake-up is lost as long as no notified waiter reports a timeout: whenever a consumer is
  asleep, there are at least as many threads on their way to the queue (woken, or about to
  notify) as there are elements in it.
\<close>

theorem zqueue_no_lost_wakeup:
  assumes "lrun zstep zmon_start es s" and "list_all (\<lambda>e. \<not> late_timeout e) es"
    and "some_asleep s"
  shows "length (que (zq s)) \<le> card (awake s)"
  using zwake.run_invariant [OF assms(1)] assms(2,3) by (simp add: enough_awake_def)

text \<open>A run in which two consumers fall asleep and a third thread pushes and notifies one.\<close>

abbreviation two_asleep :: "nat \<Rightarrow> zpc" where
  "two_asleep \<equiv> (\<lambda>_. Outside)(0 := Asleep True, 1 := Asleep True)"

abbreviation wake_events :: "nat zevent list" where
  "wake_events \<equiv> [EWait 0 True, EWait 1 True, EPush 2 7, ENotify 2 (Some 0)]"

abbreviation one_woken :: "nat zmon" where
  "one_woken \<equiv> \<lparr>zq = \<lparr>que = [7]\<rparr>,
     zpcs = (\<lambda>_. Outside)(0 := Woken True, 1 := Asleep True)\<rparr>"

lemma wake_run: "lrun zstep zmon_start wake_events one_woken"
proof -
  let ?s1 = "\<lparr>zq = \<lparr>que = []\<rparr>, zpcs = (\<lambda>_. Outside)(0 := Asleep True)\<rparr> :: nat zmon"
  let ?s2 = "\<lparr>zq = \<lparr>que = []\<rparr>, zpcs = two_asleep\<rparr> :: nat zmon"
  let ?s3 = "\<lparr>zq = \<lparr>que = [7]\<rparr>, zpcs = two_asleep(2 := Notifying)\<rparr> :: nat zmon"
  have 1: "zstep zmon_start (EWait 0 True) ?s1"
    using z_wait [of "zmon_start :: nat zmon" 0 True]
    by (simp add: zmon_start_def zq_new_def at_head_def front_pop_None)
  have 2: "zstep ?s1 (EWait 1 True) ?s2"
    using z_wait [of ?s1 1 True] by (simp add: at_head_def front_pop_None)
  have 3: "zstep ?s2 (EPush 2 7) ?s3"
    using z_push [of ?s2 2 7] by (simp add: push_def)
  have upd: "two_asleep(2 := Notifying, 2 := Outside, 0 := Woken True)
      = (\<lambda>_. Outside)(0 := Woken True, 1 := Asleep True)"
    by (auto simp: fun_eq_iff)
  have 4: "zstep ?s3 (ENotify 2 (Some 0)) one_woken"
    using z_notify [of ?s3 2 0 True] unfolding upd [symmetric] by simp
  show ?thesis
    by (rule lrun_Cons [of zstep, OF 1 lrun_Cons [of zstep, OF 2 lrun_Cons [of zstep, OF 3
          lrun_Cons [of zstep, OF 4]]]]) (rule lrun.lrun_nil)
qed

theorem zqueue_no_lost_wakeup_witness:
  "lrun zstep zmon_start wake_events one_woken
   \<and> list_all (\<lambda>e. \<not> late_timeout e) wake_events \<and> some_asleep one_woken
   \<and> length (que (zq one_woken)) \<le> card (awake one_woken)"
proof -
  have ok: "list_all (\<lambda>e. \<not> late_timeout e) wake_events" by (simp add: late_timeout_def)
  have asl: "some_asleep one_woken"
    unfolding some_asleep_def by (rule exI [of _ 1], rule exI [of _ True]) simp
  show ?thesis
    by (intro conjI) (rule wake_run ok asl zqueue_no_lost_wakeup [OF wake_run ok asl])+
qed

text \<open>Events that cannot wake a given sleeper: no push, and no end of its own wait.\<close>

definition leaves_asleep :: "nat \<Rightarrow> 'a zevent \<Rightarrow> bool" where
  "leaves_asleep u e \<longleftrightarrow>
     (case e of EPush t v \<Rightarrow> False | ESpurious t \<Rightarrow> t \<noteq> u | ETimeout t late \<Rightarrow> t \<noteq> u | _ \<Rightarrow> True)"

lemma sleeper_stays:
  assumes "lrun zstep s es s'" and "list_all (leaves_asleep u) es"
    and "zpcs s u = Asleep tm" and "\<forall>t. zpcs s t \<noteq> Notifying"
  shows "zpcs s' u = Asleep tm \<and> (\<forall>t. zpcs s' t \<noteq> Notifying)"
  using assms
proof (induction rule: lrun.induct)
  case (lrun_snoc es s1 e s2)
  then have "zpcs s1 u = Asleep tm" "\<forall>t. zpcs s1 t \<noteq> Notifying" "leaves_asleep u e" by simp_all
  with lrun_snoc(2) show ?case
    by (cases rule: zstep.cases) (auto simp: leaves_asleep_def at_head_def)
qed simp

text \<open>
  C32. The proviso of the previous property is needed. When a push has just woken a waiting \<open>try_pop\<close>,
  nobody else is awake and another consumer sleeps, the woken thread could take the element; but
  if its deadline has passed meanwhile, \<open>try_pop\<close> returns false without looking at the queue, which
  stays as it is, and the other consumer sleeps on, whatever the threads do, until the next push
  or the end of its own wait.
\<close>

theorem zqueue_late_timeout_strands_element:
  assumes "lrun zstep zmon_start (es @ [ENotify p (Some t)]) s" and "zpcs s t = Woken True"
    and "que (zq s) = v # vs" and "awake s = {t}" and "zpcs s u = Asleep tm"
  shows "(\<exists>s1. zstep s (ETake t v) s1)
    \<and> try_pop [(timeout, zq s)] zq_new = TimedOut (zq s)
    \<and> (\<exists>s'. zstep s (ETimeout t True) s' \<and> zpcs s' t = Outside \<and> zq s' = zq s \<and> awake s' = {}
         \<and> (\<forall>fs s''. lrun zstep s' fs s'' \<and> list_all (leaves_asleep u) fs \<longrightarrow> zpcs s'' u = Asleep tm))"
proof (intro conjI)
  have "front_pop (zq s) = Some (v, (zq s)\<lparr>que := vs\<rparr>)" using assms(3) by (simp add: front_pop_def)
  then show "\<exists>s1. zstep s (ETake t v) s1" using z_take [of s t True] assms(2) by (auto simp: at_head_def)
  show "try_pop [(timeout, zq s)] zq_new = TimedOut (zq s)"
    by (simp add: try_pop.simps front_pop_def zq_new_def)
  let ?s' = "s\<lparr>zpcs := (zpcs s)(t := Outside)\<rparr>"
  have ut: "u \<noteq> t" using assms(2,5) by auto
  have aw: "awake ?s' = {}" using assms(4) by (auto simp: awake_def split: if_splits)
  then have nn: "\<forall>x. zpcs ?s' x \<noteq> Notifying" by (auto simp: awake_def)
  have u: "zpcs ?s' u = Asleep tm" using assms(5) ut by simp
  show "\<exists>s'. zstep s (ETimeout t True) s' \<and> zpcs s' t = Outside \<and> zq s' = zq s \<and> awake s' = {}
      \<and> (\<forall>fs s''. lrun zstep s' fs s'' \<and> list_all (leaves_asleep u) fs \<longrightarrow> zpcs s'' u = Asleep tm)"
    using z_timeout_late [OF assms(2)] aw sleeper_stays [OF _ _ u nn] by (intro exI [of _ ?s']) auto
qed

lemma zqueue_late_timeout_strands_element_witness:
  "\<exists>s'. zstep one_woken (ETimeout 0 True) s' \<and> que (zq s') = [7] \<and> awake s' = {}
     \<and> (\<forall>fs s''. lrun zstep s' fs s'' \<and> list_all (leaves_asleep 1) fs \<longrightarrow> zpcs s'' 1 = Asleep True)"
proof -
  have run: "lrun zstep zmon_start ([EWait 0 True, EWait 1 True, EPush 2 7] @ [ENotify 2 (Some 0)]) one_woken"
    using wake_run by simp
  have st: "zpcs one_woken 0 = Woken True" "que (zq one_woken) = 7 # []" "awake one_woken = {0}"
      "zpcs one_woken 1 = Asleep True"
    by (auto simp: awake_def split: if_splits)
  from zqueue_late_timeout_strands_element [OF run st] show ?thesis using st(2) by auto
qed

text \<open>
  What \<open>try_pop\<close> returns, whatever the wake-ups were: an element it returns was the head of
  the queue it found, and the rest of that queue is what it leaves; false is returned only by a
  wait that timed out, and the queue found then is left as it is; it goes on waiting only at an
  empty queue.
\<close>

theorem try_pop_outcome:
  "case try_pop ws q of
     Popped x q' \<Rightarrow> (\<exists>q0. (q0 = q \<or> (no_timeout, q0) \<in> set ws) \<and> que q0 = x # que q')
   | TimedOut q' \<Rightarrow> (timeout, q') \<in> set ws
   | Blocked q' \<Rightarrow> que q' = []"
proof (induction ws q rule: try_pop.induct)
  case (1 ws q)
  show ?case
  proof (cases "front_pop q")
    case (Some r)
    obtain x q' where r: "r = (x, q')" by (cases r)
    with Some have "que q = x # que q'" by (simp add: front_pop_Some front_pop_None)
    with Some r show ?thesis by (auto simp: try_pop.simps [of ws q])
  next
    case None
    show ?thesis
    proof (cases ws)
      case Nil
      with None have "try_pop ws q = Blocked q" by (subst try_pop.simps) simp
      with None show ?thesis by (simp add: front_pop_None)
    next
      case (Cons w ws')
      obtain st q1 where w: "w = (st, q1)" by (cases w)
      show ?thesis
      proof (cases "st = timeout")
        case True
        with None Cons w have "try_pop ws q = TimedOut q1" by (subst try_pop.simps) simp
        with Cons w True show ?thesis by simp
      next
        case False
        then have st: "st = no_timeout" by (cases st) auto
        have eq: "try_pop ws q = try_pop ws' q1"
          using None Cons w False by (subst try_pop.simps) simp
        show ?thesis using "1.IH" [OF None Cons w [symmetric] False] Cons w st
          unfolding eq by (auto split: pop_result.splits)
      qed
    qed
  qed
qed

text \<open>
  The clock is faithful for every time up to the year 586000: time stamps compare as the
  pairs of seconds and microseconds do, so no product or sum wraps around.
\<close>

theorem gtm_order:
  assumes "s < 18446744073709" and "s' < 18446744073709" and "u < 1000000" and "u' < 1000000"
  shows "gtm s u \<le> gtm s' u' \<longleftrightarrow> s < s' \<or> s = s' \<and> u \<le> u'"
proof -
  have *: "unat (gtm a b) = unat a * 1000000 + unat b"
    if "a < 18446744073709" and "b < 1000000" for a b :: u64
  proof -
    have "unat a < 18446744073709" and "unat b < 1000000"
      using that by (simp_all add: word_less_nat_alt)
    then show ?thesis by (simp add: gtm_def unat_word_ariths mult.assoc)
  qed
  have "unat u < 1000000" and "unat u' < 1000000" using assms by (simp_all add: word_less_nat_alt)
  then show ?thesis using * [of s u] * [of s' u'] assms
    by (simp add: word_le_nat_alt word_less_nat_alt word_unat_eq_iff) linarith
qed

theorem gtm_order_witness:
  "(1700000000 :: u64) < 18446744073709 \<and> (999999 :: u64) < 1000000
   \<and> gtm 1700000000 999999 = 1700000000999999
   \<and> (gtm 1700000000 999999 \<le> gtm 1700000001 0
        \<longleftrightarrow> (1700000000 :: u64) < 1700000001 \<or> (1700000000 :: u64) = 1700000001 \<and> (999999 :: u64) \<le> 0)"
proof -
  have h: "(1700000000 :: u64) < 18446744073709" "(1700000001 :: u64) < 18446744073709"
    "(999999 :: u64) < 1000000" "(0 :: u64) < 1000000" by simp_all
  show ?thesis using gtm_order [OF h] h by (simp add: gtm_def)
qed

end
