(* ===== verification/Trace_Util.thy ===== *)
theory Trace_Util
  imports ZQueue
begin

text \<open>
  \<^verbatim>\<open>src/src/trace_util.h\<close> and the lock of \<^verbatim>\<open>src/src/mem_checker.cpp\<close>: the thread id with its fallback, the
  scoped spin lock \<open>trace_lock\<close>, and \<open>mem_fuller\<close>, which parks a thread that runs out of memory
  until the stack traces are taken.
\<close>

section \<open>Thread ids\<close>

text \<open>
  \<open>get_tid\<close> with the results of the two system calls as arguments; the flag is its static
  \<open>lacks_gettid\<close>.
\<close>

definition get_tid :: "int \<Rightarrow> int \<Rightarrow> bool \<Rightarrow> int \<times> bool" where
  "get_tid gettid_result pid lacks_gettid =
     (if \<not> lacks_gettid
      then if gettid_result \<noteq> -1 then (gettid_result, lacks_gettid) else (pid, True)
      else (pid, lacks_gettid))"

section \<open>The scoped spin lock\<close>

text \<open>
  Integer cells of the process: an address holds a value while its object lives. An access to
  an object whose lifetime has ended is an error value.
\<close>

type_synonym cells = "nat \<rightharpoonup> int"

datatype lock_error = Dangling

definition compare_and_swap :: "cells \<Rightarrow> nat \<Rightarrow> int \<Rightarrow> int \<Rightarrow> lock_error + (bool \<times> cells)" where
  "compare_and_swap m a old new =
     (case m a of
        None \<Rightarrow> Inl Dangling
      | Some v \<Rightarrow> if v = old then Inr (True, m(a \<mapsto> new)) else Inr (False, m))"

partial_function (option) spin :: "cells \<Rightarrow> nat \<Rightarrow> (lock_error + cells) option" where
  "spin m a =
     (case compare_and_swap m a 0 1 of
        Inl e \<Rightarrow> Some (Inl e)
      | Inr (ok, m') \<Rightarrow> if ok then Some (Inr m') else spin m' a)"

text \<open>
  The constructor takes \<open>int mutex\<close> by value: the parameter is a cell of its own, \<open>mutex_\<close>
  points to it, and its lifetime ends when the constructor returns. \<open>None\<close>: the constructor
  never returns.
\<close>

definition trace_lock_ctor :: "cells \<Rightarrow> nat \<Rightarrow> int \<Rightarrow> (lock_error + cells) option" where
  "trace_lock_ctor m param mutex =
     map_option (map_sum id (\<lambda>m'. m'(param := None))) (spin (m(param \<mapsto> mutex)) param)"

definition trace_lock_dtor :: "cells \<Rightarrow> nat \<Rightarrow> lock_error + cells" where
  "trace_lock_dtor m mutex_ptr = map_sum id snd (compare_and_swap m mutex_ptr 1 0)"

text \<open>One thread after the other constructs a lock on the mutex at address \<open>g\<close>.\<close>

fun lock_all :: "cells \<Rightarrow> nat \<Rightarrow> nat list \<Rightarrow> (lock_error + cells) option" where
  "lock_all m g [] = Some (Inr m)"
| "lock_all m g (param # ps) =
     (case m g of
        None \<Rightarrow> Some (Inl Dangling)
      | Some mutex \<Rightarrow>
          (case trace_lock_ctor m param mutex of
             Some (Inr m') \<Rightarrow> lock_all m' g ps
           | r \<Rightarrow> r))"

section \<open>Parking threads: mem_fuller\<close>

text \<open>
  A thread inside \<open>pending\<close> is before \<open>pthread_mutex_lock\<close>, asleep in \<open>pthread_cond_wait\<close>, or
  woken and waiting for \<open>c_mutex_\<close>. Locking and starting to wait is one step, since the wait
  releases the mutex; so is taking the mutex after the wait and unlocking it.
\<close>

datatype mpc = MOutside | MLocking | MAsleep | MWoken

record mem_fuller =
  queue :: "u64 zqueue"
  c_mutex :: "nat option"
  mpcs :: "nat \<Rightarrow> mpc"
  stack_trace :: "nat \<Rightarrow> bool"

definition mf_new :: mem_fuller where
  "mf_new = \<lparr>queue = zq_new, c_mutex = None, mpcs = (\<lambda>_. MOutside), stack_trace = (\<lambda>_. False)\<rparr>"

definition set_stack_trace :: "nat \<Rightarrow> mem_fuller \<Rightarrow> mem_fuller" where
  "set_stack_trace t s = s\<lparr>stack_trace := (stack_trace s)(t := True)\<rparr>"

definition get_stack_trace :: "nat \<Rightarrow> mem_fuller \<Rightarrow> bool" where
  "get_stack_trace t s = stack_trace s t"

text \<open>\<open>pending\<close> up to the mutex: the time stamp is queued; an agent thread returns at once.\<close>

definition pending_enter :: "nat \<Rightarrow> u64 \<Rightarrow> mem_fuller \<Rightarrow> mem_fuller" where
  "pending_enter t tm s =
     (let s' = s\<lparr>queue := push tm (queue s)\<rparr>
      in if \<not> stack_trace s t then s'\<lparr>mpcs := (mpcs s)(t := MLocking)\<rparr> else s')"

text \<open>
  \<open>notify\<close> once it holds \<open>c_mutex_\<close>: \<open>signalled\<close> is the waiter \<open>pthread_cond_signal\<close> chose. With
  \<open>all\<close> the function returns before \<open>pthread_mutex_unlock\<close>.
\<close>

definition notify :: "nat \<Rightarrow> bool \<Rightarrow> nat option \<Rightarrow> mem_fuller \<Rightarrow> mem_fuller" where
  "notify t all signalled s =
     (let pcs1 = (case signalled of None \<Rightarrow> mpcs s | Some u \<Rightarrow> (mpcs s)(u := MWoken))
      in if all
         then s\<lparr>c_mutex := Some t, mpcs := (\<lambda>u. if pcs1 u = MAsleep then MWoken else pcs1 u)\<rparr>
         else s\<lparr>c_mutex := None, mpcs := pcs1\<rparr>)"

definition signal_choice :: "mem_fuller \<Rightarrow> nat option \<Rightarrow> bool" where
  "signal_choice s c \<longleftrightarrow>
     (case c of None \<Rightarrow> (\<forall>u. mpcs s u \<noteq> MAsleep) | Some u \<Rightarrow> mpcs s u = MAsleep)"

datatype mevent =
    MPend nat u64 | MSleep nat | MSpurious nat | MReturn nat | MNotify nat bool "nat option"
  | MSet nat

inductive mstep :: "mem_fuller \<Rightarrow> mevent \<Rightarrow> mem_fuller \<Rightarrow> bool" where
  m_set: "mpcs s t = MOutside \<Longrightarrow> mstep s (MSet t) (set_stack_trace t s)"
| m_pend: "mpcs s t = MOutside \<Longrightarrow> mstep s (MPend t tm) (pending_enter t tm s)"
| m_sleep: "mpcs s t = MLocking \<Longrightarrow> c_mutex s = None \<Longrightarrow>
     mstep s (MSleep t) (s\<lparr>mpcs := (mpcs s)(t := MAsleep)\<rparr>)"
| m_spurious: "mpcs s t = MAsleep \<Longrightarrow>
     mstep s (MSpurious t) (s\<lparr>mpcs := (mpcs s)(t := MWoken)\<rparr>)"
| m_return: "mpcs s t = MWoken \<Longrightarrow> c_mutex s = None \<Longrightarrow>
     mstep s (MReturn t) (s\<lparr>mpcs := (mpcs s)(t := MOutside)\<rparr>)"
| m_notify: "mpcs s t = MOutside \<Longrightarrow> c_mutex s = None \<Longrightarrow> signal_choice s c \<Longrightarrow>
     mstep s (MNotify t all c) (notify t all c s)"

inductive_cases m_return_elim [elim!]: "mstep s (MReturn t) s'"

inductive_simps m_return_simps: "mstep s (MReturn t) s'"

definition broadcast :: "mevent \<Rightarrow> bool" where
  "broadcast e \<longleftrightarrow> (\<exists>t c. e = MNotify t True c)"

definition needs_mutex :: "mevent \<Rightarrow> bool" where
  "needs_mutex e \<longleftrightarrow> (\<exists>t. e = MReturn t \<or> e = MSleep t \<or> (\<exists>all c. e = MNotify t all c))"

section \<open>The single instance\<close>

text \<open>
  \<open>mem_fuller::instance\<close> has no lock. A caller tests \<open>self_\<close>, creates an object if it saw none, and
  reads \<open>self_\<close> again to return it; objects are numbered as they are created.
\<close>

datatype ipc = IOutside | IMake | IRead

record singleton =
  self :: "nat option"
  created :: nat
  ipcs :: "nat \<Rightarrow> ipc"

definition singleton_start :: singleton where
  "singleton_start = \<lparr>self = None, created = 0, ipcs = (\<lambda>_. IOutside)\<rparr>"

datatype ievent = ITest nat | INew nat | IGot nat nat

inductive istep :: "singleton \<Rightarrow> ievent \<Rightarrow> singleton \<Rightarrow> bool" where
  i_test: "ipcs s t = IOutside \<Longrightarrow>
     istep s (ITest t) (s\<lparr>ipcs := (ipcs s)(t := (if self s = None then IMake else IRead))\<rparr>)"
| i_new: "ipcs s t = IMake \<Longrightarrow>
     istep s (INew t) (s\<lparr>self := Some (created s), created := created s + 1, ipcs := (ipcs s)(t := IRead)\<rparr>)"
| i_got: "ipcs s t = IRead \<Longrightarrow> self s = Some k \<Longrightarrow> istep s (IGot t k) (s\<lparr>ipcs := (ipcs s)(t := IOutside)\<rparr>)"

section \<open>Lemmas\<close>

lemma get_tid_lacks: "get_tid r p True = (p, True)"
  by (simp add: get_tid_def)

lemma spin_acquires: "m a = Some 0 \<Longrightarrow> spin m a = Some (Inr (m(a \<mapsto> 1)))"
  by (subst spin.simps) (simp add: compare_and_swap_def)

lemma spin_diverges:
  assumes "m a = Some v" and "v \<noteq> 0"
  shows "spin m a = None"
proof (rule ccontr)
  assume "spin m a \<noteq> None"
  then obtain r where ret: "spin m a = Some r" by auto
  have "\<forall>v. m a = Some v \<longrightarrow> v = 0"
  proof (rule spin.raw_induct [where P = "\<lambda>m a r. \<forall>v. m a = Some v \<longrightarrow> v = 0", OF _ ret])
    fix f m a r
    assume IH: "\<And>m a r. f m a = Some r \<Longrightarrow> \<forall>v. m a = Some v \<longrightarrow> v = 0"
      and eq: "(case compare_and_swap m a 0 1 of
         Inl e \<Rightarrow> Some (Inl e)
       | Inr (ok, m') \<Rightarrow> if ok then Some (Inr m') else f m' a) = Some r"
    show "\<forall>v. m a = Some v \<longrightarrow> v = 0"
      using eq IH [of m a r] by (auto simp: compare_and_swap_def split: if_splits option.splits)
  qed
  with assms show False by simp
qed

lemma ctor_zero:
  assumes "m param = None"
  shows "trace_lock_ctor m param 0 = Some (Inr m)"
  using assms by (auto simp: trace_lock_ctor_def spin_acquires fun_eq_iff)

lemma ctor_nonzero: "v \<noteq> 0 \<Longrightarrow> trace_lock_ctor m param v = None"
  by (simp add: trace_lock_ctor_def spin_diverges)

lemma owner_kept:
  assumes "mstep s e s'" and "c_mutex s = Some o1"
  shows "c_mutex s' = Some o1 \<and> \<not> needs_mutex e"
  using assms
  by (cases rule: mstep.cases)
    (auto simp: set_stack_trace_def pending_enter_def Let_def needs_mutex_def)

interpretation mfree: labelled_invariant mf_new mstep
  "\<lambda>es s. list_all (\<lambda>e. \<not> broadcast e) es \<longrightarrow> c_mutex s = None"
proof unfold_locales
  show "list_all (\<lambda>e. \<not> broadcast e) [] \<longrightarrow> c_mutex mf_new = None" by (simp add: mf_new_def)
next
  fix es s e t
  assume "list_all (\<lambda>e. \<not> broadcast e) es \<longrightarrow> c_mutex s = None" and "mstep s e t"
  from this(2,1) show "list_all (\<lambda>e. \<not> broadcast e) (es @ [e]) \<longrightarrow> c_mutex t = None"
    by (cases rule: mstep.cases)
      (auto simp: set_stack_trace_def pending_enter_def notify_def Let_def broadcast_def)
qed

lemma owner_kept_run:
  assumes "lrun mstep s es s'" and "c_mutex s = Some o1"
  shows "c_mutex s' = Some o1 \<and> list_all (\<lambda>e. \<not> needs_mutex e) es"
  using assms
proof (induction rule: lrun.induct)
  case lrun_nil
  then show ?case by simp
next
  case (lrun_snoc es t e u)
  then show ?case using owner_kept [of t e u o1] by simp
qed

text \<open>Once the object exists and nobody is about to create another, every caller gets that one.\<close>

definition settled :: "nat \<Rightarrow> singleton \<Rightarrow> bool" where
  "settled k s \<longleftrightarrow> self s = Some k \<and> (\<forall>t. ipcs s t \<noteq> IMake)"

lemma settled_step: "istep s e s' \<Longrightarrow> settled k s \<Longrightarrow> settled k s' \<and> (\<forall>t j. e = IGot t j \<longrightarrow> j = k)"
  by (cases rule: istep.cases) (auto simp: settled_def split: if_splits)

theorem instance_stable:
  assumes "lrun istep s es s'" and "settled k s"
  shows "settled k s' \<and> (\<forall>t j. IGot t j \<in> set es \<longrightarrow> j = k)"
  using assms
proof (induction rule: lrun.induct)
  case (lrun_snoc es t e u)
  then show ?case using settled_step [of t e u k] by auto
qed simp

text \<open>Two callers that both see no object get different ones, and the first object is lost.\<close>

theorem instance_race:
  "\<exists>s. lrun istep singleton_start [ITest 0, ITest 1, INew 0, IGot 0 0, INew 1, IGot 1 1] s \<and> settled 1 s"
proof -
  let ?f = "\<lambda>_ :: nat. IOutside"
  let ?s = "\<lambda>o1 n p q. \<lparr>self = o1, created = n, ipcs = ?f(0 := p, 1 := q)\<rparr>"
  have 0: "singleton_start = ?s None 0 IOutside IOutside" by (simp add: singleton_start_def)
  have 1: "istep (?s None 0 IOutside IOutside) (ITest 0) (?s None 0 IMake IOutside)"
    using i_test [of "?s None 0 IOutside IOutside" 0] by (simp add: fun_upd_twist del: const_fun_upd)
  have 2: "istep (?s None 0 IMake IOutside) (ITest 1) (?s None 0 IMake IMake)"
    using i_test [of "?s None 0 IMake IOutside" 1] by (simp del: const_fun_upd)
  have 3: "istep (?s None 0 IMake IMake) (INew 0) (?s (Some 0) 1 IRead IMake)"
    using i_new [of "?s None 0 IMake IMake" 0] by (simp add: fun_upd_twist del: const_fun_upd)
  have 4: "istep (?s (Some 0) 1 IRead IMake) (IGot 0 0) (?s (Some 0) 1 IOutside IMake)"
    using i_got [of "?s (Some 0) 1 IRead IMake" 0 0] by (simp add: fun_upd_twist del: const_fun_upd)
  have 5: "istep (?s (Some 0) 1 IOutside IMake) (INew 1) (?s (Some 1) 2 IOutside IRead)"
    using i_new [of "?s (Some 0) 1 IOutside IMake" 1] by (simp add: numeral_2_eq_2)
  have 6: "istep (?s (Some 1) 2 IOutside IRead) (IGot 1 1) (?s (Some 1) 2 IOutside IOutside)"
    using i_got [of "?s (Some 1) 2 IOutside IRead" 1 1] by simp
  have "lrun istep singleton_start [ITest 0, ITest 1, INew 0, IGot 0 0, INew 1, IGot 1 1]
      (?s (Some 1) 2 IOutside IOutside)"
    unfolding 0
    by (rule lrun_Cons [of istep, OF 1 lrun_Cons [of istep, OF 2 lrun_Cons [of istep, OF 3
          lrun_Cons [of istep, OF 4 lrun_Cons [of istep, OF 5 lrun_Cons [of istep, OF 6]]]]]])
      (rule lrun.lrun_nil)
  then show ?thesis by (intro exI conjI) (assumption, simp add: settled_def)
qed

section \<open>Properties\<close>

text \<open>
  C33. \<open>trace_lock\<close> excludes nobody. While the mutex variable is 0, any number of threads can
  construct a lock on it, one after the other with none released: every constructor returns,
  and it leaves the variable and all of memory unchanged. Each destructor afterwards accesses a
  parameter that is no longer alive.
\<close>

theorem trace_lock_no_exclusion:
  assumes "m g = Some 0" and "\<forall>p \<in> set ps. m p = None"
  shows "lock_all m g ps = Some (Inr m)
    \<and> list_all (\<lambda>p. trace_lock_dtor m p = Inl Dangling) ps"
  using assms
  by (induction ps) (simp_all add: ctor_zero trace_lock_dtor_def compare_and_swap_def)

theorem trace_lock_no_exclusion_witness:
  "lock_all [0 \<mapsto> 0] 0 [1, 2] = Some (Inr [0 \<mapsto> 0])
   \<and> list_all (\<lambda>p. trace_lock_dtor [0 \<mapsto> 0] p = Inl Dangling) [1, 2]"
proof -
  have "\<forall>p \<in> set [1, 2 :: nat]. [0 \<mapsto> (0::int)] p = None" by simp
  then show ?thesis by (intro trace_lock_no_exclusion) simp
qed

text \<open>
  If the variable passed to \<open>trace_lock\<close> is not 0, the constructor never returns: nobody
  else can change the copy it spins on.
\<close>

theorem trace_lock_spins_forever: "trace_lock_ctor m param v = None \<longleftrightarrow> v \<noteq> 0"
proof -
  have "trace_lock_ctor m param 0 \<noteq> None"
    by (simp add: trace_lock_ctor_def spin_acquires)
  then show ?thesis by (metis ctor_nonzero)
qed

text \<open>
  C34. \<open>notify(true)\<close> leaves \<open>c_mutex_\<close> locked for ever: in every continuation no waiter returns
  from \<open>pending\<close>, nobody starts to wait and no further \<open>notify\<close> gets through, although the
  broadcast has woken every waiter.
\<close>

theorem notify_all_deadlocks:
  assumes "mstep s (MNotify t True c) s1" and "lrun mstep s1 es s2"
  shows "c_mutex s2 = Some t \<and> list_all (\<lambda>e. \<not> needs_mutex e) es"
proof -
  have "c_mutex s1 = Some t"
    using assms(1) by (cases rule: mstep.cases) (auto simp: notify_def Let_def)
  with assms(2) show ?thesis by (rule owner_kept_run)
qed

theorem notify_all_deadlocks_witness:
  "let s = mf_new\<lparr>mpcs := (\<lambda>_. MOutside)(0 := MAsleep)\<rparr>; s1 = notify 1 True (Some 0) s
   in mstep s (MNotify 1 True (Some 0)) s1 \<and> mpcs s1 0 = MWoken \<and> c_mutex s1 = Some 1"
proof -
  let ?s = "mf_new\<lparr>mpcs := (\<lambda>_. MOutside)(0 := MAsleep)\<rparr>"
  have step: "mstep ?s (MNotify 1 True (Some 0)) (notify 1 True (Some 0) ?s)"
    by (rule m_notify) (simp_all add: mf_new_def signal_choice_def)
  from notify_all_deadlocks [OF step lrun.lrun_nil]
  have "c_mutex (notify 1 True (Some 0) ?s) = Some 1" by blast
  moreover have "mpcs (notify 1 True (Some 0) ?s) 0 = MWoken" by (simp add: notify_def Let_def)
  ultimately show ?thesis using step by (simp add: Let_def)
qed

text \<open>
  As long as nobody calls \<open>notify(true)\<close>, as the agent does not, the mutex is free between
  the steps, a woken thread can always leave \<open>pending\<close>, and one \<open>notify(false)\<close> with a waiter
  present makes some waiter able to return.
\<close>

theorem notify_one_lets_waiter_return:
  assumes "lrun mstep mf_new es s" and "list_all (\<lambda>e. \<not> broadcast e) es"
    and "mpcs s u = MAsleep" and "mpcs s t = MOutside"
  shows "\<exists>w s1 s2. mstep s (MNotify t False (Some w)) s1 \<and> mstep s1 (MReturn w) s2
    \<and> mpcs s2 w = MOutside"
proof -
  have free: "c_mutex s = None" using mfree.run_invariant [OF assms(1)] assms(2) by blast
  let ?s1 = "notify t False (Some u) s"
  have "mstep s (MNotify t False (Some u)) ?s1"
    using assms(3,4) free by (auto intro: m_notify simp: signal_choice_def)
  moreover have "mstep ?s1 (MReturn u) (?s1\<lparr>mpcs := (mpcs ?s1)(u := MOutside)\<rparr>)"
    by (rule m_return) (simp_all add: notify_def Let_def)
  ultimately show ?thesis by (intro exI conjI) (assumption, assumption, simp)
qed

theorem notify_one_lets_waiter_return_witness:
  "\<exists>s es. lrun mstep mf_new es s \<and> mpcs s 0 = MAsleep \<and> que (queue s) = [42]
     \<and> (\<exists>w s1 s2. mstep s (MNotify 1 False (Some w)) s1 \<and> mstep s1 (MReturn w) s2
          \<and> mpcs s2 w = MOutside)"
proof -
  let ?s1 = "pending_enter 0 42 mf_new"
  let ?s2 = "?s1\<lparr>mpcs := (mpcs ?s1)(0 := MAsleep)\<rparr>"
  have 1: "mstep mf_new (MPend 0 42) ?s1" by (rule m_pend) (simp add: mf_new_def)
  have 2: "mstep ?s1 (MSleep 0) ?s2"
    by (rule m_sleep) (simp_all add: pending_enter_def mf_new_def Let_def)
  have run: "lrun mstep mf_new [MPend 0 42, MSleep 0] ?s2"
    by (rule lrun_Cons [of mstep, OF 1 lrun_Cons [of mstep, OF 2]]) (rule lrun.lrun_nil)
  have ok: "list_all (\<lambda>e. \<not> broadcast e) [MPend 0 42, MSleep 0]" by (simp add: broadcast_def)
  have a: "mpcs ?s2 0 = MAsleep" by simp
  have o1: "mpcs ?s2 1 = MOutside" by (simp add: pending_enter_def mf_new_def Let_def)
  have q: "que (queue ?s2) = [42]"
    by (simp add: pending_enter_def mf_new_def Let_def push_def zq_new_def)
  show ?thesis
    by (rule exI [of _ ?s2], rule exI [of _ "[MPend 0 42, MSleep 0]"])
      (intro conjI run a q notify_one_lets_waiter_return [OF run ok a o1])
qed

end
