(* ===== verification/Mem_Checker.thy ===== *)
theory Mem_Checker
  imports Trace_Util
begin

text \<open>
  \<^verbatim>\<open>src/src/mem_checker.cpp\<close> and \<^verbatim>\<open>src/src/trace_backtrace.h\<close>: the ledger of live allocations with the report
  each allocation prints. The ledger is \<open>map_\<close> with the running total \<open>mem_\<close>; the stack walk of
  libunwind and the demangler are inputs.
\<close>

section \<open>Stack walk\<close>

text \<open>
  What the libunwind and C++ ABI calls give for one frame: the result of the \<open>unw_step\<close> that
  reached it, whether \<open>unw_get_proc_name\<close> returned 0, the buffer \<open>symbol\<close> after that call (it
  still holds \<open><unknown>\<close> when the call left it alone), and the result of \<open>__cxa_demangle\<close>.
\<close>

record frame =
  step_rc :: int
  name_ok :: bool
  symbol :: string
  demangled :: "string option"

definition frame_name :: "frame \<Rightarrow> string" where
  "frame_name f =
     (if name_ok f then case demangled f of None \<Rightarrow> symbol f | Some n \<Rightarrow> n else symbol f)"

text \<open>
  The loop runs while \<open>unw_step\<close> returns something other than 0. The second component is the
  local \<open>rr\<close>, which the function computes and never returns.
\<close>

fun trace_backtrace_loop :: "frame list \<Rightarrow> string list \<Rightarrow> bool \<Rightarrow> string list \<times> bool" where
  "trace_backtrace_loop [] stacks rr = (stacks, rr)"
| "trace_backtrace_loop (f # fs) stacks rr =
     (if step_rc f = 0 then (stacks, rr)
      else trace_backtrace_loop fs (stacks @ [frame_name f])
             (if strncmp_eq ''os::malloc'' (frame_name f) then True else rr))"

definition trace_backtrace :: "frame list \<Rightarrow> string list \<times> bool" where
  "trace_backtrace fs = trace_backtrace_loop fs [] False"

section \<open>The ledger\<close>

record mem_checker =
  mem :: u64
  blocks :: "ptr \<rightharpoonup> int"

definition mc_empty :: mem_checker where
  "mc_empty = \<lparr>mem = 0, blocks = Map.empty\<rparr>"

text \<open>\<open>std::map::insert\<close> does nothing when the key is present.\<close>

definition map_insert :: "('k \<rightharpoonup> 'v) \<Rightarrow> 'k \<Rightarrow> 'v \<Rightarrow> ('k \<rightharpoonup> 'v)" where
  "map_insert f k v = (if f k = None then f(k \<mapsto> v) else f)"

text \<open>
  The state change of \<open>add\<close>; the length becomes an \<open>int64_t\<close> in the map, and \<open>del\<close> subtracts it
  in \<open>uint64_t\<close> arithmetic.
\<close>

definition add :: "ptr \<Rightarrow> u64 \<Rightarrow> mem_checker \<Rightarrow> mem_checker" where
  "add p len s = s\<lparr>mem := mem s + len, blocks := map_insert (blocks s) p (sint len)\<rparr>"

text \<open>The two statements of \<open>add\<close> that change the ledger; an exception may come between them.\<close>

definition charge :: "u64 \<Rightarrow> mem_checker \<Rightarrow> mem_checker" where
  "charge len s = s\<lparr>mem := mem s + len\<rparr>"

definition map_enter :: "ptr \<Rightarrow> u64 \<Rightarrow> mem_checker \<Rightarrow> mem_checker" where
  "map_enter p len s = s\<lparr>blocks := map_insert (blocks s) p (sint len)\<rparr>"

lemma add_split: "add p len s = map_enter p len (charge len s)"
  by (simp add: add_def map_enter_def charge_def)

lemma map_enter_again: "blocks s p \<noteq> None \<Longrightarrow> map_enter p len s = s"
  by (auto simp: map_enter_def map_insert_def)

datatype report_line =
    AddBegin int u64
  | AddFrame nat string int
  | AddEnd int

text \<open>The lines \<open>add\<close> prints, for the calling thread \<open>tid\<close>.\<close>

definition add_report :: "int \<Rightarrow> frame list \<Rightarrow> mem_checker \<Rightarrow> report_line list" where
  "add_report tid fs s =
     (let stacks = fst (trace_backtrace fs)
      in AddBegin tid (mem s)
         # map (\<lambda>i. AddFrame i (stacks ! i) tid) [0..<length stacks]
         @ [AddEnd tid])"

definition mem_checker_add ::
    "int \<Rightarrow> frame list \<Rightarrow> ptr \<Rightarrow> u64 \<Rightarrow> mem_checker \<Rightarrow> report_line list \<times> mem_checker" where
  "mem_checker_add tid fs p len s = (let s' = add p len s in (add_report tid fs s', s'))"

definition del :: "ptr \<Rightarrow> mem_checker \<Rightarrow> mem_checker" where
  "del p s =
     (if p = NULL then s
      else case blocks s p of
        None \<Rightarrow> s
      | Some len \<Rightarrow> s\<lparr>mem := mem s - word_of_int len, blocks := (blocks s)(p := None)\<rparr>)"

section \<open>Two threads in add\<close>

text \<open>
  \<open>mem_ += len\<close> is a load and a store. Each thread first constructs its \<open>trace_lock\<close> on
  \<open>m_mutex_\<close>, the cell at address \<open>0\<close>; the parameter of thread \<open>t\<close>'s constructor is cell \<open>t + 1\<close>.
\<close>

datatype apc = AStart | ALocked | ALoaded u64 | AStored

record race =
  rcells :: cells
  rmem :: u64
  rpcs :: "nat \<Rightarrow> apc"

definition race_start :: race where
  "race_start = \<lparr>rcells = [0 \<mapsto> 0], rmem = 0, rpcs = (\<lambda>_. AStart)\<rparr>"

inductive astep :: "(nat \<Rightarrow> u64) \<Rightarrow> race \<Rightarrow> nat \<Rightarrow> race \<Rightarrow> bool" for len where
  a_lock: "rpcs s t = AStart \<Longrightarrow> rcells s 0 = Some mutex \<Longrightarrow>
     trace_lock_ctor (rcells s) (t + 1) mutex = Some (Inr m') \<Longrightarrow>
     astep len s t (s\<lparr>rcells := m', rpcs := (rpcs s)(t := ALocked)\<rparr>)"
| a_load: "rpcs s t = ALocked \<Longrightarrow>
     astep len s t (s\<lparr>rpcs := (rpcs s)(t := ALoaded (rmem s))\<rparr>)"
| a_store: "rpcs s t = ALoaded v \<Longrightarrow>
     astep len s t (s\<lparr>rmem := v + len t, rpcs := (rpcs s)(t := AStored)\<rparr>)"

section \<open>The ledger contract\<close>

text \<open>The bytes of a set of blocks, those under the \<open>NULL\<close> key left out.\<close>

definition outstanding_of :: "(ptr \<rightharpoonup> u64) \<Rightarrow> u64" where
  "outstanding_of f = (\<Sum>p \<in> dom f - {NULL}. case f p of None \<Rightarrow> 0 | Some n \<Rightarrow> n)"

text \<open>The ledger's view of what it tracks, in the unsigned arithmetic of the total.\<close>

definition tracked :: "mem_checker \<Rightarrow> (ptr \<rightharpoonup> u64)" where
  "tracked s = (\<lambda>p. map_option word_of_int (blocks s p))"

lemma outstanding_split:
  assumes "p \<noteq> NULL"
  shows "outstanding_of f = (case f p of None \<Rightarrow> 0 | Some n \<Rightarrow> n) + outstanding_of (f(p := None))"
proof -
  let ?v = "\<lambda>q. case f q of None \<Rightarrow> 0 | Some n \<Rightarrow> n"
  have rest: "outstanding_of (f(p := None)) = (\<Sum>q \<in> dom f - {NULL} - {p}. ?v q)"
    unfolding outstanding_of_def by (rule sum.cong) auto
  show ?thesis
  proof (cases "p \<in> dom f")
    case True
    with assms have "(\<Sum>q \<in> dom f - {NULL}. ?v q) = ?v p + (\<Sum>q \<in> dom f - {NULL} - {p}. ?v q)"
      by (intro sum.remove) auto
    with rest show ?thesis by (simp add: outstanding_of_def)
  next
    case False
    then have none: "f p = None" by auto
    then have "f(p := None) = f" by auto
    with none show ?thesis by simp
  qed
qed

lemma outstanding_drop:
  "p \<noteq> NULL \<Longrightarrow>
   outstanding_of (f(p := None)) = outstanding_of f - (case f p of None \<Rightarrow> 0 | Some n \<Rightarrow> n)"
  by (simp add: outstanding_split [of p f])

lemma outstanding_upd:
  "p \<noteq> NULL \<Longrightarrow> f p = None \<Longrightarrow> outstanding_of (f(p \<mapsto> n)) = outstanding_of f + n"
  using outstanding_split [of p "f(p \<mapsto> n)"] fun_upd_triv [of f p] by simp

text \<open>
  What the allocation hooks rely on. \<open>live\<close> is the ledger's view of the tracked blocks and
  \<open>total\<close> the running total.
\<close>

locale allocation_ledger =
  fixes none :: "'l"
    and enter :: "ptr \<Rightarrow> u64 \<Rightarrow> 'l \<Rightarrow> 'l"
    and remove :: "ptr \<Rightarrow> 'l \<Rightarrow> 'l"
    and total :: "'l \<Rightarrow> u64"
    and live :: "'l \<Rightarrow> (ptr \<rightharpoonup> u64)"
  assumes live_none: "live none = Map.empty"
    and total_none: "total none = 0"
    and live_enter: "live (enter p n l) = (if live l p = None then (live l)(p \<mapsto> n) else live l)"
    and total_enter: "total (enter p n l) = total l + n"
    and live_remove: "live (remove p l) = (if p = NULL then live l else (live l)(p := None))"
    and total_remove: "total (remove p l) =
          (case live l p of None \<Rightarrow> total l | Some n \<Rightarrow> if p = NULL then total l else total l - n)"
begin

lemma outstanding_enter_fresh:
  assumes "p \<noteq> NULL" and "live l p = None"
  shows "outstanding_of (live (enter p n l)) = outstanding_of (live l) + n"
  using outstanding_upd [of p "live l" n] assms by (simp add: live_enter)

lemma outstanding_enter_null: "outstanding_of (live (enter NULL n l)) = outstanding_of (live l)"
  unfolding outstanding_of_def by (rule sum.cong) (auto simp: live_enter)

lemma outstanding_remove:
  assumes "p \<noteq> NULL"
  shows "outstanding_of (live (remove p l)) =
    outstanding_of (live l) - (case live l p of None \<Rightarrow> 0 | Some n \<Rightarrow> n)"
  using outstanding_drop [of p "live l"] assms by (simp add: live_remove)

text \<open>\<open>drift\<close>: how much more the total says than the tracked blocks add up to.\<close>

definition drift :: "'l \<Rightarrow> u64" where
  "drift l = total l - outstanding_of (live l)"

lemma drift_none: "drift none = 0"
  by (simp add: drift_def outstanding_of_def live_none total_none)

lemma drift_enter_fresh: "p \<noteq> NULL \<Longrightarrow> live l p = None \<Longrightarrow> drift (enter p n l) = drift l"
  by (simp add: drift_def outstanding_enter_fresh total_enter)

lemma drift_enter_null: "drift (enter NULL n l) = drift l + n"
  by (simp add: drift_def outstanding_enter_null total_enter)

lemma drift_enter_known:
  assumes "p \<noteq> NULL" and "live l p \<noteq> None"
  shows "drift (enter p n l) = drift l + n"
proof -
  have "live (enter p n l) = live l" using assms by (auto simp: live_enter)
  then show ?thesis by (simp add: drift_def total_enter)
qed

lemma drift_remove: "drift (remove p l) = drift l"
proof (cases "p = NULL")
  case True
  then have "live (remove p l) = live l" by (simp add: live_remove)
  with True show ?thesis by (simp add: drift_def total_remove split: option.splits)
next
  case False
  then show ?thesis by (simp add: drift_def total_remove outstanding_remove split: option.splits)
qed

end

interpretation mc: allocation_ledger mc_empty add del mem tracked
proof unfold_locales
  show "tracked mc_empty = Map.empty" by (simp add: tracked_def mc_empty_def)
  show "mem mc_empty = 0" by (simp add: mc_empty_def)
  fix p :: ptr and n l
  show "tracked (add p n l) = (if tracked l p = None then (tracked l)(p \<mapsto> n) else tracked l)"
    by (auto simp: tracked_def add_def map_insert_def fun_eq_iff)
  show "mem (add p n l) = mem l + n" by (simp add: add_def)
  show "tracked (del p l) = (if p = NULL then tracked l else (tracked l)(p := None))"
    by (auto simp: tracked_def del_def fun_eq_iff split: option.splits)
  show "mem (del p l) =
      (case tracked l p of None \<Rightarrow> mem l | Some n \<Rightarrow> if p = NULL then mem l else mem l - n)"
    by (auto simp: tracked_def del_def split: option.splits)
qed

section \<open>Properties\<close>

lemma tracked_None [simp]: "tracked s p = None \<longleftrightarrow> blocks s p = None"
  by (simp add: tracked_def)

lemma balanced_iff: "mem s = outstanding_of (tracked s) \<longleftrightarrow> mc.drift s = 0"
  by (simp add: mc.drift_def)

text \<open>
  C24. The running total is the sum of the tracked blocks, in 64-bit arithmetic: \<open>del\<close> always
  keeps this, and \<open>add\<close> keeps it exactly when the block is new and not \<open>NULL\<close> (or has no bytes).
  A failed allocation (\<open>NULL\<close>) and a pointer that is already tracked make the total too high.
\<close>

theorem mem_checker_balance:
  assumes "mem s = outstanding_of (tracked s)"
  shows "mem (del p s) = outstanding_of (tracked (del p s))
    \<and> (mem (add p n s) = outstanding_of (tracked (add p n s))
         \<longleftrightarrow> n = 0 \<or> p \<noteq> NULL \<and> blocks s p = None)"
proof (rule conjI)
  have d: "mc.drift s = 0" using assms by (simp add: balanced_iff)
  show "mem (del p s) = outstanding_of (tracked (del p s))"
    by (simp only: balanced_iff mc.drift_remove d)
  show "mem (add p n s) = outstanding_of (tracked (add p n s))
      \<longleftrightarrow> n = 0 \<or> p \<noteq> NULL \<and> blocks s p = None"
    unfolding balanced_iff
    using d mc.drift_enter_fresh [of p s n] mc.drift_enter_null [of n s]
      mc.drift_enter_known [of p s n]
    by (cases "p = NULL"; cases "blocks s p = None") auto
qed

theorem mem_checker_balance_witness:
  "mem mc_empty = outstanding_of (tracked mc_empty)
   \<and> mem (add 0x1000 64 mc_empty) = outstanding_of (tracked (add 0x1000 64 mc_empty))
   \<and> mem (add NULL 64 mc_empty) \<noteq> outstanding_of (tracked (add NULL 64 mc_empty))"
proof -
  have start: "mem mc_empty = outstanding_of (tracked mc_empty)"
    by (simp add: balanced_iff mc.drift_none)
  have "blocks mc_empty 0x1000 = None" by (simp add: mc_empty_def)
  then show ?thesis
    using start mem_checker_balance [OF start, of "0x1000" 64]
      mem_checker_balance [OF start, of NULL 64] by simp
qed

text \<open>Removing a block that was just added restores the ledger.\<close>

lemma del_add_roundtrip:
  assumes "p \<noteq> NULL" and "blocks s p = None"
  shows "del p (add p n s) = s"
proof -
  have "(blocks s)(p := None) = blocks s" using assms(2) by (simp add: fun_upd_idem)
  with assms show ?thesis by (simp add: del_def add_def map_insert_def)
qed

theorem del_add_roundtrip_witness:
  "(0x1000 :: ptr) \<noteq> NULL \<and> del 0x1000 (add 0x1000 64 (add 0x2000 8 mc_empty)) = add 0x2000 8 mc_empty"
proof -
  have "blocks (add 0x2000 8 mc_empty) 0x1000 = None"
    by (simp add: add_def map_insert_def mc_empty_def)
  then show ?thesis using del_add_roundtrip [of "0x1000" "add 0x2000 8 mc_empty" 64] by simp
qed

text \<open>
  Without a lock that excludes, the total loses updates: two threads that add 3 and 5 bytes
  can both finish with the total at 5.
\<close>

theorem mem_checker_lost_update:
  "\<exists>ts s. lrun (astep (\<lambda>t. if t = 0 then 3 else 5)) race_start ts s
     \<and> rpcs s 0 = AStored \<and> rpcs s 1 = AStored \<and> rmem s = 5"
proof -
  let ?len = "\<lambda>t :: nat. if t = 0 then 3 else 5 :: u64"
  let ?st = "\<lambda>a b v. \<lparr>rcells = [0 \<mapsto> 0], rmem = v, rpcs = (\<lambda>_. AStart)(0 := a, 1 := b)\<rparr>"
  let ?step = "astep ?len"
  have ctor: "trace_lock_ctor [0 \<mapsto> 0] (t + 1) 0 = Some (Inr [0 \<mapsto> 0])" for t
    by (rule ctor_zero) simp
  have 1: "?step race_start 0 (?st ALocked AStart 0)"
    using a_lock [of race_start 0 0 "[0 \<mapsto> 0]" ?len] ctor [of 0]
    by (simp add: race_start_def fun_upd_idem)
  have 2: "?step (?st ALocked AStart 0) 1 (?st ALocked ALocked 0)"
    using a_lock [of "?st ALocked AStart 0" 1 0 "[0 \<mapsto> 0]" ?len] ctor [of 1] by simp
  have 3: "?step (?st ALocked ALocked 0) 0 (?st (ALoaded 0) ALocked 0)"
    using a_load [of "?st ALocked ALocked 0" 0 ?len] by (simp add: fun_upd_twist)
  have 4: "?step (?st (ALoaded 0) ALocked 0) 1 (?st (ALoaded 0) (ALoaded 0) 0)"
    using a_load [of "?st (ALoaded 0) ALocked 0" 1 ?len] by simp
  have 5: "?step (?st (ALoaded 0) (ALoaded 0) 0) 0 (?st AStored (ALoaded 0) 3)"
    using a_store [of "?st (ALoaded 0) (ALoaded 0) 0" 0 0 ?len] by (simp add: fun_upd_twist)
  have 6: "?step (?st AStored (ALoaded 0) 3) 1 (?st AStored AStored 5)"
    using a_store [of "?st AStored (ALoaded 0) 3" 1 0 ?len] by simp
  have "lrun ?step race_start [0, 1, 0, 1, 0, 1] (?st AStored AStored 5)"
    by (rule lrun_Cons [of ?step, OF 1 lrun_Cons [of ?step, OF 2 lrun_Cons [of ?step, OF 3
          lrun_Cons [of ?step, OF 4 lrun_Cons [of ?step, OF 5 lrun_Cons [of ?step, OF 6]]]]]])
      (rule lrun.lrun_nil)
  then show ?thesis by (intro exI conjI) (assumption, simp_all)
qed

text \<open>
  The stack walk pushes the names of the frames up to the first step that reports the end,
  in order, and \<open>rr\<close> says whether one of them starts with \<open>os::malloc\<close>; an error result of
  \<open>unw_step\<close> (negative) does not end it.
\<close>

theorem trace_backtrace_frames:
  "trace_backtrace fs =
     (let visited = map frame_name (takeWhile (\<lambda>f. step_rc f \<noteq> 0) fs)
      in (visited, list_ex (strncmp_eq ''os::malloc'') visited))"
proof -
  have "trace_backtrace_loop fs stacks rr =
      (let visited = map frame_name (takeWhile (\<lambda>f. step_rc f \<noteq> 0) fs)
       in (stacks @ visited, rr \<or> list_ex (strncmp_eq ''os::malloc'') visited))" for stacks rr
    by (induction fs stacks rr rule: trace_backtrace_loop.induct) (auto simp: Let_def)
  then show ?thesis by (simp add: trace_backtrace_def Let_def)
qed

end
