(* ===== verification/Hook.thy ===== *)
theory Hook
  imports Mem_Checker
begin

text \<open>
  \<^verbatim>\<open>src/src/hook.cpp\<close>: the interposed \<open>malloc\<close> and \<open>free\<close> with their re-entrancy guard \<open>in_mem\<close>, on top of
  the ledger; and \<^verbatim>\<open>src/src/mm.cpp\<close>, the interposed \<open>mmap\<close> and \<open>munmap\<close>. The C library's allocator is
  a parameter: its state type, its two functions and the set of addresses live in a state. What the
  ledger allocates for itself goes through the same hooks, and a failure of \<open>operator new\<close> in it leaves
  \<open>malloc\<close> as an exception.
\<close>

section \<open>The C library's allocator\<close>

record 'h libc =
  libc_malloc :: "'h \<Rightarrow> u64 \<Rightarrow> ptr \<times> 'h"
  libc_free :: "ptr \<Rightarrow> 'h \<Rightarrow> 'h"
  libc_live :: "'h \<Rightarrow> ptr set"

text \<open>
  The documented behaviour: an allocation fails with \<open>NULL\<close> and changes nothing, or returns an
  address that was not live and now is; freeing \<open>NULL\<close> changes nothing, and freeing a live
  address ends its life and no other.
\<close>

definition libc_ok :: "'h libc \<Rightarrow> bool" where
  "libc_ok L \<longleftrightarrow>
     (\<forall>h n p h'. libc_malloc L h n = (p, h') \<longrightarrow>
        p = NULL \<and> libc_live L h' = libc_live L h
        \<or> p \<noteq> NULL \<and> p \<notin> libc_live L h \<and> libc_live L h' = insert p (libc_live L h))
   \<and> (\<forall>h. libc_live L (libc_free L NULL h) = libc_live L h)
   \<and> (\<forall>h p. p \<in> libc_live L h \<longrightarrow> libc_live L (libc_free L p h) = libc_live L h - {p})"

section \<open>The hooks\<close>

text \<open>\<open>nodes\<close> are the addresses of the nodes of \<open>map_\<close>, by key.\<close>

record 'h process =
  heap :: 'h
  ledger :: mem_checker
  nodes :: "ptr \<rightharpoonup> ptr"
  in_mem :: "nat \<Rightarrow> bool"

definition set_in_mem :: "nat \<Rightarrow> bool \<Rightarrow> 'h process \<Rightarrow> 'h process" where
  "set_in_mem t b s = s\<lparr>in_mem := (in_mem s)(t := b)\<rparr>"

text \<open>
  \<open>free\<close>: outside the hooks, \<open>mem_checker::del\<close> runs first, and erasing the map node frees the
  node's own memory through the interposed \<open>free\<close>. \<open>None\<close>: the C library was asked to free an
  address that is not live, which is undefined.
\<close>

definition call_libc_free :: "'h libc \<Rightarrow> ptr \<Rightarrow> 'h process \<Rightarrow> 'h process option" where
  "call_libc_free L p s =
     (if p = NULL \<or> p \<in> libc_live L (heap s) then Some (s\<lparr>heap := libc_free L p (heap s)\<rparr>)
      else None)"

definition erase_node :: "ptr \<Rightarrow> 'h process \<Rightarrow> 'h process" where
  "erase_node p s = s\<lparr>ledger := del p (ledger s), nodes := (nodes s)(p := None)\<rparr>"

function free_hook :: "'h libc \<Rightarrow> nat \<Rightarrow> ptr \<Rightarrow> 'h process \<Rightarrow> 'h process option" where
  "free_hook L t p s =
     (if in_mem s t \<or> p = NULL \<or> blocks (ledger s) p = None then call_libc_free L p s
      else case nodes s p of
        None \<Rightarrow> None
      | Some node \<Rightarrow>
          (case free_hook L t node (erase_node p s) of
             None \<Rightarrow> None
           | Some s' \<Rightarrow> call_libc_free L p s'))"
  by pat_completeness auto

lemma card_dom_del:
  "p \<noteq> NULL \<Longrightarrow> blocks l p \<noteq> None \<Longrightarrow> card (dom (blocks (del p l))) < card (dom (blocks l))"
  by (auto simp: del_def dom_def split: option.splits intro!: psubset_card_mono)

termination free_hook
  by (relation "measure (\<lambda>(L, t, p, s). card (dom (blocks (ledger s))))") (auto simp: card_dom_del erase_node_def)

declare free_hook.simps [simp del]

text \<open>
  \<open>mem_checker::add\<close> allocates while it runs, through the interposed functions. Its requests, in
  order: the node of the map; memory of C++ objects (the vector of names and its strings) through
  \<open>operator new\<close>, which throws \<open>bad_alloc\<close> when it gets \<open>NULL\<close>; calls of \<open>malloc\<close> whose \<open>NULL\<close> is
  tolerated (the demangler's result); and the release of one of the blocks it holds. The objects'
  blocks are freed at the end of \<open>add\<close>, also when an exception leaves it; the others are not. The
  memory of the exception itself is left out.
\<close>

datatype inner_req = Node u64 | New u64 | CAlloc u64 | Release nat

type_synonym held_blocks = "(ptr \<times> bool) list"

text \<open>How \<open>malloc\<close> ends: it returns an address, or the exception of \<open>add\<close> passes through it.\<close>

datatype malloc_out = Returned ptr | Threw

text \<open>The first branch of \<open>malloc\<close>.\<close>

definition plain_malloc :: "'h libc \<Rightarrow> u64 \<Rightarrow> 'h process \<Rightarrow> ptr \<times> 'h process" where
  "plain_malloc L sz s =
     (case libc_malloc L (heap s) sz of (p, h') \<Rightarrow> (p, s\<lparr>heap := h'\<rparr>))"

definition insert_node :: "ptr \<Rightarrow> u64 \<Rightarrow> ptr \<Rightarrow> 'h process \<Rightarrow> 'h process" where
  "insert_node p sz node s = s\<lparr>ledger := map_enter p sz (ledger s), nodes := (nodes s)(p \<mapsto> node)\<rparr>"

text \<open>The destructors at the end of \<open>add\<close>.\<close>

fun destroy :: "'h libc \<Rightarrow> nat \<Rightarrow> held_blocks \<Rightarrow> 'h process \<Rightarrow> 'h process option" where
  "destroy L t [] s = Some s"
| "destroy L t ((q, object) # own) s =
     (if object
      then case free_hook L t q s of None \<Rightarrow> None | Some s1 \<Rightarrow> destroy L t own s1
      else destroy L t own s)"

text \<open>
  \<open>malloc\<close>, \<open>trace_malloc\<close>, and \<open>add\<close> after its first statement: whether it went through (or threw),
  and the blocks it holds. The map's \<open>insert\<close> allocates the node first and frees it again when the
  key is present.
\<close>

function malloc_hook ::
    "'h libc \<Rightarrow> nat \<Rightarrow> u64 \<Rightarrow> inner_req list \<Rightarrow> 'h process \<Rightarrow> (malloc_out \<times> 'h process) option"
  and trace_malloc ::
    "'h libc \<Rightarrow> nat \<Rightarrow> u64 \<Rightarrow> inner_req list \<Rightarrow> 'h process \<Rightarrow> (malloc_out \<times> 'h process) option"
  and add_requests ::
    "'h libc \<Rightarrow> nat \<Rightarrow> ptr \<Rightarrow> u64 \<Rightarrow> inner_req list \<Rightarrow> held_blocks \<Rightarrow> 'h process
     \<Rightarrow> (bool \<times> held_blocks \<times> 'h process) option" where
  "malloc_hook L t sz reqs s =
     (if in_mem s t then (case plain_malloc L sz s of (p, s') \<Rightarrow> Some (Returned p, s'))
      else case trace_malloc L t sz reqs (set_in_mem t True s) of
             None \<Rightarrow> None
           | Some (Threw, s') \<Rightarrow> Some (Threw, s')
           | Some (Returned p, s') \<Rightarrow> Some (Returned p, set_in_mem t False s'))"
| "trace_malloc L t sz reqs s =
     (case plain_malloc L sz s of (p, s1) \<Rightarrow>
        (case add_requests L t p sz reqs [] (s1\<lparr>ledger := charge sz (ledger s1)\<rparr>) of
           None \<Rightarrow> None
         | Some (ok, own, s2) \<Rightarrow>
             (case destroy L t own s2 of
                None \<Rightarrow> None
              | Some s3 \<Rightarrow> Some (if ok then Returned p else Threw, s3))))"
| "add_requests L t p sz [] own s = Some (True, own, s)"
| "add_requests L t p sz (Release i # reqs) own s =
     (if i < length own
      then case free_hook L t (fst (own ! i)) s of
             None \<Rightarrow> None
           | Some s1 \<Rightarrow> add_requests L t p sz reqs (take i own @ drop (Suc i) own) s1
      else add_requests L t p sz reqs own s)"
| "add_requests L t p sz (CAlloc n # reqs) own s =
     (case malloc_hook L t n [] s of
        Some (Returned q, s1) \<Rightarrow>
          add_requests L t p sz reqs (if q = NULL then own else own @ [(q, False)]) s1
      | Some (Threw, s1) \<Rightarrow> Some (False, own, s1)
      | None \<Rightarrow> None)"
| "add_requests L t p sz (New n # reqs) own s =
     (case malloc_hook L t n [] s of
        Some (Returned q, s1) \<Rightarrow>
          if q = NULL then Some (False, own, s1)
          else add_requests L t p sz reqs (own @ [(q, True)]) s1
      | Some (Threw, s1) \<Rightarrow> Some (False, own, s1)
      | None \<Rightarrow> None)"
| "add_requests L t p sz (Node n # reqs) own s =
     (case malloc_hook L t n [] s of
        Some (Returned q, s1) \<Rightarrow>
          if q = NULL then Some (False, own, s1)
          else if blocks (ledger s1) p = None then add_requests L t p sz reqs own (insert_node p sz q s1)
          else (case free_hook L t q s1 of
                  None \<Rightarrow> None
                | Some s2 \<Rightarrow> add_requests L t p sz reqs own s2)
      | Some (Threw, s1) \<Rightarrow> Some (False, own, s1)
      | None \<Rightarrow> None)"
  by pat_completeness auto
termination
  by (relation "measure (\<lambda>x. case x of
        Inl (L, t, sz, reqs, s) \<Rightarrow> 3 * length reqs + 2
      | Inr (Inl (L, t, sz, reqs, s)) \<Rightarrow> 3 * length reqs + 1
      | Inr (Inr (L, t, p, sz, reqs, own, s)) \<Rightarrow> 3 * length reqs)") auto

declare malloc_hook.simps [simp del] trace_malloc.simps [simp del]

section \<open>Runs of a program over the hooks\<close>

text \<open>
  A request of a thread: the size, the size of a node of the map and the further requests of
  \<open>add\<close>; or an address to free.
\<close>

datatype request = Malloc nat u64 u64 "inner_req list" | Free nat ptr

text \<open>
  A sequence of requests of any threads, one after the other: two threads inside \<open>add\<close> at the same
  time race on the map, since the lock excludes nobody. A caller may catch the exception and go
  on. The results list the sizes of the tracked allocations that returned \<open>NULL\<close>, and the threads
  through whose \<open>malloc\<close> an exception passed.
\<close>

fun run_requests ::
    "'h libc \<Rightarrow> request list \<Rightarrow> 'h process \<Rightarrow> ('h process \<times> u64 list \<times> nat list) option" where
  "run_requests L [] s = Some (s, [], [])"
| "run_requests L (Malloc t sz n reqs # rs) s =
     (case malloc_hook L t sz (Node n # reqs) s of
        None \<Rightarrow> None
      | Some (Threw, s1) \<Rightarrow>
          (case run_requests L rs s1 of None \<Rightarrow> None | Some (s2, failed, thrown) \<Rightarrow> Some (s2, failed, t # thrown))
      | Some (Returned p, s1) \<Rightarrow>
          (case run_requests L rs s1 of
             None \<Rightarrow> None
           | Some (s2, failed, thrown) \<Rightarrow>
               Some (s2, if p = NULL \<and> \<not> in_mem s t then sz # failed else failed, thrown)))"
| "run_requests L (Free t p # rs) s =
     (case free_hook L t p s of
        None \<Rightarrow> None
      | Some s1 \<Rightarrow> run_requests L rs s1)"

definition process_start :: "'h \<Rightarrow> 'h process" where
  "process_start h = \<lparr>heap = h, ledger = mc_empty, nodes = Map.empty, in_mem = (\<lambda>_. False)\<rparr>"

text \<open>Every tracked block is live in the C library's heap.\<close>

definition tracked_live :: "'h libc \<Rightarrow> 'h process \<Rightarrow> bool" where
  "tracked_live L s \<longleftrightarrow> dom (blocks (ledger s)) - {NULL} \<subseteq> libc_live L (heap s)"

section \<open>Interposed mmap and munmap\<close>

text \<open>
  \<open>r_mmap\<close> and \<open>r_munmap\<close> are looked up together, at the first call that finds \<open>r_mmap\<close> unset;
  the dynamic linker's answer is the parameter \<open>next_sym\<close>, the addresses of the next
  definitions (\<open>NULL\<close> when there is none).
\<close>

record mm_state =
  r_mmap :: ptr
  r_munmap :: ptr

datatype mm_call = Calls ptr | Crash

definition init_map :: "(string \<Rightarrow> ptr) \<Rightarrow> mm_state \<Rightarrow> mm_state" where
  "init_map next_sym s = s\<lparr>r_mmap := next_sym ''mmap'', r_munmap := next_sym ''munmap''\<rparr>"

definition TRACE_INIT :: "(string \<Rightarrow> ptr) \<Rightarrow> mm_state \<Rightarrow> mm_state" where
  "TRACE_INIT next_sym s = (if r_mmap s = NULL then init_map next_sym s else s)"

definition call_through :: "ptr \<Rightarrow> mm_call" where
  "call_through f = (if f = NULL then Crash else Calls f)"

definition mmap_hook :: "(string \<Rightarrow> ptr) \<Rightarrow> mm_state \<Rightarrow> mm_call \<times> mm_state" where
  "mmap_hook next_sym s = (let s' = TRACE_INIT next_sym s in (call_through (r_mmap s'), s'))"

definition munmap_hook :: "(string \<Rightarrow> ptr) \<Rightarrow> mm_state \<Rightarrow> mm_call \<times> mm_state" where
  "munmap_hook next_sym s = (let s' = TRACE_INIT next_sym s in (call_through (r_munmap s'), s'))"

section \<open>Lemmas\<close>

lemma libc_malloc_cases:
  assumes "libc_ok L" and "libc_malloc L h n = (p, h')"
  obtains (fails) "p = NULL" "libc_live L h' = libc_live L h"
  | (fresh) "p \<noteq> NULL" "p \<notin> libc_live L h" "libc_live L h' = insert p (libc_live L h)"
  using assms unfolding libc_ok_def by meson

lemma libc_free_live:
  assumes "libc_ok L" and "p = NULL \<or> p \<in> libc_live L h"
  shows "libc_live L (libc_free L p h) = libc_live L h - {p}"
proof (cases "p \<in> libc_live L h")
  case True
  then show ?thesis using assms(1) unfolding libc_ok_def by blast
next
  case False
  with assms(2) have "p = NULL" by simp
  moreover have "libc_live L (libc_free L NULL h) = libc_live L h"
    using assms(1) unfolding libc_ok_def by blast
  ultimately show ?thesis using False by simp
qed

lemma call_libc_free_Some:
  assumes "libc_ok L" and "call_libc_free L p s = Some s'"
  shows "ledger s' = ledger s" and "in_mem s' = in_mem s"
    and "libc_live L (heap s') = libc_live L (heap s) - {p}"
proof -
  have v: "p = NULL \<or> p \<in> libc_live L (heap s)" and s': "s' = s\<lparr>heap := libc_free L p (heap s)\<rparr>"
    using assms(2) by (simp_all add: call_libc_free_def split: if_splits)
  show "ledger s' = ledger s" "in_mem s' = in_mem s"
    "libc_live L (heap s') = libc_live L (heap s) - {p}"
    by (simp_all add: s' libc_free_live [OF assms(1) v])
qed

lemma free_in_mem: "in_mem s t \<Longrightarrow> free_hook L t p s = call_libc_free L p s"
  by (simp add: free_hook.simps)

lemma malloc_in_mem:
  "in_mem s t \<Longrightarrow> libc_malloc L (heap s) n = (p, h) \<Longrightarrow> malloc_hook L t n reqs s = Some (Returned p, s\<lparr>heap := h\<rparr>)"
  by (simp add: malloc_hook.simps plain_malloc_def)

subsection \<open>Inside the guard\<close>

text \<open>
  The blocks that \<open>add\<close> holds are live, different from each other, and none of the blocks \<open>B\<close> that were
  live when it began, all of which still are.
\<close>

definition held_ok :: "'h libc \<Rightarrow> ptr set \<Rightarrow> held_blocks \<Rightarrow> 'h process \<Rightarrow> bool" where
  "held_ok L B own s \<longleftrightarrow> B \<subseteq> libc_live L (heap s) \<and> distinct (map fst own)
     \<and> fst ` set own \<subseteq> libc_live L (heap s) - B"

lemma held_ok_alloc:
  assumes "libc_ok L" and "held_ok L B own s" and "libc_malloc L (heap s) n = (q, h)"
  shows "held_ok L B own (s\<lparr>heap := h\<rparr>)" and "q \<noteq> NULL \<Longrightarrow> held_ok L B (own @ [(q, b)]) (s\<lparr>heap := h\<rparr>)"
    and "q = NULL \<or> q \<in> libc_live L h" and "q \<noteq> NULL \<Longrightarrow> q \<notin> B \<union> fst ` set own"
  by (rule libc_malloc_cases [OF assms(1,3)]; use assms(2) in \<open>auto simp: held_ok_def\<close>)+

lemma held_ok_free:
  assumes "libc_ok L" and "held_ok L B own s" and "q \<notin> B \<union> fst ` set own" and "q \<in> libc_live L (heap s)"
  shows "\<exists>s'. call_libc_free L q s = Some s' \<and> held_ok L B own s' \<and> ledger s' = ledger s
    \<and> nodes s' = nodes s \<and> in_mem s' = in_mem s"
  using assms(2-4) libc_free_live [OF assms(1), of q "heap s"]
  by (auto simp: call_libc_free_def held_ok_def)

lemma held_ok_remove:
  assumes "held_ok L B own s" and "i < length own"
  shows "held_ok L B (take i own @ drop (Suc i) own) s"
    and "fst (own ! i) \<notin> B \<union> fst ` set (take i own @ drop (Suc i) own)"
    and "fst (own ! i) \<in> libc_live L (heap s)"
proof -
  have own: "own = take i own @ own ! i # drop (Suc i) own" using assms(2) by (simp add: id_take_nth_drop)
  have d: "distinct (map fst (take i own @ own ! i # drop (Suc i) own))"
    and sub: "fst ` set (take i own @ own ! i # drop (Suc i) own) \<subseteq> libc_live L (heap s) - B"
    using assms(1) own by (simp_all add: held_ok_def)
  show "held_ok L B (take i own @ drop (Suc i) own) s" using assms(1) d sub by (auto simp: held_ok_def)
  show "fst (own ! i) \<notin> B \<union> fst ` set (take i own @ drop (Suc i) own)" using d sub by auto
  show "fst (own ! i) \<in> libc_live L (heap s)" using sub by auto
qed

lemma destroy_Some:
  assumes "libc_ok L" and "in_mem s t" and "held_ok L B own s"
  shows "\<exists>s'. destroy L t own s = Some s' \<and> B \<subseteq> libc_live L (heap s') \<and> ledger s' = ledger s
    \<and> nodes s' = nodes s \<and> in_mem s' = in_mem s"
  using assms(2,3)
proof (induction own arbitrary: s)
  case Nil
  then show ?case by (simp add: held_ok_def)
next
  case (Cons x own)
  obtain q object where x: "x = (q, object)" by fastforce
  have rest: "held_ok L B own s" "q \<notin> B \<union> fst ` set own" "q \<in> libc_live L (heap s)"
    using held_ok_remove [OF Cons.prems(2), of 0] x by simp_all
  show ?case
  proof (cases object)
    case True
    obtain s1 where "call_libc_free L q s = Some s1" "held_ok L B own s1" "ledger s1 = ledger s"
      "nodes s1 = nodes s" "in_mem s1 = in_mem s" using held_ok_free [OF assms(1) rest] by blast
    then show ?thesis using Cons.IH [of s1] Cons.prems(1) x True by (simp add: free_in_mem)
  next
    case False
    then show ?thesis using Cons.IH [OF Cons.prems(1) rest(1)] x by simp
  qed
qed

text \<open>The requests that throw when the C library refuses them.\<close>

fun throwing :: "inner_req \<Rightarrow> u64 option" where
  "throwing (Node n) = Some n"
| "throwing (New n) = Some n"
| "throwing _ = None"

definition refused :: "'h libc \<Rightarrow> inner_req list \<Rightarrow> bool" where
  "refused L reqs \<longleftrightarrow> (\<exists>r \<in> set reqs. \<exists>n h. throwing r = Some n \<and> fst (libc_malloc L h n) = NULL)"

definition entered :: "ptr \<Rightarrow> u64 \<Rightarrow> bool \<Rightarrow> 'h process \<Rightarrow> 'h process \<Rightarrow> bool" where
  "entered p n sure s s' \<longleftrightarrow> ledger s' = map_enter p n (ledger s) \<or> \<not> sure \<and> ledger s' = ledger s"

lemma map_enter_map_enter: "map_enter p n (map_enter p n l) = map_enter p n l"
  by (simp add: map_enter_def map_insert_def)

text \<open>
  The whole of \<open>add\<close> after its first statement: it is defined, keeps the guard and the blocks, enters
  at most the block \<open>p\<close>, surely if it reaches its end, and throws only when it was refused memory.
\<close>

definition add_done ::
    "'h libc \<Rightarrow> ptr set \<Rightarrow> ptr \<Rightarrow> u64 \<Rightarrow> inner_req list \<Rightarrow> 'h process
     \<Rightarrow> (bool \<times> held_blocks \<times> 'h process) option \<Rightarrow> bool" where
  "add_done L B p n reqs s res \<longleftrightarrow> (\<exists>ok own' s'. res = Some (ok, own', s') \<and> held_ok L B own' s'
     \<and> in_mem s' = in_mem s \<and> entered p n (ok \<and> (\<exists>k. Node k \<in> set reqs)) s s' \<and> (ok \<or> refused L reqs))"

lemma add_done_again:
  assumes "add_done L B p n reqs s1 res" and "in_mem s1 = in_mem s"
    and "ledger s1 = (if \<exists>k. r = Node k then map_enter p n (ledger s) else ledger s)"
  shows "add_done L B p n (r # reqs) s res"
proof -
  obtain ok own' s' where r: "res = Some (ok, own', s')" "held_ok L B own' s'" "in_mem s' = in_mem s1"
      "entered p n (ok \<and> (\<exists>k. Node k \<in> set reqs)) s1 s'" "ok \<or> refused L reqs"
    using assms(1) by (auto simp: add_done_def)
  have "entered p n (ok \<and> (\<exists>k. Node k \<in> set (r # reqs))) s s'"
    using r(4) assms(3) by (auto simp: entered_def map_enter_map_enter split: if_splits)
  moreover have "ok \<or> refused L (r # reqs)" using r(5) by (auto simp: refused_def)
  ultimately show ?thesis using r assms(2) by (auto simp: add_done_def)
qed

lemma add_done_stop:
  assumes "held_ok L B own s1" and "in_mem s1 = in_mem s" and "ledger s1 = ledger s"
    and "throwing r = Some m" and "fst (libc_malloc L h m) = NULL"
  shows "add_done L B p n (r # reqs) s (Some (False, own, s1))"
  using assms by (auto simp: add_done_def entered_def refused_def)

lemma add_requests_Some:
  assumes "libc_ok L" and "in_mem s t" and "held_ok L B own s"
  shows "add_done L B p n reqs s (add_requests L t p n reqs own s)"
  using assms(2,3)
proof (induction reqs arbitrary: own s)
  case Nil
  then show ?case by (auto simp: add_done_def entered_def)
next
  case (Cons r reqs)
  have again: "add_done L B p n (r # reqs) s (add_requests L t p n reqs own1 s1)"
    if "held_ok L B own1 s1" and "in_mem s1 = in_mem s"
      and "ledger s1 = (if \<exists>k. r = Node k then map_enter p n (ledger s) else ledger s)" for own1 s1
    using add_done_again [OF Cons.IH [OF _ that(1)] that(2,3)] that(2) Cons.prems(1) by simp
  note stop = add_done_stop [of L B own _ s r]
  show ?case
  proof (cases r)
    case (Release i)
    show ?thesis
    proof (cases "i < length own")
      case True
      note rem = held_ok_remove [OF Cons.prems(2) True]
      obtain s1 where "call_libc_free L (fst (own ! i)) s = Some s1"
          "held_ok L B (take i own @ drop (Suc i) own) s1" "ledger s1 = ledger s" "in_mem s1 = in_mem s"
        using held_ok_free [OF assms(1) rem] by blast
      then show ?thesis using again [of "take i own @ drop (Suc i) own" s1] Release True Cons.prems(1)
        by (simp add: free_in_mem)
    next
      case False
      then show ?thesis using again [of own s] Release Cons.prems by simp
    qed
  next
    case (CAlloc m)
    obtain q h where q: "libc_malloc L (heap s) m = (q, h)" by fastforce
    note a = held_ok_alloc [OF assms(1) Cons.prems(2) q]
    show ?thesis
      using again [of "if q = NULL then own else own @ [(q, False)]" "s\<lparr>heap := h\<rparr>"] a(1,2) CAlloc
        malloc_in_mem [OF Cons.prems(1) q] by simp
  next
    case (New m)
    obtain q h where q: "libc_malloc L (heap s) m = (q, h)" by fastforce
    note a = held_ok_alloc [OF assms(1) Cons.prems(2) q]
    show ?thesis
    proof (cases "q = NULL")
      case True
      then show ?thesis using stop [of "s\<lparr>heap := h\<rparr>" m "heap s"] a(1) New q malloc_in_mem [OF Cons.prems(1) q] by simp
    next
      case False
      then show ?thesis using again [of "own @ [(q, True)]" "s\<lparr>heap := h\<rparr>"] a(2) New
          malloc_in_mem [OF Cons.prems(1) q] by simp
    qed
  next
    case (Node m)
    obtain q h where q: "libc_malloc L (heap s) m = (q, h)" by fastforce
    note a = held_ok_alloc [OF assms(1) Cons.prems(2) q] and mq = malloc_in_mem [OF Cons.prems(1) q]
    consider "q = NULL" | "q \<noteq> NULL" "blocks (ledger s) p = None" | "q \<noteq> NULL" "blocks (ledger s) p \<noteq> None" by blast
    then show ?thesis
    proof cases
      case 1
      then show ?thesis using stop [of "s\<lparr>heap := h\<rparr>" m "heap s"] a(1) Node q mq by simp
    next
      case 2
      have "held_ok L B own (insert_node p n q (s\<lparr>heap := h\<rparr>))" using a(1) by (simp add: held_ok_def insert_node_def)
      then show ?thesis using again [of own "insert_node p n q (s\<lparr>heap := h\<rparr>)"] 2 Node mq
        by (simp add: insert_node_def)
    next
      case 3
      obtain s1 where "call_libc_free L q (s\<lparr>heap := h\<rparr>) = Some s1" "held_ok L B own s1"
          "ledger s1 = ledger s" "in_mem s1 = in_mem s"
        using held_ok_free [OF assms(1) a(1)] a(3,4) 3(1) by (auto simp: process.simps)
      then show ?thesis using again [of own s1] 3 Node mq Cons.prems(1)
        by (auto simp: free_in_mem map_enter_again)
    qed
  qed
qed

subsection \<open>The hooks\<close>

lemma malloc_hook_Some:
  assumes "libc_ok L" and "\<not> in_mem s t" and "libc_malloc L (heap s) n = (p, h1)"
  shows "\<exists>out s'. malloc_hook L t n reqs s = Some (out, s') \<and> libc_live L h1 \<subseteq> libc_live L (heap s')
    \<and> (case out of
         Returned q \<Rightarrow> q = p \<and> in_mem s' = in_mem s \<and> ((\<exists>k. Node k \<in> set reqs) \<longrightarrow> ledger s' = add p n (ledger s))
       | Threw \<Rightarrow> refused L reqs \<and> in_mem s' = (in_mem s)(t := True)
           \<and> (ledger s' = charge n (ledger s) \<or> ledger s' = add p n (ledger s)))"
proof -
  let ?s0 = "(set_in_mem t True s)\<lparr>heap := h1\<rparr>"
  let ?s1 = "?s0\<lparr>ledger := charge n (ledger ?s0)\<rparr>"
  have g: "in_mem ?s1 t" and hb: "held_ok L (libc_live L h1) [] ?s1" by (simp_all add: set_in_mem_def held_ok_def)
  obtain ok own s2 where s2: "add_requests L t p n reqs [] ?s1 = Some (ok, own, s2)"
      "held_ok L (libc_live L h1) own s2" "in_mem s2 = in_mem ?s1"
      "entered p n (ok \<and> (\<exists>k. Node k \<in> set reqs)) ?s1 s2" "ok \<or> refused L reqs"
    using add_requests_Some [OF assms(1) g hb] unfolding add_done_def by blast
  obtain s3 where s3: "destroy L t own s2 = Some s3" "libc_live L h1 \<subseteq> libc_live L (heap s3)"
      "ledger s3 = ledger s2" "in_mem s3 = in_mem s2"
    using destroy_Some [OF assms(1) _ s2(2), of t] g s2(3) by auto
  have res: "malloc_hook L t n reqs s =
      Some (if ok then (Returned p, set_in_mem t False s3) else (Threw, s3))"
    using assms(2,3) s2(1) s3(1)
    by (simp add: malloc_hook.simps trace_malloc.simps plain_malloc_def set_in_mem_def)
  have idem: "(in_mem s)(t := False) = in_mem s" using assms(2) by (simp add: fun_upd_idem)
  have led: "ledger s3 = add p n (ledger s) \<or> \<not> (ok \<and> (\<exists>k. Node k \<in> set reqs)) \<and> ledger s3 = charge n (ledger s)"
    using s2(4) s3(3) by (simp add: entered_def add_split set_in_mem_def)
  show ?thesis
  proof (cases ok)
    case True
    then show ?thesis using res s2(3) s3 led idem
      by (intro exI [of _ "Returned p"] exI [of _ "set_in_mem t False s3"]) (auto simp: set_in_mem_def)
  next
    case False
    then show ?thesis using res s2(3,5) s3 led
      by (intro exI [of _ Threw] exI [of _ s3]) (auto simp: set_in_mem_def)
  qed
qed

lemma blocks_del: "blocks (del p l) = (if p = NULL then blocks l else (blocks l)(p := None))"
  by (auto simp: del_def fun_eq_iff split: option.splits)

text \<open>\<open>free\<close> keeps the guard and the drift; outside the guard it also forgets the block before it dies.\<close>

lemma free_hook_guard:
  "free_hook L t p s = Some s' \<Longrightarrow> in_mem s' = in_mem s \<and> mc.drift (ledger s') = mc.drift (ledger s)"
proof (induction L t p s arbitrary: s' rule: free_hook.induct)
  case (1 L t p s)
  show ?case
  proof (cases "in_mem s t \<or> p = NULL \<or> blocks (ledger s) p = None")
    case True
    then show ?thesis using "1.prems" by (auto simp: free_hook.simps [of L t p s] call_libc_free_def split: if_splits)
  next
    case False
    then obtain node s1 where n: "nodes s p = Some node" "free_hook L t node (erase_node p s) = Some s1"
      "call_libc_free L p s1 = Some s'"
      using "1.prems" by (auto simp: free_hook.simps [of L t p s] split: option.splits)
    then show ?thesis using "1.IH" [OF False n(1,2)]
      by (auto simp: call_libc_free_def erase_node_def mc.drift_remove split: if_splits)
  qed
qed

lemma free_hook_keeps:
  assumes "free_hook L t p s = Some s'" and "libc_ok L" and "\<not> in_mem s t" and "tracked_live L s"
  shows "tracked_live L s' \<and> dom (blocks (ledger s')) - {NULL} \<subseteq> dom (blocks (ledger s)) - {NULL, p}"
  using assms
proof (induction L t p s arbitrary: s' rule: free_hook.induct)
  case (1 L t p s)
  show ?case
  proof (cases "p = NULL \<or> blocks (ledger s) p = None")
    case True
    then have last: "call_libc_free L p s = Some s'" using "1.prems"(1,3) by (auto simp: free_hook.simps [of L t p s])
    note fin = call_libc_free_Some [OF "1.prems"(2) last]
    show ?thesis using "1.prems"(4) True unfolding tracked_live_def fin by auto
  next
    case False
    then have c: "\<not> (in_mem s t \<or> p = NULL \<or> blocks (ledger s) p = None)" using "1.prems"(3) by simp
    then obtain node s1 where n: "nodes s p = Some node" "free_hook L t node (erase_node p s) = Some s1"
      "call_libc_free L p s1 = Some s'"
      using "1.prems"(1) by (auto simp: free_hook.simps [of L t p s] split: option.splits)
    have dom0: "dom (blocks (ledger (erase_node p s))) - {NULL} = dom (blocks (ledger s)) - {NULL, p}"
      by (auto simp: blocks_del erase_node_def)
    have live0: "tracked_live L (erase_node p s)"
      using "1.prems"(4) dom0 by (auto simp: tracked_live_def erase_node_def)
    have "tracked_live L s1
        \<and> dom (blocks (ledger s1)) - {NULL} \<subseteq> dom (blocks (ledger (erase_node p s))) - {NULL, node}"
      by (rule "1.IH" [OF c n(1,2) "1.prems"(2) _ live0]) (use "1.prems"(3) in \<open>simp add: erase_node_def\<close>)
    then have IH: "tracked_live L s1" "dom (blocks (ledger s1)) - {NULL} \<subseteq> dom (blocks (ledger s)) - {NULL, p}"
      using dom0 by blast+
    note fin = call_libc_free_Some [OF "1.prems"(2) n(3)]
    show ?thesis using IH unfolding tracked_live_def fin by blast
  qed
qed

lemma malloc_hook_keeps:
  assumes "malloc_hook L t n (Node k # reqs) s = Some (Returned p, s')" and "libc_ok L" and "\<not> in_mem s t"
    and "tracked_live L s"
  shows "tracked_live L s' \<and> mc.drift (ledger s') = mc.drift (ledger s) + (if p = NULL then n else 0)"
proof -
  obtain q h1 where q: "libc_malloc L (heap s) n = (q, h1)" by (cases "libc_malloc L (heap s) n")
  have res: "q = p" "ledger s' = add p n (ledger s)" "libc_live L h1 \<subseteq> libc_live L (heap s')"
    using malloc_hook_Some [OF assms(2,3) q, of "Node k # reqs"] assms(1) by auto
  note q = q [unfolded res(1)]
  have dom: "dom (blocks (ledger s')) \<subseteq> insert p (dom (blocks (ledger s)))"
    by (auto simp: res(2) add_def map_insert_def split: if_splits)
  from assms(2) q show ?thesis
  proof (cases rule: libc_malloc_cases)
    case fails
    then have "tracked_live L s'" using assms(4) res(3) dom unfolding tracked_live_def by blast
    then show ?thesis using fails res(2) by (simp add: mc.drift_enter_null)
  next
    case fresh
    then have "blocks (ledger s) p = None" using assms(4) by (auto simp: tracked_live_def)
    then have "mc.drift (ledger s') = mc.drift (ledger s)"
      using fresh(1) by (simp add: res(2) mc.drift_enter_fresh)
    moreover have "tracked_live L s'"
      using assms(4) fresh dom res(3) unfolding tracked_live_def by blast
    ultimately show ?thesis using fresh(1) by simp
  qed
qed

subsection \<open>Runs\<close>

lemma malloc_hook_guard:
  assumes "libc_ok L" and "malloc_hook L t n reqs s = Some (out, s')"
  shows "in_mem s' = (if out = Threw then (in_mem s)(t := True) else in_mem s)"
proof (cases "in_mem s t")
  case True
  then show ?thesis using assms(2) by (auto simp: malloc_hook.simps plain_malloc_def split: prod.splits)
next
  case False
  obtain p h1 where "libc_malloc L (heap s) n = (p, h1)" by fastforce
  from malloc_hook_Some [OF assms(1) False this, of reqs] assms(2) show ?thesis by (cases out) auto
qed

lemma run_requests_guard:
  assumes "libc_ok L" and "run_requests L rs s = Some (s', failed, thrown)"
  shows "in_mem s' u \<longleftrightarrow> in_mem s u \<or> u \<in> set thrown"
  using assms(2)
proof (induction rs arbitrary: s failed thrown)
  case (Cons r rs)
  show ?case
  proof (cases r)
    case (Malloc t n k reqs)
    then obtain out s1 where m: "malloc_hook L t n (Node k # reqs) s = Some (out, s1)"
      using Cons.prems by (auto split: option.splits)
    note g = malloc_hook_guard [OF assms(1) m]
    show ?thesis
      using Cons.prems Malloc m g Cons.IH [of s1] by (cases out) (auto split: option.splits)
  next
    case (Free t p)
    then obtain s1 where "free_hook L t p s = Some s1" "run_requests L rs s1 = Some (s', failed, thrown)"
      using Cons.prems by (auto split: option.splits)
    then show ?thesis using Cons.IH [of s1] free_hook_guard [of L t p s s1] by simp
  qed
qed simp

lemma run_requests_keeps:
  assumes "libc_ok L" and "run_requests L rs s = Some (s', failed, [])"
    and "in_mem s = (\<lambda>_. False)" and "tracked_live L s"
  shows "tracked_live L s' \<and> mc.drift (ledger s') = mc.drift (ledger s) + sum_list failed"
  using assms(2-4)
proof (induction rs arbitrary: s s' failed)
  case Nil
  then show ?case by simp
next
  case (Cons r rs)
  show ?case
  proof (cases r)
    case (Malloc t n k reqs)
    then obtain p s1 failed1 where m: "malloc_hook L t n (Node k # reqs) s = Some (Returned p, s1)"
      and rest: "run_requests L rs s1 = Some (s', failed1, [])"
      and failed: "failed = (if p = NULL then n # failed1 else failed1)"
      using Cons.prems(1,2) by (auto split: option.splits malloc_out.splits)
    have i: "in_mem s1 = (\<lambda>_. False)" using malloc_hook_guard [OF assms(1) m] Cons.prems(2) by simp
    have k: "tracked_live L s1" "mc.drift (ledger s1) = mc.drift (ledger s) + (if p = NULL then n else 0)"
      using malloc_hook_keeps [OF m assms(1)] Cons.prems(2,3) by simp_all
    from Cons.IH [OF rest i k(1)] show ?thesis by (simp add: k(2) failed)
  next
    case (Free t p)
    then obtain s1 where f: "free_hook L t p s = Some s1" and rest: "run_requests L rs s1 = Some (s', failed, [])"
      using Cons.prems(1) by (auto split: option.splits)
    have i: "in_mem s1 = (\<lambda>_. False)" "mc.drift (ledger s1) = mc.drift (ledger s)"
      using free_hook_guard [OF f] Cons.prems(2) by simp_all
    have "tracked_live L s1" using free_hook_keeps [OF f assms(1)] Cons.prems(2,3) by simp
    from Cons.IH [OF rest i(1) this] show ?thesis by (simp add: i(2))
  qed
qed

section \<open>A concrete allocator\<close>

text \<open>
  A bump allocator with the set of live addresses: it hands out the successor of the highest
  address used so far in steps of 16 and fails beyond its limit.
\<close>

definition bump_malloc :: "nat \<times> ptr set \<Rightarrow> u64 \<Rightarrow> ptr \<times> (nat \<times> ptr set)" where
  "bump_malloc h n =
     (let p = word_of_nat (16 * Suc (fst h)) :: ptr
      in if fst h < 1000 \<and> p \<notin> snd h then (p, (Suc (fst h), insert p (snd h))) else (NULL, h))"

definition bump_libc :: "(nat \<times> ptr set) libc" where
  "bump_libc = \<lparr>libc_malloc = bump_malloc, libc_free = (\<lambda>p h. (fst h, snd h - {p})),
     libc_live = (\<lambda>h. snd h - {NULL})\<rparr>"

lemma bump_nonnull: "k < 1000 \<Longrightarrow> (word_of_nat (16 * Suc k) :: ptr) \<noteq> NULL"
proof -
  assume "k < 1000"
  then have "unat (word_of_nat (16 * Suc k) :: ptr) = 16 * Suc k"
    by (simp only: unat_of_nat take_bit_eq_mod) simp
  then show ?thesis by (metis Zero_not_Suc mult_is_0 unat_0 zero_neq_numeral)
qed

lemma bump_libc_ok: "libc_ok bump_libc"
  unfolding libc_ok_def bump_libc_def
  using bump_nonnull by (auto simp: bump_malloc_def Let_def split: if_splits)

section \<open>Properties\<close>

text \<open>
  C2. The accounting of the hooks, end to end. Over any C library with the documented behaviour, after
  any sequence of allocations and frees by any threads, one after the other, that frees only live
  addresses: the threads inside the guard are exactly those through whose \<open>malloc\<close> an exception
  passed; and if there was none, every tracked block is live, and the total printed by the
  checker is the sum of the tracked blocks plus the bytes of every allocation that failed.
\<close>

theorem hook_accounting:
  assumes "libc_ok L" and "run_requests L rs (process_start h) = Some (s, failed, thrown)"
  shows "(\<forall>t. in_mem s t \<longleftrightarrow> t \<in> set thrown)
    \<and> (thrown = [] \<longrightarrow> dom (blocks (ledger s)) - {NULL} \<subseteq> libc_live L (heap s)
         \<and> mem (ledger s) = outstanding_of (tracked (ledger s)) + sum_list failed)"
proof (intro conjI impI)
  have start: "in_mem (process_start h) = (\<lambda>_. False)" "tracked_live L (process_start h)"
    "ledger (process_start h) = mc_empty"
    by (simp_all add: process_start_def tracked_live_def mc_empty_def)
  show "\<forall>t. in_mem s t \<longleftrightarrow> t \<in> set thrown" using run_requests_guard [OF assms] start(1) by simp
  assume "thrown = []"
  with run_requests_keeps [OF assms(1), of rs "process_start h" s failed] assms(2) start
  have k: "tracked_live L s" "mc.drift (ledger s) = sum_list failed" by (simp_all add: mc.drift_none)
  show "dom (blocks (ledger s)) - {NULL} \<subseteq> libc_live L (heap s)" using k(1) by (simp add: tracked_live_def)
  show "mem (ledger s) = outstanding_of (tracked (ledger s)) + sum_list failed"
    using k(2) by (simp add: mc.drift_def algebra_simps)
qed

theorem hook_accounting_witness:
  "\<exists>s. run_requests bump_libc [Malloc 0 100 48 [New 24, CAlloc 8, Release 1], Malloc 1 20 48 [], Free 1 16]
        (process_start (0, {})) = Some (s, [], [])
     \<and> mem (ledger s) = 20 \<and> blocks (ledger s) 80 = Some 20 \<and> \<not> in_mem s 0
     \<and> mem (ledger s) = outstanding_of (tracked (ledger s)) + sum_list []"
proof -
  let ?s = "\<lparr>heap = (6, {80, 96}), ledger = \<lparr>mem = 20, blocks = [80 \<mapsto> 20]\<rparr>, nodes = [80 \<mapsto> 96],
      in_mem = (\<lambda>_. False)\<rparr> :: (nat \<times> ptr set) process"
  have run: "run_requests bump_libc [Malloc 0 100 48 [New 24, CAlloc 8, Release 1], Malloc 1 20 48 [], Free 1 16]
      (process_start (0, {})) = Some (?s, [], [])"
    by (auto simp: process_start_def mc_empty_def malloc_hook.simps trace_malloc.simps
        free_hook.simps plain_malloc_def bump_libc_def bump_malloc_def set_in_mem_def insert_node_def erase_node_def
        call_libc_free_def charge_def map_enter_def del_def map_insert_def fun_eq_iff)
  have "mem (ledger ?s) = outstanding_of (tracked (ledger ?s)) + sum_list []" "\<not> in_mem ?s 0"
    using hook_accounting [OF bump_libc_ok run] by simp_all
  then show ?thesis by (intro exI [of _ ?s] conjI run) simp_all
qed



text \<open>
  The first interposed \<open>mmap\<close> or \<open>munmap\<close> resolves both functions; every later call goes to
  the functions resolved then, whatever the linker would answer by that time.
\<close>

lemma mm_resolves_once:
  assumes "next_sym ''mmap'' \<noteq> NULL" and "next_sym ''munmap'' \<noteq> NULL"
    and "r_mmap s = NULL"
  shows "mmap_hook later (snd (munmap_hook next_sym s)) =
      (Calls (next_sym ''mmap''), \<lparr>r_mmap = next_sym ''mmap'', r_munmap = next_sym ''munmap''\<rparr>)
    \<and> munmap_hook later (snd (mmap_hook next_sym s)) =
      (Calls (next_sym ''munmap''), \<lparr>r_mmap = next_sym ''mmap'', r_munmap = next_sym ''munmap''\<rparr>)"
  using assms
  by (simp add: mmap_hook_def munmap_hook_def TRACE_INIT_def init_map_def call_through_def Let_def)

theorem mm_resolves_once_witness:
  "mmap_hook (\<lambda>_. NULL) (snd (munmap_hook (\<lambda>n. if n = ''mmap'' then 5 else 6) \<lparr>r_mmap = NULL, r_munmap = NULL\<rparr>))
   = (Calls 5, \<lparr>r_mmap = 5, r_munmap = 6\<rparr>)"
  using mm_resolves_once [of "\<lambda>n. if n = ''mmap'' then 5 else 6" "\<lparr>r_mmap = NULL, r_munmap = NULL\<rparr>" "\<lambda>_. NULL"]
  by simp

end
