(* ===== verification/Perfdata.thy ===== *)
theory Perfdata
  imports Jvm_Base
begin

text \<open>
  \<^verbatim>\<open>src/src/hsperfdata_parser.h\<close>: the parser of the JVM's performance data files. The file is a byte
  list; a read outside the buffer, which the code does not check for, is the result
  \<open>OutOfBounds\<close>, and an \<open>int\<close> sum that leaves its range is \<open>IntOverflow\<close>. What the parser prints
  is a list of output items. The last section defines the writer side of the format, which the
  JVM implements, to state what the parser must recover.
\<close>

section \<open>The packed structs\<close>

record perfdata_header =
  magic :: nat
  byte_order :: nat
  major :: nat
  minor :: nat

record buffer_prologue =
  accessible :: nat
  used :: int
  overflow :: int
  modify_time :: int
  entry_offset :: int
  num_entries :: int

record entry_header =
  entry_length :: int
  name_offset :: int
  vector_length :: int
  data_type :: nat
  flags :: nat
  data_units :: nat
  data_var :: nat
  data_offset :: int

text \<open>A field of \<open>n\<close> bytes at offset \<open>i\<close> of a struct.\<close>

definition field :: "nat \<Rightarrow> nat \<Rightarrow> byte list \<Rightarrow> byte list" where
  "field i n bs = take n (drop i bs)"

definition decode_header :: "byte list \<Rightarrow> perfdata_header" where
  "decode_header bs =
     \<lparr>magic = le_nat (field 0 4 bs), byte_order = le_nat (field 4 1 bs),
      major = le_nat (field 5 1 bs), minor = le_nat (field 6 1 bs)\<rparr>"

definition decode_prologue :: "byte list \<Rightarrow> buffer_prologue" where
  "decode_prologue bs =
     \<lparr>accessible = le_nat (field 0 1 bs), used = le_int (field 1 4 bs),
      overflow = le_int (field 5 4 bs), modify_time = le_int (field 9 8 bs),
      entry_offset = le_int (field 17 4 bs), num_entries = le_int (field 21 4 bs)\<rparr>"

definition decode_entry :: "byte list \<Rightarrow> entry_header" where
  "decode_entry bs =
     \<lparr>entry_length = le_int (field 0 4 bs), name_offset = le_int (field 4 4 bs),
      vector_length = le_int (field 8 4 bs), data_type = le_nat (field 12 1 bs),
      flags = le_nat (field 13 1 bs), data_units = le_nat (field 14 1 bs),
      data_var = le_nat (field 15 1 bs), data_offset = le_int (field 16 4 bs)\<rparr>"

section \<open>Results\<close>

datatype perf_out = OutName "byte list" | OutInt int | OutStr "byte list"

datatype perf_end =
    Done
  | OpenFailed
  | BadArrayLength
  | IllegalMagic nat
  | UnsupportedVersion nat nat
  | BigEndian
  | UnexpectedType nat
  | UnexpectedVector nat nat nat
  | LengthError
  | OutOfBounds
  | IntOverflow

text \<open>How a call of \<open>parse\<close> ended, what it printed, and whether it reached \<open>delete []buf\<close>.\<close>

record perf_result =
  printed :: "perf_out list"
  ending :: perf_end
  deleted :: bool

section \<open>The parser\<close>

text \<open>\<open>memcpy\<close> of \<open>n\<close> bytes from \<open>buf + pos\<close>.\<close>

definition read_at :: "byte list \<Rightarrow> int \<Rightarrow> int \<Rightarrow> byte list option" where
  "read_at buf pos n =
     (if 0 \<le> pos \<and> 0 \<le> n \<and> pos + n \<le> int (length buf)
      then Some (take (nat n) (drop (nat pos) buf)) else None)"

text \<open>The sum of two \<open>int\<close> values.\<close>

definition int_add :: "int \<Rightarrow> int \<Rightarrow> int option" where
  "int_add a b = (if - (2 ^ 31) \<le> a + b \<and> a + b < 2 ^ 31 then Some (a + b) else None)"

text \<open>\<open>std::string::find\<close>: the position of the first occurrence.\<close>

fun find_sub :: "byte list \<Rightarrow> byte list \<Rightarrow> nat \<Rightarrow> nat option" where
  "find_sub pat [] i = (if pat = [] then Some i else None)"
| "find_sub pat (b # bs) i =
     (if take (length pat) (b # bs) = pat then Some i else find_sub pat bs (Suc i))"

definition generation_key :: "byte list" where
  "generation_key = str_bytes ''sun.gc.generation''"

definition is_generation :: "byte list \<Rightarrow> bool" where
  "is_generation name = (case find_sub generation_key name 0 of None \<Rightarrow> False | Some pos \<Rightarrow> True)"

text \<open>The loop that counts the bytes of the name up to a NUL or the end of the buffer.\<close>

function name_len :: "byte list \<Rightarrow> nat \<Rightarrow> nat \<Rightarrow> nat" where
  "name_len buf n nlen =
     (if n < length buf then if buf ! n = 0 then nlen else name_len buf (Suc n) (Suc nlen)
      else nlen)"
  by pat_completeness auto
termination
  by (relation "measure (\<lambda>(buf, n, nlen). length buf - n)") auto

declare name_len.simps [simp del]

text \<open>
  The entry's name. A start beyond the end gives the empty name without a read; a negative
  start reads before the buffer.
\<close>

definition entry_name :: "byte list \<Rightarrow> int \<Rightarrow> byte list option" where
  "entry_name buf nameStart =
     (if int (length buf) \<le> nameStart then Some []
      else if nameStart < 0 then None
      else Some (take (name_len buf (nat nameStart) 0) (drop (nat nameStart) buf)))"

text \<open>The value of an entry: what is printed for it, or why \<open>parse\<close> returns.\<close>

definition parse_value :: "byte list \<Rightarrow> entry_header \<Rightarrow> int \<Rightarrow> perf_end + perf_out" where
  "parse_value buf entry dataStart =
     (if vector_length entry = 0
      then if data_type entry \<noteq> 74 then Inl (UnexpectedType (data_type entry))
           else (case read_at buf dataStart 8 of
                   None \<Rightarrow> Inl OutOfBounds
                 | Some bs \<Rightarrow> Inr (OutInt (le_int bs)))
      else if data_type entry \<noteq> 66 \<or> data_units entry \<noteq> 5
              \<or> data_var entry \<noteq> 1 \<and> data_var entry \<noteq> 3
           then Inl (UnexpectedVector (data_type entry) (data_units entry) (data_var entry))
           else if vector_length entry < 0 then Inl LengthError
           else (case read_at buf dataStart (vector_length entry) of
                   None \<Rightarrow> Inl OutOfBounds
                 | Some bs \<Rightarrow> Inr (OutStr (c_str bs))))"

text \<open>One round of the loop: what it prints, and the next position or the end.\<close>

definition parse_entry :: "byte list \<Rightarrow> int \<Rightarrow> perf_out list \<times> (perf_end + int)" where
  "parse_entry buf pos =
     (case read_at buf pos 20 of
        None \<Rightarrow> ([], Inl OutOfBounds)
      | Some bs \<Rightarrow>
          (let entry = decode_entry bs in
           case int_add pos (name_offset entry) of
             None \<Rightarrow> ([], Inl IntOverflow)
           | Some nameStart \<Rightarrow>
               (case entry_name buf nameStart of
                  None \<Rightarrow> ([], Inl OutOfBounds)
                | Some name \<Rightarrow>
                    (let gen = is_generation name;
                         outs = (if gen then [OutName name] else []) in
                     case int_add pos (data_offset entry) of
                       None \<Rightarrow> (outs, Inl IntOverflow)
                     | Some dataStart \<Rightarrow>
                         (case parse_value buf entry dataStart of
                            Inl e \<Rightarrow> (outs, Inl e)
                          | Inr v \<Rightarrow>
                              (outs @ (if gen then [v] else []),
                               case int_add pos (entry_length entry) of
                                 None \<Rightarrow> Inl IntOverflow
                               | Some pos' \<Rightarrow> Inr pos'))))))"

fun parse_entries :: "nat \<Rightarrow> byte list \<Rightarrow> int \<Rightarrow> perf_out list \<times> perf_end" where
  "parse_entries 0 buf pos = ([], Done)"
| "parse_entries (Suc k) buf pos =
     (case parse_entry buf pos of
        (outs, Inl e) \<Rightarrow> (outs, e)
      | (outs, Inr pos') \<Rightarrow>
          (case parse_entries k buf pos' of (outs', e) \<Rightarrow> (outs @ outs', e)))"

definition stop_with :: "perf_end \<Rightarrow> perf_result" where
  "stop_with e = \<lparr>printed = [], ending = e, deleted = False\<rparr>"

text \<open>
  \<open>parse\<close> of a file's contents (\<open>None\<close>: \<open>fopen\<close> failed). \<open>int len = ftell(fl)\<close> narrows the size;
  an allocation of a negative length throws.
\<close>

definition parse :: "byte list option \<Rightarrow> perf_result" where
  "parse file =
     (case file of
        None \<Rightarrow> stop_with OpenFailed
      | Some contents \<Rightarrow>
          (let len = sint (word_of_nat (length contents) :: 32 word) in
           if len < 0 then stop_with BadArrayLength
           else
             (let buf = take (nat len) contents in
              case read_at buf 0 7 of
                None \<Rightarrow> stop_with OutOfBounds
              | Some hbytes \<Rightarrow>
                  (let header = decode_header hbytes in
                   if magic header \<noteq> 0xc0c0feca then stop_with (IllegalMagic (magic header))
                   else if \<not> (major header = 2 \<and> minor header = 0)
                   then stop_with (UnsupportedVersion (major header) (minor header))
                   else if byte_order header \<noteq> 1 then stop_with BigEndian
                   else
                     (case read_at buf 7 25 of
                        None \<Rightarrow> stop_with OutOfBounds
                      | Some pbytes \<Rightarrow>
                          (let prologue = decode_prologue pbytes;
                               (outs, e) = parse_entries (nat (num_entries prologue)) buf
                                             (entry_offset prologue)
                           in \<lparr>printed = outs, ending = e, deleted = (e = Done)\<rparr>))))))"

section \<open>The writer's side of the format\<close>

datatype perf_value = Long int | Text "byte list" nat

text \<open>
  An entry with its name, its value, the attributes the parser must not depend on (flags, and for a
  number its unit and its variability), and the bytes before the name, after the name and after
  the data. A text has the unit 5 and one of two variabilities.
\<close>

record perf_entry =
  pe_lead :: "byte list"
  pe_name :: "byte list"
  pe_value :: perf_value
  pe_flags :: byte
  pe_units :: byte
  pe_var :: byte
  pe_pad :: "byte list"
  pe_tail :: "byte list"

definition value_bytes :: "perf_value \<Rightarrow> byte list" where
  "value_bytes v = (case v of Long i \<Rightarrow> le_bytes 8 (of_signed 64 i) | Text bs var \<Rightarrow> bs)"

definition data_start :: "perf_entry \<Rightarrow> nat" where
  "data_start e = 20 + length (pe_lead e) + length (pe_name e) + 1 + length (pe_pad e)"

definition entry_size :: "perf_entry \<Rightarrow> nat" where
  "entry_size e = data_start e + length (value_bytes (pe_value e)) + length (pe_tail e)"

definition i32 :: "nat \<Rightarrow> byte list" where
  "i32 n = le_bytes 4 (of_signed 32 (int n))"

definition entry_header_bytes :: "perf_entry \<Rightarrow> byte list" where
  "entry_header_bytes e =
     i32 (entry_size e) @ i32 (20 + length (pe_lead e))
     @ i32 (case pe_value e of Long i \<Rightarrow> 0 | Text bs var \<Rightarrow> length bs)
     @ (case pe_value e of
          Long i \<Rightarrow> [74, pe_flags e, pe_units e, pe_var e]
        | Text bs var \<Rightarrow> [66, pe_flags e, 5, word_of_nat var])
     @ i32 (data_start e)"

definition encode_entry :: "perf_entry \<Rightarrow> byte list" where
  "encode_entry e =
     entry_header_bytes e @ pe_lead e @ pe_name e @ [0] @ pe_pad e @ value_bytes (pe_value e) @ pe_tail e"

text \<open>The fields of the prologue other than the offset and the number of the entries.\<close>

record file_info =
  fi_accessible :: byte
  fi_used :: int
  fi_overflow :: int
  fi_modify_time :: int

definition encode_file :: "file_info \<Rightarrow> byte list \<Rightarrow> perf_entry list \<Rightarrow> byte list \<Rightarrow> byte list" where
  "encode_file fi gap es rest =
     [0xca, 0xfe, 0xc0, 0xc0, 1, 2, 0]
     @ [fi_accessible fi] @ le_bytes 4 (of_signed 32 (fi_used fi)) @ le_bytes 4 (of_signed 32 (fi_overflow fi))
     @ le_bytes 8 (of_signed 64 (fi_modify_time fi)) @ i32 (32 + length gap) @ i32 (length es)
     @ gap @ concat (map encode_entry es) @ rest"

definition wf_entry :: "perf_entry \<Rightarrow> bool" where
  "wf_entry e \<longleftrightarrow> 0 \<notin> set (pe_name e) \<and>
     (case pe_value e of
        Long i \<Rightarrow> - (2 ^ 63) \<le> i \<and> i < 2 ^ 63
      | Text bs var \<Rightarrow> bs \<noteq> [] \<and> (var = 1 \<or> var = 3))"

text \<open>What the parser shall print for an entry.\<close>

definition entry_outs :: "perf_entry \<Rightarrow> perf_out list" where
  "entry_outs e =
     (if is_generation (pe_name e)
      then [OutName (pe_name e),
            case pe_value e of Long i \<Rightarrow> OutInt i | Text bs var \<Rightarrow> OutStr (c_str bs)]
      else [])"

section \<open>Lemmas on layouts\<close>

lemma length_i32 [simp]: "length (i32 n) = 4"
  by (simp add: i32_def)

lemma le_int_i32 [simp]: "n < 2 ^ 31 \<Longrightarrow> le_int (i32 n) = int n"
  using le_int_le_bytes [of 4 "int n"] by (simp add: i32_def)

lemma le_int_i64: "- (2 ^ 63) \<le> i \<Longrightarrow> i < 2 ^ 63 \<Longrightarrow> le_int (le_bytes 8 (of_signed 64 i)) = i"
  using le_int_le_bytes [of 8 i] by simp

lemma field_here: "length xs = n \<Longrightarrow> field 0 n (xs @ ys) = xs"
  by (simp add: field_def)

lemma field_skip: "length xs \<le> i \<Longrightarrow> field i n (xs @ ys) = field (i - length xs) n ys"
  by (simp add: field_def)

lemma field_Cons: "0 < i \<Longrightarrow> field i n (x # ys) = field (i - 1) n ys"
  by (cases i) (simp_all add: field_def)

lemma field_one: "field 0 (Suc 0) (x # ys) = [x]"
  by (simp add: field_def)

lemma field_all: "length xs = n \<Longrightarrow> field 0 n xs = xs"
  by (simp add: field_def)

lemmas layout_simps = field_here field_skip field_Cons field_one field_all

lemma read_at_mid:
  assumes "pos = int (length xs)" and "n = int (length ys)"
  shows "read_at (xs @ ys @ zs) pos n = Some ys"
  using assms by (simp add: read_at_def)

lemma name_len_takeWhile:
  "name_len buf n nlen = nlen + length (takeWhile (\<lambda>b. b \<noteq> 0) (drop n buf))"
proof (induction buf n nlen rule: name_len.induct)
  case (1 buf n nlen)
  show ?case
  proof (cases "n < length buf")
    case True
    then have "drop n buf = buf ! n # drop (Suc n) buf" by (simp add: Cons_nth_drop_Suc)
    with True 1 show ?thesis by (simp add: name_len.simps [of buf n nlen])
  next
    case False
    then show ?thesis by (simp add: name_len.simps [of buf n nlen])
  qed
qed

lemma entry_name_mid:
  assumes "0 \<notin> set nm" and "pos = int (length xs)"
  shows "entry_name (xs @ nm @ 0 # ys) pos = Some nm"
proof -
  have tw: "takeWhile (\<lambda>b. b \<noteq> 0) (nm @ 0 # ys) = nm"
    using assms(1) by (induction nm) auto
  have "name_len (xs @ nm @ 0 # ys) (length xs) 0 = length nm"
    using tw by (simp add: name_len_takeWhile)
  then show ?thesis using assms(2) by (simp add: entry_name_def)
qed

lemma length_entry_header_bytes [simp]: "length (entry_header_bytes e) = 20"
  by (simp add: entry_header_bytes_def split: perf_value.splits)

lemma length_encode_entry [simp]: "length (encode_entry e) = entry_size e"
  by (simp add: encode_entry_def entry_size_def data_start_def)

lemma decode_entry_header:
  assumes "entry_size e < 2 ^ 31" and "wf_entry e"
  shows "decode_entry (entry_header_bytes e) =
    \<lparr>entry_length = int (entry_size e), name_offset = 20 + int (length (pe_lead e)),
     vector_length = (case pe_value e of Long i \<Rightarrow> 0 | Text bs var \<Rightarrow> int (length bs)),
     data_type = (case pe_value e of Long i \<Rightarrow> 74 | Text bs var \<Rightarrow> 66),
     flags = unat (pe_flags e),
     data_units = (case pe_value e of Long i \<Rightarrow> unat (pe_units e) | Text bs var \<Rightarrow> 5),
     data_var = (case pe_value e of Long i \<Rightarrow> unat (pe_var e) | Text bs var \<Rightarrow> var),
     data_offset = int (data_start e)\<rparr>"
proof -
  have "data_start e < 2 ^ 31" "20 + length (pe_lead e) < 2 ^ 31"
    using assms(1) by (simp_all add: entry_size_def data_start_def)
  moreover have "length bs < 2 ^ 31" if "pe_value e = Text bs var" for bs var
    using assms(1) that by (simp add: entry_size_def value_bytes_def)
  ultimately show ?thesis using assms
    by (cases "pe_value e")
      (auto simp: decode_entry_def entry_header_bytes_def wf_entry_def layout_simps)
qed

lemma parse_value_encoded:
  assumes "wf_entry e" and "entry_size e < 2 ^ 31" and "pos = int (length xs)"
  shows "parse_value (xs @ value_bytes (pe_value e) @ ys) (decode_entry (entry_header_bytes e)) pos =
    Inr (case pe_value e of Long i \<Rightarrow> OutInt i | Text bs var \<Rightarrow> OutStr (c_str bs))"
proof (cases "pe_value e")
  case (Long i)
  have "read_at (xs @ le_bytes 8 (of_signed 64 i) @ ys) pos 8 = Some (le_bytes 8 (of_signed 64 i))"
    by (rule read_at_mid) (simp_all add: assms(3))
  then show ?thesis using assms(1,2) Long
    by (simp add: parse_value_def decode_entry_header value_bytes_def wf_entry_def le_int_i64)
next
  case (Text bs var)
  have "read_at (xs @ bs @ ys) pos (int (length bs)) = Some bs"
    by (rule read_at_mid) (simp_all add: assms(3))
  then show ?thesis using assms(1,2) Text
    by (auto simp: parse_value_def decode_entry_header value_bytes_def wf_entry_def)
qed

lemma parse_entry_encoded:
  assumes "wf_entry e" and "length (xs @ encode_entry e @ ys) < 2 ^ 31" and "pos = int (length xs)"
  shows "parse_entry (xs @ encode_entry e @ ys) pos = (entry_outs e, Inr (pos + int (entry_size e)))"
proof -
  let ?buf = "xs @ encode_entry e @ ys" and ?h = "entry_header_bytes e"
  let ?data = "value_bytes (pe_value e) @ pe_tail e @ ys"
  have small: "length xs + entry_size e < 2 ^ 31" using assms(2) by simp
  then have sz: "entry_size e < 2 ^ 31" by simp
  have ds: "data_start e \<le> entry_size e" by (simp add: entry_size_def)
  have header: "read_at ?buf pos 20 = Some ?h"
    using read_at_mid [of pos xs 20 ?h "pe_lead e @ pe_name e @ [0] @ pe_pad e @ ?data"] assms(3)
    by (simp add: encode_entry_def)
  have nm: "entry_name ?buf (pos + (20 + int (length (pe_lead e)))) = Some (pe_name e)"
    using entry_name_mid [of "pe_name e" "pos + (20 + int (length (pe_lead e)))" "xs @ ?h @ pe_lead e" "pe_pad e @ ?data"] assms(1,3)
    by (simp add: encode_entry_def wf_entry_def)
  have val: "parse_value ?buf (decode_entry ?h) (pos + int (data_start e)) =
      Inr (case pe_value e of Long i \<Rightarrow> OutInt i | Text bs var \<Rightarrow> OutStr (c_str bs))"
    using parse_value_encoded [OF assms(1) sz, of "pos + int (data_start e)"
        "xs @ ?h @ pe_lead e @ pe_name e @ [0] @ pe_pad e" "pe_tail e @ ys"] assms(3)
    by (simp add: encode_entry_def data_start_def)
  have adds: "int_add pos (20 + int (length (pe_lead e))) = Some (pos + (20 + int (length (pe_lead e))))"
    "int_add pos (int (data_start e)) = Some (pos + int (data_start e))"
    "int_add pos (int (entry_size e)) = Some (pos + int (entry_size e))"
    using small ds assms(3) by (auto simp: int_add_def data_start_def)
  have dec: "name_offset (decode_entry ?h) = 20 + int (length (pe_lead e))"
    "data_offset (decode_entry ?h) = int (data_start e)"
    "entry_length (decode_entry ?h) = int (entry_size e)"
    using decode_entry_header [OF sz assms(1)] by simp_all
  show ?thesis
    by (simp add: parse_entry_def header nm val adds dec entry_outs_def Let_def)
qed

lemma parse_entries_encoded:
  assumes "list_all wf_entry es" and "length (xs @ concat (map encode_entry es) @ ys) < 2 ^ 31"
    and "pos = int (length xs)"
  shows "parse_entries (length es) (xs @ concat (map encode_entry es) @ ys) pos =
    (concat (map entry_outs es), Done)"
  using assms
proof (induction es arbitrary: xs pos)
  case Nil
  then show ?case by simp
next
  case (Cons e es)
  have "parse_entry (xs @ encode_entry e @ concat (map encode_entry es) @ ys) pos =
      (entry_outs e, Inr (pos + int (entry_size e)))"
    by (rule parse_entry_encoded) (use Cons.prems in simp_all)
  moreover have "parse_entries (length es) ((xs @ encode_entry e) @ concat (map encode_entry es) @ ys)
      (pos + int (entry_size e)) = (concat (map entry_outs es), Done)"
    by (rule Cons.IH) (use Cons.prems in simp_all)
  ultimately show ?case by simp
qed

text \<open>The prologue of a file of the format, whatever follows it.\<close>

definition file_prologue :: "file_info \<Rightarrow> byte list \<Rightarrow> nat \<Rightarrow> byte list" where
  "file_prologue fi gap n =
     fi_accessible fi # le_bytes 4 (of_signed 32 (fi_used fi)) @ le_bytes 4 (of_signed 32 (fi_overflow fi))
     @ le_bytes 8 (of_signed 64 (fi_modify_time fi)) @ i32 (32 + length gap) @ i32 n"

abbreviation file_magic :: "byte list" where
  "file_magic \<equiv> [0xca, 0xfe, 0xc0, 0xc0, 1, 2, 0]"

lemma encode_file_split:
  "encode_file fi gap es rest =
     file_magic @ file_prologue fi gap (length es) @ gap @ concat (map encode_entry es) @ rest"
  by (simp add: encode_file_def file_prologue_def)

lemma parse_from_entries:
  assumes f: "f = file_magic @ file_prologue fi gap n @ gap @ body" and "length f < 2 ^ 31"
    and "n < 2 ^ 31"
  shows "parse (Some f) = (let (outs, e) = parse_entries n f (32 + int (length gap))
      in \<lparr>printed = outs, ending = e, deleted = (e = Done)\<rparr>)"
proof -
  have len: "sint (word_of_nat (length f) :: 32 word) = int (length f)"
    using assms(2) by (simp add: signed_of_nat signed_take_bit_int_eq_self)
  have lp: "length (file_prologue fi gap n) = 25" by (simp add: file_prologue_def)
  have h: "read_at f 0 7 = Some file_magic"
    using read_at_mid [of 0 "[]" 7 file_magic "file_prologue fi gap n @ gap @ body"]
    by (simp add: f)
  have p: "read_at f 7 25 = Some (file_prologue fi gap n)"
    using read_at_mid [of 7 file_magic 25 "file_prologue fi gap n" "gap @ body"] lp by (simp add: f)
  have hd: "decode_header file_magic = \<lparr>magic = 0xc0c0feca, byte_order = 1, major = 2, minor = 0\<rparr>"
    by (simp add: decode_header_def field_def)
  have off: "32 + length gap < 2 ^ 31" using assms(2) lp by (simp add: f)
  have pro: "num_entries (decode_prologue (file_prologue fi gap n)) = int n"
    "entry_offset (decode_prologue (file_prologue fi gap n)) = 32 + int (length gap)"
    using assms(3) off by (simp_all add: decode_prologue_def file_prologue_def layout_simps)
  show ?thesis by (simp add: parse_def len h p hd pro Let_def)
qed

lemma length_entries: "length es \<le> length (concat (map encode_entry es))"
  by (induction es) (auto simp: entry_size_def data_start_def)

lemma value_bytes_nonempty: "wf_entry e \<Longrightarrow> value_bytes (pe_value e) \<noteq> []"
  by (cases "pe_value e") (simp_all add: wf_entry_def value_bytes_def le_bytes_nonempty)

lemma encode_entry_nonempty: "encode_entry e \<noteq> []"
  by (simp add: encode_entry_def)

lemma read_at_beyond: "int (length buf) < pos + n \<Longrightarrow> read_at buf pos n = None"
  by (simp add: read_at_def)

lemma parse_entry_cut:
  assumes "wf_entry e" and "pe_tail e = []" and "length xs + entry_size e < 2 ^ 31"
    and "pos = int (length xs)"
  shows "snd (parse_entry (xs @ butlast (encode_entry e)) pos) = Inl OutOfBounds"
proof -
  let ?h = "entry_header_bytes e"
  let ?cut = "butlast (value_bytes (pe_value e))"
  let ?buf = "xs @ ?h @ pe_lead e @ pe_name e @ 0 # pe_pad e @ ?cut"
  have buf: "xs @ butlast (encode_entry e) = ?buf"
    using value_bytes_nonempty [OF assms(1)] assms(2) by (simp add: encode_entry_def butlast_append)
  have sz: "entry_size e < 2 ^ 31" using assms(3) by simp
  have header: "read_at ?buf pos 20 = Some ?h"
    using read_at_mid [of pos xs 20 ?h] assms(4) by simp
  have nm: "entry_name ?buf (pos + (20 + int (length (pe_lead e)))) = Some (pe_name e)"
    using entry_name_mid [of "pe_name e" "pos + (20 + int (length (pe_lead e)))" "xs @ ?h @ pe_lead e" "pe_pad e @ ?cut"] assms(1,4)
    by (simp add: wf_entry_def)
  have cut: "int (length ?buf) < pos + int (data_start e) + int (length (value_bytes (pe_value e)))"
    using value_bytes_nonempty [OF assms(1)] assms(4) by (simp add: data_start_def)
  have val: "parse_value ?buf (decode_entry ?h) (pos + int (data_start e)) = Inl OutOfBounds"
    using read_at_beyond [OF cut] assms(1) sz
    by (cases "pe_value e")
      (auto simp: parse_value_def decode_entry_header value_bytes_def wf_entry_def)
  have adds: "int_add pos (20 + int (length (pe_lead e))) = Some (pos + (20 + int (length (pe_lead e))))"
    "int_add pos (int (data_start e)) = Some (pos + int (data_start e))"
    using assms(3,4) by (auto simp: int_add_def data_start_def entry_size_def)
  have dec: "name_offset (decode_entry ?h) = 20 + int (length (pe_lead e))" "data_offset (decode_entry ?h) = int (data_start e)"
    using decode_entry_header [OF sz assms(1)] by simp_all
  show ?thesis unfolding buf by (simp add: parse_entry_def header nm val adds dec Let_def)
qed

lemma parse_entries_cut:
  assumes "list_all wf_entry (es @ [e])" and "pe_tail e = []" and "pos = int (length xs)"
    and "length (xs @ concat (map encode_entry (es @ [e]))) < 2 ^ 31"
  shows "snd (parse_entries (Suc (length es))
      (xs @ concat (map encode_entry es) @ butlast (encode_entry e)) pos) = OutOfBounds"
  using assms
proof (induction es arbitrary: xs pos)
  case Nil
  then have "snd (parse_entry (xs @ butlast (encode_entry e)) pos) = Inl OutOfBounds"
    by (intro parse_entry_cut) simp_all
  then show ?case by (auto split: prod.splits sum.splits)
next
  case (Cons e1 es)
  let ?tail = "concat (map encode_entry es) @ butlast (encode_entry e)"
  have "parse_entry (xs @ encode_entry e1 @ ?tail) pos =
      (entry_outs e1, Inr (pos + int (entry_size e1)))"
    by (rule parse_entry_encoded) (use Cons.prems in simp_all)
  moreover have "snd (parse_entries (Suc (length es)) ((xs @ encode_entry e1) @ ?tail)
      (pos + int (entry_size e1))) = OutOfBounds"
    by (rule Cons.IH) (use Cons.prems in simp_all)
  ultimately show ?case by (auto split: prod.splits)
qed

section \<open>The shape of the output\<close>

definition name_ok :: "byte list \<Rightarrow> bool" where
  "name_ok n \<longleftrightarrow> 0 \<notin> set n \<and> is_generation n"

definition value_ok :: "perf_out \<Rightarrow> bool" where
  "value_ok v \<longleftrightarrow>
     (case v of OutName n \<Rightarrow> False | OutInt i \<Rightarrow> - (2 ^ 63) \<le> i \<and> i < 2 ^ 63 | OutStr bs \<Rightarrow> 0 \<notin> set bs)"

text \<open>Names and values in turn; a name without its value only at the end of an output that is cut short.\<close>

fun typed_outs :: "bool \<Rightarrow> perf_out list \<Rightarrow> bool" where
  "typed_outs complete [] \<longleftrightarrow> True"
| "typed_outs complete [OutName n] \<longleftrightarrow> \<not> complete \<and> name_ok n"
| "typed_outs complete (OutName n # v # outs) \<longleftrightarrow> name_ok n \<and> value_ok v \<and> typed_outs complete outs"
| "typed_outs complete _ \<longleftrightarrow> False"

lemma name_len_stops: "k < name_len buf n nlen - nlen \<Longrightarrow> n + k < length buf \<and> buf ! (n + k) \<noteq> 0"
proof (induction buf n nlen arbitrary: k rule: name_len.induct)
  case (1 buf n nlen)
  show ?case
  proof (cases "n < length buf \<and> buf ! n \<noteq> 0")
    case True
    then have eq: "name_len buf n nlen = name_len buf (Suc n) (Suc nlen)" by (simp add: name_len.simps [of buf n])
    show ?thesis
    proof (cases k)
      case (Suc k')
      with 1(2) eq have "k' < name_len buf (Suc n) (Suc nlen) - Suc nlen" by simp
      from 1(1) [OF _ _ this] True Suc show ?thesis by simp
    qed (use True in simp)
  qed (use 1(2) in \<open>auto simp: name_len.simps [of buf n] split: if_splits\<close>)
qed

lemma entry_name_no_nul: "entry_name buf pos = Some n \<Longrightarrow> 0 \<notin> set n"
  using name_len_stops [of _ buf "nat pos" 0] by (auto simp: entry_name_def in_set_conv_nth split: if_splits)

lemma le_int_range:
  assumes "length bs = 8"
  shows "- (2 ^ 63) \<le> le_int bs \<and> le_int bs < 2 ^ 63"
proof -
  have "le_nat bs < 2 ^ 64" using le_nat_bound [of bs] assms by simp
  then have "int (le_nat bs) < 2 ^ 64" by (metis of_nat_less_iff of_nat_numeral of_nat_power)
  then show ?thesis using assms by (simp add: le_int_def to_signed_def)
qed

lemma parse_value_ok: "parse_value buf e pos = Inr v \<Longrightarrow> value_ok v"
proof -
  have len: "read_at buf pos n = Some bs \<Longrightarrow> length bs = nat n" for n bs
    by (auto simp: read_at_def split: if_splits)
  assume "parse_value buf e pos = Inr v"
  then show ?thesis using len le_int_range
    by (auto simp: parse_value_def value_ok_def c_str_def dest: set_takeWhileD split: if_splits option.splits)
qed

lemma parse_entry_not_done: "parse_entry buf pos \<noteq> (outs, Inl Done)"
proof -
  have "parse_value buf e d \<noteq> Inl Done" for e d
    by (auto simp: parse_value_def split: option.splits)
  then show ?thesis by (auto simp: parse_entry_def Let_def split: option.splits sum.splits)
qed

lemma parse_entry_typed:
  assumes "parse_entry buf pos = (outs, r)"
  shows "typed_outs (\<exists>p. r = Inr p) outs"
  using assms
  by (auto simp: parse_entry_def Let_def name_ok_def entry_name_no_nul dest: parse_value_ok
      split: option.splits sum.splits if_splits)

lemma typed_outs_append: "typed_outs True as \<Longrightarrow> typed_outs c bs \<Longrightarrow> typed_outs c (as @ bs)"
proof (induction as rule: induct_list012)
  case (3 x y zs)
  then show ?case by (cases x) auto
qed (auto elim: typed_outs.elims)

lemma parse_entries_typed: "parse_entries k buf pos = (outs, e) \<Longrightarrow> typed_outs (e = Done) outs"
proof (induction k arbitrary: pos outs e)
  case (Suc k)
  obtain o1 r where p: "parse_entry buf pos = (o1, r)" by fastforce
  note t = parse_entry_typed [OF p]
  show ?case
  proof (cases r)
    case (Inl e1)
    with Suc.prems p have "outs = o1" "e = e1" by auto
    moreover have "typed_outs False o1" using t Inl by simp
    moreover have "e1 \<noteq> Done" using p Inl parse_entry_not_done by blast
    ultimately show ?thesis by simp
  next
    case (Inr pos')
    obtain o2 e2 where k: "parse_entries k buf pos' = (o2, e2)" by fastforce
    with Inr Suc.prems p have "outs = o1 @ o2" "e = e2" by auto
    with Suc.IH [OF k] t Inr show ?thesis by (simp add: typed_outs_append)
  qed
qed simp

section \<open>Properties\<close>

text \<open>
  C4. The parser recovers what the JVM wrote: for every file of the format (any used and overflow
  counts, modification time and accessible flag, any well-formed entries with any flags, units and
  variability of a number, any gaps and padding and any bytes after the entries, below 2 GiB) it
  prints the name and the value of exactly the generation counters, in order, reads only inside
  the buffer, and frees it.
\<close>

theorem perfdata_roundtrip:
  assumes "list_all wf_entry es" and "length (encode_file fi gap es rest) < 2 ^ 31"
  shows "parse (Some (encode_file fi gap es rest)) =
    \<lparr>printed = concat (map entry_outs es), ending = Done, deleted = True\<rparr>"
proof -
  let ?f = "encode_file fi gap es rest"
  let ?xs = "file_magic @ file_prologue fi gap (length es) @ gap"
  have "length es < 2 ^ 31"
    using assms(2) length_entries [of es] by (simp add: encode_file_def)
  then have start: "parse (Some ?f) = (let (outs, e) = parse_entries (length es) ?f (32 + int (length gap))
      in \<lparr>printed = outs, ending = e, deleted = (e = Done)\<rparr>)"
    using parse_from_entries [OF encode_file_split assms(2)] by simp
  have "?f = ?xs @ concat (map encode_entry es) @ rest" by (simp add: encode_file_split)
  then have "parse_entries (length es) ?f (32 + int (length gap)) = (concat (map entry_outs es), Done)"
    using parse_entries_encoded [OF assms(1), of ?xs rest "32 + int (length gap)"] assms(2)
    by (simp add: file_prologue_def)
  then show ?thesis by (simp add: start)
qed

abbreviation sample_entries :: "perf_entry list" where
  "sample_entries \<equiv>
     [\<lparr>pe_lead = [9], pe_name = str_bytes ''sun.gc.generation.0.capacity'', pe_value = Long 4096, pe_flags = 1,
       pe_units = 2, pe_var = 3, pe_pad = [0, 0], pe_tail = []\<rparr>,
      \<lparr>pe_lead = [], pe_name = str_bytes ''java.version'', pe_value = Text [56, 0] 1, pe_flags = 0,
       pe_units = 5, pe_var = 1, pe_pad = [], pe_tail = []\<rparr>]"

abbreviation sample_info :: file_info where
  "sample_info \<equiv> \<lparr>fi_accessible = 1, fi_used = 120, fi_overflow = 0, fi_modify_time = 77\<rparr>"

lemma sample_outs:
  "concat (map entry_outs sample_entries) =
     [OutName (str_bytes ''sun.gc.generation.0.capacity''), OutInt 4096]"
  by (simp add: entry_outs_def is_generation_def generation_key_def str_bytes_def)

lemma sample_wf: "list_all wf_entry sample_entries"
  by (simp add: wf_entry_def str_bytes_def)

lemma sample_length: "length (encode_file sample_info [] sample_entries []) < 2 ^ 31"
  by (simp add: encode_file_split file_prologue_def entry_size_def data_start_def value_bytes_def
      str_bytes_def)

theorem perfdata_roundtrip_witness:
  "parse (Some (encode_file sample_info [] sample_entries [])) =
     \<lparr>printed = [OutName (str_bytes ''sun.gc.generation.0.capacity''), OutInt 4096],
      ending = Done, deleted = True\<rparr>"
  using perfdata_roundtrip [OF sample_wf sample_length] by (simp only: sample_outs)

text \<open>
  C35. The parser trusts the offsets and sizes of the file: if the last byte of a well-formed file
  is missing (its last entry having no padding at its end), \<open>parse\<close> reads outside its buffer.
\<close>

theorem perfdata_truncated_overread:
  assumes "list_all wf_entry (es @ [e])" and "pe_tail e = []"
    and "length (encode_file fi gap (es @ [e]) []) < 2 ^ 31"
  shows "ending (parse (Some (butlast (encode_file fi gap (es @ [e]) [])))) = OutOfBounds"
proof -
  let ?n = "Suc (length es)"
  let ?xs = "file_magic @ file_prologue fi gap ?n @ gap"
  let ?f = "?xs @ concat (map encode_entry es) @ butlast (encode_entry e)"
  have f: "butlast (encode_file fi gap (es @ [e]) []) = ?f"
    using encode_entry_nonempty [of e] by (simp add: encode_file_split butlast_append)
  have "?n \<le> length (concat (map encode_entry (es @ [e])))" using length_entries [of "es @ [e]"] by simp
  then have n: "?n < 2 ^ 31" using assms(3) by (simp add: encode_file_def)
  have len: "length ?f < 2 ^ 31" using assms(3) by (simp add: encode_file_split)
  have "snd (parse_entries ?n ?f (32 + int (length gap))) = OutOfBounds"
    using parse_entries_cut [OF assms(1,2), of "32 + int (length gap)" ?xs] assms(3)
    by (simp add: encode_file_split file_prologue_def)
  then show ?thesis
    unfolding f using parse_from_entries [of ?f fi gap ?n, OF _ len n] by (auto split: prod.splits)
qed

theorem perfdata_truncated_overread_witness:
  "ending (parse (Some (butlast (encode_file sample_info [] sample_entries [])))) = OutOfBounds"
  using perfdata_truncated_overread [of "butlast sample_entries" "last sample_entries" sample_info "[]"]
    sample_wf sample_length by simp

text \<open>
  C18. Whatever the file contains, the output is well-typed: it is a sequence of names of generations
  without NUL, each followed by its value, a 64-bit integer or a text without NUL; only when the
  parser stopped with an error may the last name lack its value.
\<close>

theorem perfdata_output_typed:
  "typed_outs (ending (parse file) = Done) (printed (parse file))"
proof -
  have "typed_outs c (printed (stop_with e))" for c e by (simp add: stop_with_def)
  then show ?thesis
    by (auto simp: parse_def Let_def split: option.splits prod.splits dest: parse_entries_typed)
qed

end
