(* ===== verification/Channel.thy ===== *)
theory Channel
  imports Jvm_Base
begin

text \<open>
  \<^verbatim>\<open>src/src/ts/common/channel.h\<close>: the interface \<open>Channel\<close> and its documented contract. The contract is an abstract
  channel (the values that were written and not yet read, whether it is closed, and the call each
  thread is in) with one step per call, effect and return of an operation; an implementation promises that each of its steps is a
  sequence of steps of the abstract channel. The laws of the interface follow for every
  implementation.
\<close>

section \<open>The contract\<close>

text \<open>
  Where the call of a thread stands: none; in \<open>Write\<close> before and after its value went into the
  channel; in \<open>Read\<close>; in \<open>Close\<close>.
\<close>

datatype 'v acall = ANone | AWrite 'v | AWrote 'v | ARead | AClose

record 'v channel =
  unread :: "'v list"
  is_closed :: bool
  has_crashed :: bool
  calls :: "nat \<Rightarrow> 'v acall"

definition channel_new :: "'v channel" where
  "channel_new = \<lparr>unread = [], is_closed = False, has_crashed = False, calls = (\<lambda>_. ANone)\<rparr>"

text \<open>
  The calls, the returns and the moments at which an operation takes effect, each with its
  thread: a \<open>Write\<close> is called, its value goes into the channel, it returns; or it times out, or
  finds the channel closed. A \<open>Read\<close> is called and returns with a value, with the default of a
  closed and empty channel, or with a timeout. \<open>Close\<close> takes effect and returns, or finds the
  channel closed.
\<close>

datatype 'v outcome =
    CallWrite nat 'v | Wrote nat 'v | RetWrite nat 'v | WriteTimedOut nat | WriteOnClosed nat
  | CallRead nat | ReadValue nat 'v | ReadDefault nat | ReadTimedOut nat
  | Closed nat | ClosedAgain nat | RetClose nat

definition call_at :: "nat \<Rightarrow> 'v acall \<Rightarrow> 'v channel \<Rightarrow> 'v channel" where
  "call_at t a c = c\<lparr>calls := (calls c)(t := a)\<rparr>"

inductive channel_step :: "'v channel \<Rightarrow> 'v outcome \<Rightarrow> 'v channel \<Rightarrow> bool" where
  ch_call_write: "\<not> has_crashed c \<Longrightarrow> calls c t = ANone \<Longrightarrow>
     channel_step c (CallWrite t v) (call_at t (AWrite v) c)"
| ch_wrote: "\<not> has_crashed c \<Longrightarrow> calls c t = AWrite v \<Longrightarrow> \<not> is_closed c \<Longrightarrow>
     channel_step c (Wrote t v) ((call_at t (AWrote v) c)\<lparr>unread := unread c @ [v]\<rparr>)"
| ch_ret_write: "\<not> has_crashed c \<Longrightarrow> calls c t = AWrote v \<Longrightarrow>
     channel_step c (RetWrite t v) (call_at t ANone c)"
| ch_write_timeout: "\<not> has_crashed c \<Longrightarrow> calls c t = AWrite v \<Longrightarrow>
     channel_step c (WriteTimedOut t) (call_at t ANone c)"
| ch_write_closed: "\<not> has_crashed c \<Longrightarrow> calls c t = AWrite v \<Longrightarrow> is_closed c \<Longrightarrow>
     channel_step c (WriteOnClosed t) (c\<lparr>has_crashed := True\<rparr>)"
| ch_call_read: "\<not> has_crashed c \<Longrightarrow> calls c t = ANone \<Longrightarrow>
     channel_step c (CallRead t) (call_at t ARead c)"
| ch_read: "\<not> has_crashed c \<Longrightarrow> calls c t = ARead \<Longrightarrow> unread c = v # vs \<Longrightarrow>
     channel_step c (ReadValue t v) ((call_at t ANone c)\<lparr>unread := vs\<rparr>)"
| ch_read_default: "\<not> has_crashed c \<Longrightarrow> calls c t = ARead \<Longrightarrow> is_closed c \<Longrightarrow> unread c = [] \<Longrightarrow>
     channel_step c (ReadDefault t) (call_at t ANone c)"
| ch_read_timeout: "\<not> has_crashed c \<Longrightarrow> calls c t = ARead \<Longrightarrow> \<not> is_closed c \<Longrightarrow> unread c = [] \<Longrightarrow>
     channel_step c (ReadTimedOut t) (call_at t ANone c)"
| ch_close: "\<not> has_crashed c \<Longrightarrow> calls c t = ANone \<Longrightarrow> \<not> is_closed c \<Longrightarrow>
     channel_step c (Closed t) ((call_at t AClose c)\<lparr>is_closed := True\<rparr>)"
| ch_close_again: "\<not> has_crashed c \<Longrightarrow> calls c t = ANone \<Longrightarrow> is_closed c \<Longrightarrow>
     channel_step c (ClosedAgain t) (c\<lparr>has_crashed := True\<rparr>)"
| ch_ret_close: "\<not> has_crashed c \<Longrightarrow> calls c t = AClose \<Longrightarrow>
     channel_step c (RetClose t) (call_at t ANone c)"

inductive_simps channel_step_simps:
  "channel_step c (CallWrite t v) d"
  "channel_step c (Wrote t v) d"
  "channel_step c (RetWrite t v) d"
  "channel_step c (WriteTimedOut t) d"
  "channel_step c (WriteOnClosed t) d"
  "channel_step c (CallRead t) d"
  "channel_step c (ReadValue t v) d"
  "channel_step c (ReadDefault t) d"
  "channel_step c (ReadTimedOut t) d"
  "channel_step c (Closed t) d"
  "channel_step c (ClosedAgain t) d"
  "channel_step c (RetClose t) d"

fun wrote :: "'v outcome list \<Rightarrow> 'v list" where
  "wrote [] = []"
| "wrote (Wrote t v # os) = v # wrote os"
| "wrote (_ # os) = wrote os"

fun values_read :: "'v outcome list \<Rightarrow> 'v list" where
  "values_read [] = []"
| "values_read (ReadValue t v # os) = v # values_read os"
| "values_read (_ # os) = values_read os"

text \<open>The values a thread put into the channel, and those of its \<open>Write\<close> calls that returned well.\<close>

fun wrote_by :: "nat \<Rightarrow> 'v outcome list \<Rightarrow> 'v list" where
  "wrote_by t [] = []"
| "wrote_by t (Wrote u v # os) = (if u = t then v # wrote_by t os else wrote_by t os)"
| "wrote_by t (_ # os) = wrote_by t os"

fun returned_to :: "nat \<Rightarrow> 'v outcome list \<Rightarrow> 'v list" where
  "returned_to t [] = []"
| "returned_to t (RetWrite u v # os) = (if u = t then v # returned_to t os else returned_to t os)"
| "returned_to t (_ # os) = returned_to t os"

section \<open>What the contract gives\<close>

lemma wrote_append [simp]: "wrote (as @ bs) = wrote as @ wrote bs"
  by (induction as rule: wrote.induct) auto

lemma values_read_append [simp]: "values_read (as @ bs) = values_read as @ values_read bs"
  by (induction as rule: values_read.induct) auto

lemma wrote_by_append [simp]: "wrote_by t (as @ bs) = wrote_by t as @ wrote_by t bs"
  by (induction as rule: wrote_by.induct) auto

lemma returned_to_append [simp]: "returned_to t (as @ bs) = returned_to t as @ returned_to t bs"
  by (induction as rule: returned_to.induct) auto

text \<open>
  The values written are those read, in the same order, followed by those still pending; the
  values of a thread's successful \<open>Write\<close> calls are those it put into the channel, each once,
  except for a call that is about to return; the channel is closed exactly if it was closed
  before; a crash is a misuse.
\<close>

definition about_to_return :: "'v acall \<Rightarrow> 'v list" where
  "about_to_return a = (case a of AWrote v \<Rightarrow> [v] | _ \<Rightarrow> [])"

definition contract_ok :: "'v outcome list \<Rightarrow> 'v channel \<Rightarrow> bool" where
  "contract_ok os c \<longleftrightarrow> wrote os = values_read os @ unread c
     \<and> (\<forall>t. wrote_by t os = returned_to t os @ about_to_return (calls c t))
     \<and> (is_closed c \<longleftrightarrow> (\<exists>t. Closed t \<in> set os))
     \<and> (has_crashed c \<longleftrightarrow> (\<exists>t. WriteOnClosed t \<in> set os \<or> ClosedAgain t \<in> set os))
     \<and> (has_crashed c \<longrightarrow> is_closed c)"

interpretation contract: labelled_invariant channel_new channel_step contract_ok
proof unfold_locales
  show "contract_ok [] (channel_new :: 'a channel)"
    by (simp add: contract_ok_def channel_new_def about_to_return_def)
next
  fix os :: "'a outcome list" and c e d
  assume "contract_ok os c" and "channel_step c e d"
  from this(2,1) show "contract_ok (os @ [e]) d"
    by (cases rule: channel_step.cases) (auto simp: contract_ok_def call_at_def about_to_return_def)
qed

text \<open>
  The interface: an implementation with its start state, its steps, an invariant of its own, the
  abstract channel its state stands for, and the outcomes an event of it stands for.
\<close>

locale channel_implementation =
  fixes start :: "'s"
    and step :: "'s \<Rightarrow> 'e \<Rightarrow> 's \<Rightarrow> bool"
    and inv_on :: "'e list \<Rightarrow> 's \<Rightarrow> bool"
    and abs_chan :: "'s \<Rightarrow> 'v channel"
    and visible :: "'e \<Rightarrow> 'v outcome list"
  assumes impl_inv: "labelled_invariant start step inv_on"
    and impl_start: "abs_chan start = channel_new"
    and impl_step: "inv_on es s \<Longrightarrow> step s e t \<Longrightarrow> lrun channel_step (abs_chan s) (visible e) (abs_chan t)"
begin

lemma refines_channel:
  "lrun step start es s \<Longrightarrow> lrun channel_step channel_new (concat (map visible es)) (abs_chan s)"
proof (induction rule: lrun.induct)
  case lrun_nil
  then show ?case by (simp add: impl_start lrun.lrun_nil)
next
  case (lrun_snoc es t e u)
  have "inv_on es t" by (rule labelled_invariant.run_invariant [OF impl_inv lrun_snoc(1)])
  from impl_step [OF this lrun_snoc(2)] lrun_snoc(3) show ?case by (simp add: lrun_append)
qed

lemma reads_are_writes:
  assumes "lrun step start es s"
  shows "wrote (concat (map visible es)) = values_read (concat (map visible es)) @ unread (abs_chan s)"
  using contract.run_invariant [OF refines_channel [OF assms]] by (simp add: contract_ok_def)

lemma writes_return_once:
  assumes "lrun step start es s"
  shows "wrote_by t (concat (map visible es))
    = returned_to t (concat (map visible es)) @ about_to_return (calls (abs_chan s) t)"
  using contract.run_invariant [OF refines_channel [OF assms]] by (simp add: contract_ok_def)

lemma crash_is_misuse:
  assumes "lrun step start es s" and "has_crashed (abs_chan s)"
  shows "is_closed (abs_chan s)"
  using contract.run_invariant [OF refines_channel [OF assms(1)]] assms(2) unfolding contract_ok_def by blast

end

end
