(* ===== verification/Unbuffered_Channel.thy ===== *)
theory Unbuffered_Channel
  imports Channel
begin

text \<open>
  \<^verbatim>\<open>src/src/ts/common/unbuffered_channel.h\<close>, the implementation of the interface in \<^verbatim>\<open>channel.h\<close>: a
  hand-over of one value between a writer and a reader. Every section of code that runs under
  \<open>m_\<close> is one step, the notifications in it included; the notifications of \<open>Close\<close>, which come after
  the mutex is released, are steps of their own. \<open>wait_for\<close> with a predicate evaluates the predicate
  under the mutex: if it is false the thread falls asleep on its condition variable, until a
  notification, the deadline or a spurious wake-up; the thread then evaluates the predicate again,
  also at the deadline, so the step after a wait needs the predicate and a timeout its
  negation. \<open>LOG_IF(FATAL)\<close> ends the process.
\<close>

section \<open>State\<close>

text \<open>
  Where a thread stands: outside; in \<open>Write\<close> before the handshake zone, with its item; in
  \<open>Write\<close> inside the zone; in \<open>Read\<close>; in \<open>Close\<close> before each of the three notifications.
\<close>

datatype 'v cpc =
    COut | CWriting 'v | CInZone 'v | CReading | CNotifyWriters | CNotifyReaders | CNotifyHandshake

text \<open>
  \<open>item_\<close> points to the argument of a writer's call: it is the thread whose item it is. \<open>asleep\<close>
  are the threads blocked in a wait, on the condition variable of the place where they stand.
\<close>

record 'v chan =
  closed :: bool
  writter_in_zone :: bool
  reader_in_zone :: bool
  item :: "nat option"
  cpcs :: "nat \<Rightarrow> 'v cpc"
  asleep :: "nat \<Rightarrow> bool"
  crashed :: bool

definition chan_new :: "'v chan" where
  "chan_new = \<lparr>closed = False, writter_in_zone = False, reader_in_zone = False, item = None,
     cpcs = (\<lambda>_. COut), asleep = (\<lambda>_. False), crashed = False\<rparr>"

text \<open>The limit of the untimed operations, in microseconds.\<close>

definition kInifinity :: "64 word" where
  "kInifinity = 365 * 24 * 3600 * 1000000"

text \<open>
  The point in time, in nanoseconds of the 64-bit steady clock, at which \<open>wait_for\<close> gives up
  when it is called at \<open>now\<close>. The wait times out at once when it lies in the past.
\<close>

definition wait_deadline :: "64 word \<Rightarrow> 64 word \<Rightarrow> 64 word" where
  "wait_deadline now wait_duration = now + 1000 * wait_duration"

definition times_out_at_once :: "64 word \<Rightarrow> 64 word \<Rightarrow> bool" where
  "times_out_at_once now wait_duration \<longleftrightarrow> sint (wait_deadline now wait_duration) \<le> sint now"

text \<open>\<open>*item_\<close>: \<open>None\<close> when the pointer is null or the call it points into has returned.\<close>

definition deref_item :: "'v chan \<Rightarrow> 'v option" where
  "deref_item s =
     (case item s of
        None \<Rightarrow> None
      | Some w \<Rightarrow>
          (case cpcs s w of CWriting v \<Rightarrow> Some v | CInZone v \<Rightarrow> Some v | _ \<Rightarrow> None))"

definition goto :: "nat \<Rightarrow> 'v cpc \<Rightarrow> 'v chan \<Rightarrow> 'v chan" where
  "goto t p s = s\<lparr>cpcs := (cpcs s)(t := p), asleep := (asleep s)(t := False)\<rparr>"

text \<open>The predicates of the three waits.\<close>

definition may_enter :: "'v chan \<Rightarrow> bool" where
  "may_enter s \<longleftrightarrow> closed s \<or> \<not> writter_in_zone s"

definition handshaken :: "'v chan \<Rightarrow> bool" where
  "handshaken s \<longleftrightarrow> closed s \<or> reader_in_zone s"

definition may_read :: "'v chan \<Rightarrow> bool" where
  "may_read s \<longleftrightarrow> closed s \<or> \<not> reader_in_zone s \<and> writter_in_zone s"

section \<open>The condition variables\<close>

datatype cond_var = writers | readers | handshake

text \<open>The wait of a thread: its condition variable and the predicate.\<close>

definition waits_on :: "'v cpc \<Rightarrow> cond_var option" where
  "waits_on p =
     (case p of CWriting v \<Rightarrow> Some writers | CInZone v \<Rightarrow> Some handshake | CReading \<Rightarrow> Some readers | _ \<Rightarrow> None)"

definition wait_over :: "cond_var \<Rightarrow> 'v chan \<Rightarrow> bool" where
  "wait_over cv s = (case cv of writers \<Rightarrow> may_enter s | handshake \<Rightarrow> handshaken s | readers \<Rightarrow> may_read s)"

definition sleeper :: "cond_var \<Rightarrow> 'v chan \<Rightarrow> nat \<Rightarrow> bool" where
  "sleeper cv s t \<longleftrightarrow> asleep s t \<and> waits_on (cpcs s t) = Some cv"

text \<open>
  \<open>notify_one\<close> wakes one of the sleeping threads, whichever (\<open>who\<close>), if there is one; \<open>notify_all\<close>
  wakes all.
\<close>

definition may_notify :: "cond_var \<Rightarrow> nat option \<Rightarrow> 'v chan \<Rightarrow> bool" where
  "may_notify cv who s \<longleftrightarrow> (case who of None \<Rightarrow> \<forall>u. \<not> sleeper cv s u | Some u \<Rightarrow> sleeper cv s u)"

definition notify_one :: "nat option \<Rightarrow> 'v chan \<Rightarrow> 'v chan" where
  "notify_one who s = (case who of None \<Rightarrow> s | Some u \<Rightarrow> s\<lparr>asleep := (asleep s)(u := False)\<rparr>)"

definition notify_all :: "cond_var \<Rightarrow> 'v chan \<Rightarrow> 'v chan" where
  "notify_all cv s = s\<lparr>asleep := (\<lambda>t. asleep s t \<and> \<not> sleeper cv s t)\<rparr>"

section \<open>The sections of Write, Read and Close\<close>

text \<open>
  After the first wait of \<open>Write\<close>: the writer enters the zone, notifies a reader, and goes on
  to its second wait without releasing the mutex.
\<close>

definition write_enter :: "nat \<Rightarrow> 'v \<Rightarrow> nat option \<Rightarrow> 'v chan \<Rightarrow> 'v chan" where
  "write_enter t v who s =
     (if closed s then s\<lparr>crashed := True\<rparr>
      else
        (let s1 = notify_one who ((goto t (CInZone v) s)\<lparr>writter_in_zone := True, item := Some t\<rparr>)
         in s1\<lparr>asleep := (asleep s1)(t := \<not> handshaken s1)\<rparr>))"

definition write_finish :: "nat \<Rightarrow> nat option \<Rightarrow> 'v chan \<Rightarrow> 'v chan" where
  "write_finish t who s =
     (if \<not> reader_in_zone s \<and> closed s then s\<lparr>crashed := True\<rparr>
      else notify_one who ((goto t COut s)\<lparr>writter_in_zone := False, reader_in_zone := False\<rparr>))"

definition write_give_up :: "nat \<Rightarrow> nat option \<Rightarrow> 'v chan \<Rightarrow> 'v chan" where
  "write_give_up t who s = notify_one who ((goto t COut s)\<lparr>writter_in_zone := False\<rparr>)"

definition read_finish :: "nat \<Rightarrow> nat option \<Rightarrow> 'v chan \<Rightarrow> 'v chan" where
  "read_finish t who s =
     (if closed s then goto t COut s
      else notify_one who ((goto t COut s)\<lparr>reader_in_zone := True\<rparr>))"

definition close_chan :: "nat \<Rightarrow> 'v chan \<Rightarrow> 'v chan" where
  "close_chan t s =
     (if closed s then s\<lparr>crashed := True\<rparr> else (goto t CNotifyWriters s)\<lparr>closed := True\<rparr>)"

datatype 'v cevent =
    EWrite nat 'v | EEnter nat | EWritten nat 'v | EWriteTimeout nat | EWriteFatal nat
  | ERead nat | EGot nat "nat option" "'v option" | EReadClosed nat | EReadTimeout nat
  | EClose nat | ECloseFatal nat | ENotifyAll nat | ECloseDone nat | ESleep nat | EWake nat

text \<open>
  A reader's event names the thread whose item it read. A timeout comes to a thread that is
  asleep or has just been notified; at the deadline the predicate decides, so a thread whose
  predicate holds goes on as after a wake-up (\<open>c_wake\<close>).
\<close>

inductive cstep :: "'v chan \<Rightarrow> 'v cevent \<Rightarrow> 'v chan \<Rightarrow> bool" where
  c_write: "\<not> crashed s \<Longrightarrow> cpcs s t = COut \<Longrightarrow> cstep s (EWrite t v) (goto t (CWriting v) s)"
| c_enter: "\<not> crashed s \<Longrightarrow> cpcs s t = CWriting v \<Longrightarrow> \<not> asleep s t \<Longrightarrow> may_enter s \<Longrightarrow> \<not> closed s \<Longrightarrow>
     may_notify readers who s \<Longrightarrow> cstep s (EEnter t) (write_enter t v who s)"
| c_enter_fatal: "\<not> crashed s \<Longrightarrow> cpcs s t = CWriting v \<Longrightarrow> \<not> asleep s t \<Longrightarrow> may_enter s \<Longrightarrow> closed s \<Longrightarrow>
     cstep s (EWriteFatal t) (write_enter t v None s)"
| c_enter_timeout: "\<not> crashed s \<Longrightarrow> cpcs s t = CWriting v \<Longrightarrow> \<not> may_enter s \<Longrightarrow>
     cstep s (EWriteTimeout t) (goto t COut s)"
| c_written: "\<not> crashed s \<Longrightarrow> cpcs s t = CInZone v \<Longrightarrow> \<not> asleep s t \<Longrightarrow> handshaken s \<Longrightarrow> reader_in_zone s \<Longrightarrow>
     may_notify writers who s \<Longrightarrow> cstep s (EWritten t v) (write_finish t who s)"
| c_written_fatal: "\<not> crashed s \<Longrightarrow> cpcs s t = CInZone v \<Longrightarrow> \<not> asleep s t \<Longrightarrow> handshaken s \<Longrightarrow>
     \<not> reader_in_zone s \<Longrightarrow> cstep s (EWriteFatal t) (write_finish t None s)"
| c_zone_timeout: "\<not> crashed s \<Longrightarrow> cpcs s t = CInZone v \<Longrightarrow> \<not> handshaken s \<Longrightarrow>
     may_notify writers who s \<Longrightarrow> cstep s (EWriteTimeout t) (write_give_up t who s)"
| c_read: "\<not> crashed s \<Longrightarrow> cpcs s t = COut \<Longrightarrow> cstep s (ERead t) (goto t CReading s)"
| c_got: "\<not> crashed s \<Longrightarrow> cpcs s t = CReading \<Longrightarrow> \<not> asleep s t \<Longrightarrow> may_read s \<Longrightarrow> \<not> closed s \<Longrightarrow>
     may_notify handshake who s \<Longrightarrow> cstep s (EGot t (item s) (deref_item s)) (read_finish t who s)"
| c_read_closed: "\<not> crashed s \<Longrightarrow> cpcs s t = CReading \<Longrightarrow> \<not> asleep s t \<Longrightarrow> may_read s \<Longrightarrow> closed s \<Longrightarrow>
     cstep s (EReadClosed t) (read_finish t None s)"
| c_read_timeout: "\<not> crashed s \<Longrightarrow> cpcs s t = CReading \<Longrightarrow> \<not> may_read s \<Longrightarrow>
     cstep s (EReadTimeout t) (goto t COut s)"
| c_close: "\<not> crashed s \<Longrightarrow> cpcs s t = COut \<Longrightarrow> \<not> closed s \<Longrightarrow> cstep s (EClose t) (close_chan t s)"
| c_close_fatal: "\<not> crashed s \<Longrightarrow> cpcs s t = COut \<Longrightarrow> closed s \<Longrightarrow> cstep s (ECloseFatal t) (close_chan t s)"
| c_notify_writers: "\<not> crashed s \<Longrightarrow> cpcs s t = CNotifyWriters \<Longrightarrow>
     cstep s (ENotifyAll t) (goto t CNotifyReaders (notify_all writers s))"
| c_notify_readers: "\<not> crashed s \<Longrightarrow> cpcs s t = CNotifyReaders \<Longrightarrow>
     cstep s (ENotifyAll t) (goto t CNotifyHandshake (notify_all readers s))"
| c_notify_handshake: "\<not> crashed s \<Longrightarrow> cpcs s t = CNotifyHandshake \<Longrightarrow> may_notify handshake who s \<Longrightarrow>
     cstep s (ECloseDone t) (notify_one who (goto t COut s))"
| c_sleep: "\<not> crashed s \<Longrightarrow> waits_on (cpcs s t) = Some cv \<Longrightarrow> \<not> asleep s t \<Longrightarrow> \<not> wait_over cv s \<Longrightarrow>
     cstep s (ESleep t) (s\<lparr>asleep := (asleep s)(t := True)\<rparr>)"
| c_wake: "\<not> crashed s \<Longrightarrow> asleep s t \<Longrightarrow> cstep s (EWake t) (s\<lparr>asleep := (asleep s)(t := False)\<rparr>)"

text \<open>The values handed to readers and the values whose \<open>Write\<close> returned without a timeout.\<close>

fun got :: "'v cevent list \<Rightarrow> 'v option list" where
  "got [] = []"
| "got (EGot t w v # es) = v # got es"
| "got (_ # es) = got es"

fun written :: "'v cevent list \<Rightarrow> 'v list" where
  "written [] = []"
| "written (EWritten t v # es) = v # written es"
| "written (_ # es) = written es"

text \<open>The value that was read but whose writer has not yet returned.\<close>

definition in_flight :: "'v chan \<Rightarrow> 'v option list" where
  "in_flight s = (if reader_in_zone s then [deref_item s] else [])"

definition in_zone :: "'v chan \<Rightarrow> nat \<Rightarrow> bool" where
  "in_zone s t \<longleftrightarrow> (\<exists>v. cpcs s t = CInZone v)"

section \<open>The invariant\<close>

definition zone_ok :: "'v chan \<Rightarrow> bool" where
  "zone_ok s \<longleftrightarrow>
     (if writter_in_zone s
      then (case item s of None \<Rightarrow> False | Some w \<Rightarrow> in_zone s w \<and> (\<forall>u. in_zone s u \<longrightarrow> u = w))
      else (\<forall>u. \<not> in_zone s u) \<and> \<not> reader_in_zone s)
   \<and> (crashed s \<longrightarrow> closed s)"

lemmas section_defs = goto_def write_enter_def write_finish_def write_give_up_def read_finish_def
  close_chan_def Let_def

text \<open>Notifications change nothing but who is asleep.\<close>

lemma notify_one_simps [simp]:
  "closed (notify_one who s) = closed s" "writter_in_zone (notify_one who s) = writter_in_zone s"
  "reader_in_zone (notify_one who s) = reader_in_zone s" "item (notify_one who s) = item s"
  "cpcs (notify_one who s) = cpcs s" "crashed (notify_one who s) = crashed s"
  "asleep (notify_one who s) u \<longleftrightarrow> asleep s u \<and> who \<noteq> Some u"
  by (auto simp: notify_one_def split: option.splits)

lemma notify_all_simps [simp]:
  "closed (notify_all cv s) = closed s" "writter_in_zone (notify_all cv s) = writter_in_zone s"
  "reader_in_zone (notify_all cv s) = reader_in_zone s" "item (notify_all cv s) = item s"
  "cpcs (notify_all cv s) = cpcs s" "crashed (notify_all cv s) = crashed s"
  "asleep (notify_all cv s) u \<longleftrightarrow> asleep s u \<and> \<not> sleeper cv s u"
  by (auto simp: notify_all_def)

lemma in_zone_asleep [simp]:
  "in_zone (notify_one who s) t = in_zone s t" "in_zone (notify_all cv s) t = in_zone s t"
  "in_zone (s\<lparr>asleep := f\<rparr>) t = in_zone s t"
  by (simp_all add: in_zone_def)

lemma deref_asleep [simp]:
  "deref_item (notify_one who s) = deref_item s" "deref_item (notify_all cv s) = deref_item s"
  "deref_item (s\<lparr>asleep := f\<rparr>) = deref_item s"
  by (simp_all add: deref_item_def cong: option.case_cong)

lemma in_flight_asleep [simp]:
  "in_flight (notify_one who s) = in_flight s" "in_flight (notify_all cv s) = in_flight s"
  "in_flight (s\<lparr>asleep := f\<rparr>) = in_flight s"
  by (simp_all add: in_flight_def)

lemma got_append [simp]: "got (es @ fs) = got es @ got fs"
  by (induction es rule: got.induct) auto

lemma written_append [simp]: "written (es @ fs) = written es @ written fs"
  by (induction es rule: written.induct) auto

lemma zone_ok_new: "zone_ok chan_new"
  by (simp add: zone_ok_def chan_new_def in_zone_def)

lemma zone_ok_step: "cstep s e s' \<Longrightarrow> zone_ok s \<Longrightarrow> zone_ok s'"
  by (induction rule: cstep.induct)
    (auto simp: zone_ok_def in_zone_def section_defs may_enter_def handshaken_def may_read_def
      simp del: in_zone_asleep split: if_splits option.splits)

interpretation zone: labelled_invariant chan_new cstep "\<lambda>es s. zone_ok s"
  by unfold_locales (auto intro: zone_ok_new zone_ok_step)

text \<open>The value in the zone while a writer is there.\<close>

lemma zone_ok_deref:
  assumes "zone_ok s" and "writter_in_zone s"
  obtains w v where "item s = Some w" and "cpcs s w = CInZone v" and "deref_item s = Some v"
    and "\<And>u. in_zone s u \<Longrightarrow> u = w"
  using assms by (auto simp: zone_ok_def in_zone_def deref_item_def split: option.splits)

lemma deref_goto_other:
  assumes "zone_ok s" and "writter_in_zone s" and "\<not> in_zone s t"
  shows "deref_item (goto t p s) = deref_item s"
  using assms by (auto simp: zone_ok_def in_zone_def deref_item_def goto_def split: option.splits)

lemma reader_needs_writter: "zone_ok s \<Longrightarrow> reader_in_zone s \<Longrightarrow> writter_in_zone s"
  by (auto simp: zone_ok_def split: if_splits)

lemma in_flight_goto:
  assumes "zone_ok s" and "\<not> in_zone s t"
  shows "in_flight (goto t p s) = in_flight s"
  using assms deref_goto_other [of s t p] reader_needs_writter [of s]
  by (auto simp: in_flight_def goto_def)

lemma in_flight_goto_notify:
  assumes "zone_ok s" and "\<not> in_zone s t"
  shows "in_flight (goto t p (notify_all cv s)) = in_flight s"
proof -
  have "zone_ok (notify_all cv s)" using assms(1) by (auto simp: zone_ok_def split: option.splits if_splits)
  then show ?thesis using in_flight_goto [of "notify_all cv s" t p] assms(2) by simp
qed

lemma in_flight_crash: "in_flight (s\<lparr>crashed := b\<rparr>) = in_flight s"
  by (cases "item s") (simp_all add: in_flight_def deref_item_def)

lemma in_flight_closed: "in_flight (s\<lparr>closed := b\<rparr>) = in_flight s"
  by (cases "item s") (simp_all add: in_flight_def deref_item_def)

lemma deref_reader: "deref_item (s\<lparr>reader_in_zone := b\<rparr>) = deref_item s"
  by (cases "item s") (simp_all add: deref_item_def)

text \<open>One step keeps: what readers got is what writers wrote, plus the value in flight.\<close>

lemma handover_step:
  assumes "cstep s e s'" and ok: "zone_ok s" and "got es = map Some (written es) @ in_flight s"
  shows "got (es @ [e]) = map Some (written (es @ [e])) @ in_flight s'"
  using assms(1)
proof cases
  case (c_enter t v)
  then have nw: "\<not> writter_in_zone s" by (simp add: may_enter_def)
  then have "\<not> reader_in_zone s" using ok reader_needs_writter by blast
  then show ?thesis using c_enter assms(3) by (simp add: in_flight_def section_defs)
next
  case (c_written t v)
  then have wz: "writter_in_zone s" using ok reader_needs_writter by blast
  obtain w v' where w: "cpcs s w = CInZone v'" "deref_item s = Some v'"
    "\<And>u. in_zone s u \<Longrightarrow> u = w" by (rule zone_ok_deref [OF ok wz]) blast
  have "t = w" using w(3) c_written by (auto simp: in_zone_def)
  then show ?thesis using c_written assms(3) w by (simp add: in_flight_def section_defs)
next
  case (c_zone_timeout t v)
  then show ?thesis using assms(3) by (simp add: in_flight_def section_defs handshaken_def)
next
  case (c_got t)
  then have r: "\<not> reader_in_zone s" and w: "writter_in_zone s" by (simp_all add: may_read_def)
  have "deref_item s' = deref_item s"
    using deref_goto_other [OF ok w, of t COut] c_got
    by (simp add: read_finish_def in_zone_def deref_reader)
  then show ?thesis using c_got r assms(3) by (simp add: in_flight_def section_defs)
next
  case (c_read_closed t)
  then show ?thesis using assms(3) in_flight_goto [OF ok, of t COut]
    by (simp add: read_finish_def in_zone_def)
qed (use assms(3) in \<open>auto simp: in_flight_goto [OF ok] in_flight_goto_notify [OF ok] in_zone_def in_flight_crash in_flight_closed
    write_enter_def write_finish_def close_chan_def handshaken_def\<close>)

interpretation handover: labelled_invariant chan_new cstep
  "\<lambda>es s. zone_ok s \<and> got es = map Some (written es) @ in_flight s"
proof unfold_locales
  show "zone_ok (chan_new :: 'a chan)
      \<and> got [] = map Some (written []) @ in_flight (chan_new :: 'a chan)"
    using zone_ok_new by (simp add: in_flight_def) (simp add: chan_new_def)
next
  fix es and s t :: "'a chan" and e
  assume "zone_ok s \<and> got es = map Some (written es) @ in_flight s" and "cstep s e t"
  then show "zone_ok t \<and> got (es @ [e]) = map Some (written (es @ [e])) @ in_flight t"
    using zone_ok_step handover_step by blast
qed

lemma in_flight_no_dangling:
  assumes "zone_ok s"
  shows "None \<notin> set (in_flight s)"
proof (cases "reader_in_zone s")
  case True
  then have "writter_in_zone s" using assms reader_needs_writter by blast
  then show ?thesis using assms by (auto simp: in_flight_def elim: zone_ok_deref)
next
  case False
  then show ?thesis by (simp add: in_flight_def)
qed

lemma got_no_dangling:
  assumes "lrun cstep chan_new es s"
  shows "None \<notin> set (got es)"
  using handover.run_invariant [OF assms] in_flight_no_dangling by fastforce

section \<open>The interface\<close>

text \<open>
  An unbuffered channel has no pending value between two steps. The value of the writer in the zone
  goes through the channel at the moment a reader takes it; from then on the writer's call has
  had its effect and only has to return.
\<close>

definition abs_call :: "bool \<Rightarrow> 'v cpc \<Rightarrow> 'v acall" where
  "abs_call taken p =
     (case p of
        COut \<Rightarrow> ANone
      | CWriting v \<Rightarrow> AWrite v
      | CInZone v \<Rightarrow> if taken then AWrote v else AWrite v
      | CReading \<Rightarrow> ARead
      | _ \<Rightarrow> AClose)"

definition abs_chan :: "'v chan \<Rightarrow> 'v channel" where
  "abs_chan s = \<lparr>unread = [], is_closed = closed s, has_crashed = crashed s,
     calls = abs_call (reader_in_zone s) \<circ> cpcs s\<rparr>"

fun visible :: "'v cevent \<Rightarrow> 'v outcome list" where
  "visible (EWrite t v) = [CallWrite t v]"
| "visible (EWritten t v) = [RetWrite t v]"
| "visible (EWriteTimeout t) = [WriteTimedOut t]"
| "visible (EWriteFatal t) = [WriteOnClosed t]"
| "visible (ERead t) = [CallRead t]"
| "visible (EGot t (Some w) (Some v)) = [Wrote w v, ReadValue t v]"
| "visible (EReadClosed t) = [ReadDefault t]"
| "visible (EReadTimeout t) = [ReadTimedOut t]"
| "visible (EClose t) = [Closed t]"
| "visible (ECloseFatal t) = [ClosedAgain t]"
| "visible (ECloseDone t) = [RetClose t]"
| "visible _ = []"

text \<open>A reader always finds the item of a writer.\<close>

definition dangling :: "'v cevent \<Rightarrow> bool" where
  "dangling e \<longleftrightarrow> (\<exists>t w v. e = EGot t w v \<and> (w = None \<or> v = None))"

lemma step_not_dangling: "cstep s e s' \<Longrightarrow> zone_ok s \<Longrightarrow> dangling e = False"
  by (cases rule: cstep.cases) (auto simp: dangling_def may_read_def elim: zone_ok_deref)

interpretation items: labelled_invariant chan_new cstep "\<lambda>es s. zone_ok s \<and> list_all (\<lambda>e. \<not> dangling e) es"
  by unfold_locales (auto intro: zone_ok_new zone_ok_step simp: step_not_dangling)

lemma got_visible:
  "list_all (\<lambda>e. \<not> dangling e) es \<Longrightarrow> got es = map Some (values_read (concat (map visible es)))"
proof (induction es)
  case (Cons e es)
  then show ?case by (cases e rule: visible.cases) (auto simp: dangling_def)
qed simp

lemma abs_call_simps [simp]:
  "abs_call r COut = ANone" "abs_call r (CWriting v) = AWrite v" "abs_call r CReading = ARead"
  "abs_call False (CInZone v) = AWrite v" "abs_call True (CInZone v) = AWrote v"
  "abs_call r CNotifyWriters = AClose" "abs_call r CNotifyReaders = AClose"
  "abs_call r CNotifyHandshake = AClose"
  by (simp_all add: abs_call_def)

text \<open>When the reader's flag changes, only the thread in the zone notices.\<close>

lemma calls_taken:
  assumes "zone_ok s" and "cpcs s w = CInZone v"
  shows "abs_call r \<circ> cpcs s = (abs_call r' \<circ> cpcs s)(w := abs_call r (CInZone v))"
proof
  fix u
  show "(abs_call r \<circ> cpcs s) u = ((abs_call r' \<circ> cpcs s)(w := abs_call r (CInZone v))) u"
    using assms by (cases "cpcs s u") (auto simp: zone_ok_def in_zone_def abs_call_def split: if_splits option.splits)
qed

lemma visible_got:
  assumes "zone_ok s" and "\<not> crashed s" and "cpcs s t = CReading" and "may_read s" and "\<not> closed s"
  shows "lrun channel_step (abs_chan s) (visible (EGot t (item s) (deref_item s))) (abs_chan (read_finish t who s))"
proof -
  have wz: "writter_in_zone s" "\<not> reader_in_zone s" using assms(4,5) by (simp_all add: may_read_def)
  obtain w v where w: "item s = Some w" "cpcs s w = CInZone v" "deref_item s = Some v"
    by (rule zone_ok_deref [OF assms(1) wz(1)]) blast
  let ?c = "abs_chan s"
  let ?d = "(call_at w (AWrote v) ?c)\<lparr>unread := [v]\<rparr>"
  have "channel_step ?c (Wrote w v) ?d"
    using ch_wrote [of ?c w v] assms(2,5) w(2) wz(2) by (simp add: abs_chan_def)
  moreover have "channel_step ?d (ReadValue t v) ((call_at t ANone ?d)\<lparr>unread := []\<rparr>)"
    using assms(2,3) w(2) by (intro ch_read) (auto simp: abs_chan_def call_at_def)
  moreover have "(call_at t ANone ?d)\<lparr>unread := []\<rparr> = abs_chan (read_finish t who s)"
    using assms(5) calls_taken [OF assms(1) w(2), of True "reader_in_zone s"] wz(2)
    by (simp add: abs_chan_def call_at_def section_defs fun_upd_comp)
  ultimately show ?thesis
    using w(1,3) by (auto intro!: lrun_Cons [of channel_step] lrun.lrun_nil)
qed

lemma visible_step:
  assumes "cstep s e s'" and ok: "zone_ok s"
  shows "lrun channel_step (abs_chan s) (visible e) (abs_chan s')"
  using assms(1)
proof cases
  case (c_got t who)
  then show ?thesis using visible_got [OF ok] by simp
next
  case (c_enter t v who)
  then have "\<not> reader_in_zone s" using ok by (auto simp: zone_ok_def may_enter_def)
  then have "abs_chan s' = abs_chan s"
    using c_enter by (simp add: abs_chan_def section_defs fun_upd_comp fun_upd_idem)
  then show ?thesis using c_enter by (simp add: lrun.lrun_nil)
next
  case (c_written t v who)
  have "abs_chan s' = call_at t ANone (abs_chan s)"
    using c_written calls_taken [OF ok c_written(4), of False True]
    by (simp add: abs_chan_def call_at_def section_defs fun_upd_comp)
  then show ?thesis using c_written
    by (auto simp: channel_step_simps abs_chan_def intro!: lrun_single)
qed (auto simp: abs_chan_def section_defs may_enter_def handshaken_def may_read_def
    channel_step_simps call_at_def fun_upd_comp fun_upd_idem
    intro!: lrun_single lrun.lrun_nil)

interpretation uc: channel_implementation chan_new cstep "\<lambda>es s. zone_ok s" abs_chan visible
proof (rule channel_implementation.intro)
  show "labelled_invariant chan_new cstep (\<lambda>es s :: 'a chan. zone_ok s)"
    using zone_ok_new zone_ok_step by unfold_locales blast+
  show "abs_chan (chan_new :: 'a chan) = channel_new"
    by (simp add: abs_chan_def chan_new_def channel_new_def comp_def)
next
  fix es and s t :: "'a chan" and e
  assume "zone_ok s" and "cstep s e t"
  from this(2,1) show "lrun channel_step (abs_chan s) (visible e) (abs_chan t)" by (rule visible_step)
qed

section \<open>Wake-ups\<close>

text \<open>
  No wake-up is lost. Only a thread at a wait is asleep. While the channel is open: if a writer
  waits in the zone and a reader sleeps, some reader is awake; a writer whose value was taken is
  awake; if the zone is free and a writer sleeps, some writer is awake. Once it is closed, a
  sleeping thread has its notification still to come from the thread in \<open>Close\<close>.
\<close>

definition sleeps_at_wait :: "'v chan \<Rightarrow> bool" where
  "sleeps_at_wait s \<longleftrightarrow> (\<forall>t. asleep s t \<longrightarrow> waits_on (cpcs s t) \<noteq> None)"

definition readers_woken :: "'v chan \<Rightarrow> bool" where
  "readers_woken s \<longleftrightarrow> (\<not> closed s \<and> may_read s \<and> (\<exists>t. sleeper readers s t)
     \<longrightarrow> (\<exists>t. cpcs s t = CReading \<and> \<not> asleep s t))"

definition zone_woken :: "'v chan \<Rightarrow> bool" where
  "zone_woken s \<longleftrightarrow> (\<not> closed s \<and> handshaken s \<longrightarrow> (\<forall>t. \<not> sleeper handshake s t))"

definition writers_woken :: "'v chan \<Rightarrow> bool" where
  "writers_woken s \<longleftrightarrow> (\<not> closed s \<and> may_enter s \<and> (\<exists>t. sleeper writers s t)
     \<longrightarrow> (\<exists>t v. cpcs s t = CWriting v \<and> \<not> asleep s t))"

definition closing_wakes :: "'v chan \<Rightarrow> bool" where
  "closing_wakes s \<longleftrightarrow> (closed s \<longrightarrow>
     ((\<exists>t. sleeper writers s t) \<longrightarrow> (\<exists>u. cpcs s u = CNotifyWriters))
   \<and> ((\<exists>t. sleeper readers s t) \<longrightarrow> (\<exists>u. cpcs s u = CNotifyWriters \<or> cpcs s u = CNotifyReaders))
   \<and> ((\<exists>t. sleeper handshake s t) \<longrightarrow>
        (\<exists>u. cpcs s u = CNotifyWriters \<or> cpcs s u = CNotifyReaders \<or> cpcs s u = CNotifyHandshake)))"

lemma waits_on_simps [simp]:
  "waits_on COut = None" "waits_on (CWriting v) = Some writers" "waits_on (CInZone v) = Some handshake"
  "waits_on CReading = Some readers" "waits_on CNotifyWriters = None" "waits_on CNotifyReaders = None"
  "waits_on CNotifyHandshake = None"
  by (simp_all add: waits_on_def)

lemma waits_on_iff:
  "waits_on p = Some readers \<longleftrightarrow> p = CReading" "waits_on p = Some handshake \<longleftrightarrow> (\<exists>v. p = CInZone v)"
  "waits_on p = Some writers \<longleftrightarrow> (\<exists>v. p = CWriting v)"
  by (cases p; simp)+

lemmas wake_defs = section_defs sleeper_def waits_on_iff may_read_def may_enter_def handshaken_def
  wait_over_def

lemma may_notify_ex:
  obtains who where "may_notify cv who s"
proof (cases "\<exists>u. sleeper cv s u")
  case True
  then obtain u where "sleeper cv s u" by blast
  then show ?thesis by (intro that [of "Some u"]) (simp add: may_notify_def)
next
  case False
  then show ?thesis by (intro that [of None]) (simp add: may_notify_def)
qed

lemma sleeps_at_wait_step: "cstep s e s' \<Longrightarrow> sleeps_at_wait s \<Longrightarrow> sleeps_at_wait s'"
  by (cases rule: cstep.cases) (auto simp: sleeps_at_wait_def section_defs split: if_splits)

text \<open>A step that wakes nobody keeps these, if it makes no predicate true and takes no thread that is awake.\<close>

lemma readers_woken_mono:
  assumes "readers_woken s"
    and "\<not> closed s' \<Longrightarrow> may_read s' \<Longrightarrow> \<not> closed s \<and> may_read s"
    and "\<And>t. \<not> closed s' \<Longrightarrow> may_read s' \<Longrightarrow> sleeper readers s' t \<Longrightarrow> sleeper readers s t"
    and "\<And>t. \<not> closed s' \<Longrightarrow> may_read s' \<Longrightarrow> cpcs s t = CReading \<Longrightarrow> \<not> asleep s t \<Longrightarrow>
           cpcs s' t = CReading \<and> \<not> asleep s' t"
  shows "readers_woken s'"
  using assms unfolding readers_woken_def by blast

lemma writers_woken_mono:
  assumes "writers_woken s"
    and "\<not> closed s' \<Longrightarrow> may_enter s' \<Longrightarrow> \<not> closed s \<and> may_enter s"
    and "\<And>t. \<not> closed s' \<Longrightarrow> may_enter s' \<Longrightarrow> sleeper writers s' t \<Longrightarrow> sleeper writers s t"
    and "\<And>t v. \<not> closed s' \<Longrightarrow> may_enter s' \<Longrightarrow> cpcs s t = CWriting v \<Longrightarrow> \<not> asleep s t \<Longrightarrow>
           cpcs s' t = CWriting v \<and> \<not> asleep s' t"
  shows "writers_woken s'"
  using assms unfolding writers_woken_def by blast

definition closer :: "'v cpc \<Rightarrow> bool" where
  "closer p \<longleftrightarrow> p = CNotifyWriters \<or> p = CNotifyReaders \<or> p = CNotifyHandshake"

lemma closing_wakes_mono:
  assumes "closing_wakes s" and "closed s' \<Longrightarrow> closed s"
    and "\<And>cv t. closed s' \<Longrightarrow> sleeper cv s' t \<Longrightarrow> sleeper cv s t"
    and "\<And>u. closer (cpcs s u) \<Longrightarrow> cpcs s' u = cpcs s u"
  shows "closing_wakes s'"
  using assms unfolding closing_wakes_def closer_def by metis

lemma readers_woken_step:
  assumes "cstep s e s'" and "zone_ok s" and "readers_woken s"
  shows "readers_woken s'"
  using assms(1)
proof cases
  case (c_enter t v who)
  show ?thesis
  proof (cases who)
    case None
    have "\<not> sleeper readers s' x" for x using c_enter None by (auto simp: wake_defs may_notify_def)
    then show ?thesis by (simp add: readers_woken_def)
  next
    case (Some u)
    then have "cpcs s u = CReading" using c_enter by (simp add: may_notify_def sleeper_def waits_on_iff)
    then have "cpcs s' u = CReading \<and> \<not> asleep s' u" using c_enter Some by (auto simp: section_defs)
    then show ?thesis by (auto simp: readers_woken_def)
  qed
qed (rule readers_woken_mono [OF assms(3)];
    use assms(2) in \<open>auto simp: wake_defs zone_ok_def split: if_splits cond_var.splits\<close>)+

lemma zone_woken_step:
  assumes "cstep s e s'" and "zone_ok s" and "zone_woken s"
  shows "zone_woken s'"
  using assms(1)
proof cases
  case (c_got t who)
  then have "writter_in_zone s" by (simp add: may_read_def)
  then obtain w where w: "\<And>u. in_zone s u \<Longrightarrow> u = w" by (rule zone_ok_deref [OF assms(2)]) blast
  show ?thesis
  proof (cases who)
    case None
    then show ?thesis using c_got by (auto simp: zone_woken_def wake_defs may_notify_def split: if_splits)
  next
    case (Some u)
    with c_got have "in_zone s u" by (auto simp: may_notify_def sleeper_def waits_on_iff in_zone_def)
    with w have "x = u" if "in_zone s x" for x using that by metis
    then show ?thesis using c_got Some by (auto simp: zone_woken_def wake_defs in_zone_def split: if_splits)
  qed
qed (use assms(2,3) in \<open>auto simp: zone_woken_def wake_defs zone_ok_def split: if_splits cond_var.splits\<close>)

text \<open>What the two ends of \<open>Write\<close> that leave the zone have in common.\<close>

lemma writers_woken_leave:
  assumes "may_notify writers who s" and "cpcs s t = CInZone v"
    and "cpcs s' = (cpcs s)(t := COut)" and "\<And>u. asleep s' u \<Longrightarrow> asleep s u \<and> who \<noteq> Some u"
  shows "writers_woken s'"
proof (cases who)
  case None
  have "\<not> sleeper writers s' x" for x using assms None by (auto simp: sleeper_def may_notify_def)
  then show ?thesis by (simp add: writers_woken_def)
next
  case (Some u)
  then obtain x where "cpcs s u = CWriting x" using assms(1) by (auto simp: may_notify_def sleeper_def waits_on_iff)
  then have "cpcs s' u = CWriting x \<and> \<not> asleep s' u" using assms Some by auto
  then show ?thesis by (auto simp: writers_woken_def)
qed

lemma writers_woken_step:
  assumes "cstep s e s'" and "zone_ok s" and "writers_woken s"
  shows "writers_woken s'"
  using assms(1)
proof cases
  case (c_written t v who)
  then show ?thesis by (intro writers_woken_leave [of who s t v]) (auto simp: section_defs split: if_splits)
next
  case (c_zone_timeout t v who)
  then show ?thesis by (intro writers_woken_leave [of who s t v]) (auto simp: section_defs split: if_splits)
qed (rule writers_woken_mono [OF assms(3)];
    use assms(2) in \<open>auto simp: wake_defs zone_ok_def split: if_splits cond_var.splits\<close>)+

lemma closing_wakes_step:
  assumes "cstep s e s'" and ok: "zone_ok s" and inv: "closing_wakes s"
  shows "closing_wakes s'"
  using assms(1)
proof cases
  case (c_close t)
  then have "cpcs s' t = CNotifyWriters" by (simp add: section_defs)
  then show ?thesis by (auto simp: closing_wakes_def)
next
  case (c_notify_writers t)
  then have "cpcs s' t = CNotifyReaders" and "\<not> sleeper writers s' x" for x
    by (auto simp: section_defs sleeper_def)
  then show ?thesis by (auto simp: closing_wakes_def)
next
  case (c_notify_readers t)
  have w: "sleeper writers s x" if "sleeper writers s' x" for x
    using that c_notify_readers by (auto simp: section_defs sleeper_def split: if_splits)
  have u: "cpcs s' u = CNotifyWriters" if "cpcs s u = CNotifyWriters" for u
    using that c_notify_readers by (auto simp: section_defs)
  have "cpcs s' t = CNotifyHandshake" "\<not> sleeper readers s' x" for x
    using c_notify_readers by (auto simp: section_defs sleeper_def)
  moreover have "closed s' = closed s" using c_notify_readers by (simp add: section_defs)
  ultimately show ?thesis using inv w u unfolding closing_wakes_def by metis
next
  case (c_notify_handshake t who)
  have z: "\<not> sleeper handshake s' x" for x
  proof
    assume x: "sleeper handshake s' x"
    then have xs: "sleeper handshake s x" "who \<noteq> Some x"
      using c_notify_handshake by (auto simp: section_defs sleeper_def split: if_splits)
    then obtain u where u: "who = Some u" "sleeper handshake s u"
      using c_notify_handshake(5) by (cases who) (auto simp: may_notify_def)
    then have "in_zone s u" "in_zone s x" using xs by (auto simp: sleeper_def waits_on_iff in_zone_def)
    then have "u = x" using ok by (auto simp: zone_ok_def split: if_splits option.splits)
    with u xs show False by simp
  qed
  have w: "sleeper cv s x" if "sleeper cv s' x" for cv x
    using that c_notify_handshake by (auto simp: section_defs sleeper_def split: if_splits)
  have u: "cpcs s' u = cpcs s u" if "cpcs s u = CNotifyWriters \<or> cpcs s u = CNotifyReaders" for u
    using that c_notify_handshake by (auto simp: section_defs)
  have "closed s' = closed s" using c_notify_handshake by (simp add: section_defs)
  then show ?thesis using inv z w u unfolding closing_wakes_def by metis
qed (rule closing_wakes_mono [OF inv];
    auto simp: closer_def section_defs sleeper_def wait_over_def may_enter_def handshaken_def may_read_def
      split: if_splits cond_var.splits)+

interpretation wakeups: labelled_invariant chan_new cstep
  "\<lambda>es s. zone_ok s \<and> sleeps_at_wait s \<and> readers_woken s \<and> zone_woken s \<and> writers_woken s \<and> closing_wakes s"
proof unfold_locales
  show "zone_ok (chan_new :: 'a chan) \<and> sleeps_at_wait (chan_new :: 'a chan) \<and> readers_woken (chan_new :: 'a chan)
      \<and> zone_woken (chan_new :: 'a chan) \<and> writers_woken (chan_new :: 'a chan) \<and> closing_wakes (chan_new :: 'a chan)"
    using zone_ok_new [where 'a = 'a]
    by (auto simp: chan_new_def sleeps_at_wait_def readers_woken_def zone_woken_def writers_woken_def
        closing_wakes_def sleeper_def)
next
  fix es and s t :: "'a chan" and e
  assume "zone_ok s \<and> sleeps_at_wait s \<and> readers_woken s \<and> zone_woken s \<and> writers_woken s \<and> closing_wakes s"
    and "cstep s e t"
  then show "zone_ok t \<and> sleeps_at_wait t \<and> readers_woken t \<and> zone_woken t \<and> writers_woken t \<and> closing_wakes t"
    using zone_ok_step sleeps_at_wait_step readers_woken_step zone_woken_step writers_woken_step
      closing_wakes_step by blast
qed

section \<open>The limit of the untimed operations\<close>

text \<open>
  The limit of a year is far from the end of the clock for the first two centuries of uptime; the
  largest duration is not, whatever the time: the product wraps round to a negative number.
\<close>

lemma kInifinity_waits:
  assumes "0 \<le> sint now" and "sint now < 2 ^ 63 - 31536000000000000"
  shows "sint (wait_deadline now kInifinity) = sint now + 31536000000000000"
    and "\<not> times_out_at_once now kInifinity"
proof -
  have c: "1000 * kInifinity = (31536000000000000 :: 64 word)" by (simp add: kInifinity_def)
  show 1: "sint (wait_deadline now kInifinity) = sint now + 31536000000000000"
    using assms by (simp add: wait_deadline_def c sint_word_ariths(1) signed_take_bit_int_eq_self)
  then show "\<not> times_out_at_once now kInifinity" by (simp add: times_out_at_once_def)
qed

lemma longest_wait_times_out:
  assumes "0 \<le> sint now"
  shows "times_out_at_once now (2 ^ 63 - 1)"
proof -
  have c: "1000 * (2 ^ 63 - 1) = (- 1000 :: 64 word)" by simp
  have "sint (now + (- 1000)) = sint now - 1000"
    using assms sint_lt [of now] by (simp add: sint_word_ariths(1,2) signed_take_bit_int_eq_self)
  then show ?thesis by (simp only: times_out_at_once_def wait_deadline_def c)
qed

section \<open>A run\<close>

text \<open>A reader falls asleep, a writer enters the zone and wakes it.\<close>

abbreviation run_asleep :: "nat chan" where
  "run_asleep \<equiv> (goto 1 CReading chan_new)\<lparr>asleep := (\<lambda>_. False)(1 := True)\<rparr>"

abbreviation run_zone :: "nat chan" where
  "run_zone \<equiv> write_enter 0 5 (Some 1) (goto 0 (CWriting 5) run_asleep)"

abbreviation run_read :: "nat chan" where
  "run_read \<equiv> read_finish 1 (Some 0) run_zone"

lemmas eval_chan = section_defs chan_new_def deref_item_def may_enter_def may_read_def
  handshaken_def may_notify_def sleeper_def wait_over_def notify_one_def

abbreviation zone_events :: "nat cevent list" where
  "zone_events \<equiv> [ERead 1, ESleep 1, EWrite 0 5, EEnter 0]"

abbreviation read_events :: "nat cevent list" where
  "read_events \<equiv> zone_events @ [EGot 1 (Some 0) (Some 5)]"

lemma zone_run: "lrun cstep chan_new zone_events run_zone"
proof -
  have 1: "cstep chan_new (ERead 1) (goto 1 CReading (chan_new :: nat chan))"
    by (rule c_read) (simp_all add: eval_chan)
  have "cstep (goto 1 CReading (chan_new :: nat chan)) (ESleep 1)
      ((goto 1 CReading chan_new)\<lparr>asleep := (asleep (goto 1 CReading (chan_new :: nat chan)))(1 := True)\<rparr>)"
    by (rule c_sleep [where cv = readers]) (simp_all add: eval_chan)
  then have 2: "cstep (goto 1 CReading (chan_new :: nat chan)) (ESleep 1) run_asleep"
    by (simp add: eval_chan)
  have 3: "cstep run_asleep (EWrite 0 5) (goto 0 (CWriting 5) run_asleep)"
    by (rule c_write) (simp_all add: eval_chan)
  have 4: "cstep (goto 0 (CWriting 5) run_asleep) (EEnter 0) run_zone"
    by (rule c_enter) (simp_all add: eval_chan)
  show ?thesis
    by (rule lrun_Cons [of cstep, OF 1 lrun_Cons [of cstep, OF 2 lrun_Cons [of cstep, OF 3
          lrun_Cons [of cstep, OF 4]]]]) (rule lrun.lrun_nil)
qed

lemma read_run: "lrun cstep chan_new read_events run_read"
proof -
  have "cstep run_zone (EGot 1 (item run_zone) (deref_item run_zone)) run_read"
    by (rule c_got) (simp_all add: eval_chan)
  moreover have "deref_item run_zone = Some 5" "item run_zone = Some 0" by (simp_all add: eval_chan)
  ultimately show ?thesis using zone_run by (metis lrun.lrun_snoc)
qed

section \<open>Properties\<close>

text \<open>
  C5. The hand-over is exact: in every run of any number of writers and readers, with timeouts
  and closing, the values readers received are the values of the \<open>Write\<close> calls that returned
  without a timeout, in the same order, followed by at most one value whose writer is about to
  return. So a value is never read twice, a \<open>Write\<close> that reported a timeout was never read, and
  no reader follows a dangling \<open>item_\<close>.
\<close>

theorem channel_exact_handover:
  assumes "lrun cstep chan_new es s"
  shows "got es = map Some (written es) @ in_flight s \<and> length (in_flight s) \<le> 1
    \<and> None \<notin> set (got es)"
proof -
  have inv: "zone_ok s" "got es = map Some (written es) @ in_flight s"
    using handover.run_invariant [OF assms] by auto
  then show ?thesis using got_no_dangling [OF assms] by (auto simp: in_flight_def)
qed

theorem channel_exact_handover_witness:
  "lrun cstep chan_new read_events run_read \<and> in_flight run_read = [Some 5]
   \<and> got read_events = map Some (written read_events) @ in_flight run_read"
  using read_run channel_exact_handover [OF read_run] by (simp add: in_flight_def eval_chan)

text \<open>
  C25. The invariants the code states: at most one writer is in the zone, \<open>writter_in_zone_\<close> says
  whether there is one, and a reader is in the zone only together with a writer.
\<close>

theorem channel_zone_invariants:
  assumes "lrun cstep chan_new es s"
  shows "(writter_in_zone s \<longleftrightarrow> (\<exists>t. in_zone s t))
    \<and> (\<forall>t u. in_zone s t \<and> in_zone s u \<longrightarrow> t = u)
    \<and> (reader_in_zone s \<longrightarrow> writter_in_zone s)"
proof -
  have "zone_ok s" by (rule zone.run_invariant [OF assms])
  then show ?thesis by (auto simp: zone_ok_def split: if_splits option.splits)
qed

theorem channel_zone_invariants_witness:
  "in_zone run_read 0 \<and> writter_in_zone run_read \<and> reader_in_zone run_read
   \<and> {t. in_zone run_read t} = {0}"
proof -
  have "in_zone run_read 0" and "writter_in_zone run_read" and "reader_in_zone run_read"
    by (simp_all add: in_zone_def eval_chan)
  then show ?thesis using channel_zone_invariants [OF read_run] by auto
qed

text \<open>
  C26. No lost wake-up: while the channel is open, if one thread is in \<open>Write\<close> and one in \<open>Read\<close>, then
  some thread is awake that can enter the zone, take a value, or return from \<open>Write\<close>, whoever
  sleeps and whatever timed out before; and once the channel is closed and no thread is inside
  \<open>Close\<close>, nobody is asleep. The notifications are steps of the model, and a thread that sleeps
  can do none of these.
\<close>

theorem channel_progress:
  assumes "lrun cstep chan_new es s"
  shows "(\<not> closed s \<and> (cpcs s w = CWriting v \<or> cpcs s w = CInZone v) \<and> cpcs s r = CReading \<longrightarrow>
      (\<exists>s' t. \<not> asleep s t
        \<and> (cstep s (EEnter t) s' \<or> (\<exists>x y. cstep s (EGot t x y) s') \<or> (\<exists>x. cstep s (EWritten t x) s'))))
    \<and> (closed s \<and> (\<forall>u. \<not> closer (cpcs s u)) \<longrightarrow> (\<forall>t. \<not> asleep s t))"
proof (intro conjI impI; (elim conjE)?)
  note inv = wakeups.run_invariant [OF assms]
  have ok: "zone_ok s" using inv by blast
  {
    assume open_s: "\<not> closed s" and w: "cpcs s w = CWriting v \<or> cpcs s w = CInZone v" and r: "cpcs s r = CReading"
    have live: "\<not> crashed s" using ok open_s by (auto simp: zone_ok_def)
    consider "\<not> writter_in_zone s" | "writter_in_zone s" "\<not> reader_in_zone s" | "reader_in_zone s" by blast
    then show "\<exists>s' t. \<not> asleep s t
        \<and> (cstep s (EEnter t) s' \<or> (\<exists>x y. cstep s (EGot t x y) s') \<or> (\<exists>x. cstep s (EWritten t x) s'))"
    proof cases
      case 1
      then have "cpcs s w = CWriting v" using w ok by (auto simp: zone_ok_def in_zone_def)
      then obtain t x where t: "cpcs s t = CWriting x" "\<not> asleep s t"
        using inv 1 open_s by (cases "asleep s w") (auto simp: writers_woken_def sleeper_def may_enter_def)
      obtain who where "may_notify readers who s" by (rule may_notify_ex)
      then have "cstep s (EEnter t) (write_enter t x who s)"
        using c_enter [OF live t] 1 open_s by (simp add: may_enter_def)
      then show ?thesis using t(2) by blast
    next
      case 2
      then obtain t where t: "cpcs s t = CReading" "\<not> asleep s t"
        using inv r open_s by (cases "asleep s r") (auto simp: readers_woken_def sleeper_def may_read_def)
      obtain who where "may_notify handshake who s" by (rule may_notify_ex)
      then have "cstep s (EGot t (item s) (deref_item s)) (read_finish t who s)"
        using c_got [OF live t] 2 open_s by (simp add: may_read_def)
      then show ?thesis using t(2) by blast
    next
      case 3
      then have "writter_in_zone s" using ok reader_needs_writter by blast
      then obtain u x where u: "cpcs s u = CInZone x" by (rule zone_ok_deref [OF ok]) blast
      then have a: "\<not> asleep s u" using inv 3 open_s by (auto simp: zone_woken_def sleeper_def handshaken_def)
      obtain who where "may_notify writers who s" by (rule may_notify_ex)
      then have "cstep s (EWritten u x) (write_finish u who s)"
        using c_written [OF live u a] 3 by (simp add: handshaken_def)
      then show ?thesis using a by blast
    qed
  next
    assume "closed s" and "\<forall>u. \<not> closer (cpcs s u)"
    then have "\<not> sleeper cv s t" for cv t
      using inv by (cases cv) (auto simp: closing_wakes_def closer_def)
    then show "\<forall>t. \<not> asleep s t" using inv by (auto simp: sleeps_at_wait_def sleeper_def)
  }
qed

theorem channel_progress_witness:
  "\<exists>s' t. \<not> asleep run_zone t
     \<and> (cstep run_zone (EEnter t) s' \<or> (\<exists>x y. cstep run_zone (EGot t x y) s') \<or> (\<exists>x. cstep run_zone (EWritten t x) s'))"
proof -
  have "\<not> closed run_zone" "cpcs run_zone 0 = CInZone 5" "cpcs run_zone 1 = CReading" by (simp_all add: eval_chan)
  then show ?thesis using channel_progress [OF zone_run, of 0 5 1] by blast
qed

text \<open>
  C14. The unbuffered channel implements the interface \<open>Channel\<close>: every run, with the calls and returns
  of each thread as they are and the value of the writer in the zone taken to go through the
  channel when a reader takes it, is a run of the abstract channel; what the readers got is what
  the abstract channel's readers got; no value is pending in between; and the values of a
  thread's \<open>Write\<close> calls that returned well are those it put into the channel, once each, but for
  the call that is about to return.
\<close>

theorem channel_implements_interface:
  assumes "lrun cstep chan_new es s"
  shows "lrun channel_step channel_new (concat (map visible es)) (abs_chan s)
    \<and> got es = map Some (values_read (concat (map visible es)))
    \<and> wrote (concat (map visible es)) = values_read (concat (map visible es))
    \<and> wrote_by t (concat (map visible es))
        = returned_to t (concat (map visible es)) @ about_to_return (calls (abs_chan s) t)"
proof (intro conjI)
  show "lrun channel_step channel_new (concat (map visible es)) (abs_chan s)"
    by (rule uc.refines_channel [OF assms])
  show "got es = map Some (values_read (concat (map visible es)))"
    using items.run_invariant [OF assms] got_visible by blast
  show "wrote (concat (map visible es)) = values_read (concat (map visible es))"
    using uc.reads_are_writes [OF assms] by (simp add: abs_chan_def)
  show "wrote_by t (concat (map visible es))
      = returned_to t (concat (map visible es)) @ about_to_return (calls (abs_chan s) t)"
    by (rule uc.writes_return_once [OF assms])
qed

theorem channel_implements_interface_witness:
  "lrun channel_step channel_new [CallRead 1, CallWrite 0 5, Wrote 0 5, ReadValue 1 (5 :: nat)] (abs_chan run_read)
   \<and> got read_events = [Some 5] \<and> about_to_return (calls (abs_chan run_read) 0) = [5]"
  using channel_implements_interface [OF read_run, of 0] by simp

text \<open>
  The process is only ended by misuse: a crash means that the channel was closed, by a second
  \<open>Close\<close> or by a \<open>Write\<close> that no reader had served.
\<close>

theorem channel_crash_only_when_closed:
  assumes "lrun cstep chan_new es s" and "cstep s e s'" and "crashed s'"
  shows "closed s \<and> (\<exists>t. e = ECloseFatal t \<or> e = EWriteFatal t)"
proof -
  have "\<not> crashed s" using assms(2) by (cases rule: cstep.cases) auto
  with assms(2,3) show ?thesis
    by (cases rule: cstep.cases) (auto simp: section_defs handshaken_def split: if_splits)
qed

lemma channel_crash_only_when_closed_witness:
  "\<exists>s s' :: nat chan. lrun cstep chan_new [EClose 0] s \<and> cstep s (ECloseFatal 1) s' \<and> crashed s' \<and> closed s"
proof -
  let ?s = "close_chan 0 (chan_new :: nat chan)"
  let ?s' = "close_chan 1 ?s"
  have 1: "cstep chan_new (EClose 0) ?s" by (rule c_close) (simp_all add: eval_chan)
  have run: "lrun cstep chan_new [EClose 0] ?s"
    by (rule lrun_Cons [of cstep, OF 1]) (rule lrun.lrun_nil)
  have 2: "cstep ?s (ECloseFatal 1) ?s'" by (rule c_close_fatal) (simp_all add: eval_chan)
  have crash: "crashed ?s'" by (simp add: eval_chan)
  from channel_crash_only_when_closed [OF run 2 crash] run 2 crash show ?thesis by blast
qed

end
