(* ===== verification/Defer.thy ===== *)
theory Defer
  imports Jvm_Base
begin

text \<open>
  \<^verbatim>\<open>src/src/ts/common/defer.h\<close>: lambdas that run at the end of a scope. A deferred action is a function on
  the state \<open>'s\<close> of the enclosing code; the objects of a scope are listed in the order of their
  declaration and destroyed in the reverse order, as C++ does on every way out of the scope.
\<close>

section \<open>Scoped lambdas\<close>

record 's scoped_lambda =
  fn :: "'s \<Rightarrow> 's"
  active :: bool

definition MakeScopedLambda :: "('s \<Rightarrow> 's) \<Rightarrow> 's scoped_lambda" where
  "MakeScopedLambda f = \<lparr>fn = f, active = True\<rparr>"

definition lambda_dtor :: "'s scoped_lambda \<Rightarrow> 's \<Rightarrow> 's" where
  "lambda_dtor l s = (if active l then fn l s else s)"

definition run_and_expire :: "'s scoped_lambda \<Rightarrow> 's \<Rightarrow> 's scoped_lambda \<times> 's" where
  "run_and_expire l s = (l\<lparr>active := False\<rparr>, if active l then fn l s else s)"

definition activate :: "'s scoped_lambda \<Rightarrow> 's scoped_lambda" where
  "activate l = l\<lparr>active := True\<rparr>"

definition deactivate :: "'s scoped_lambda \<Rightarrow> 's scoped_lambda" where
  "deactivate l = l\<lparr>active := False\<rparr>"

text \<open>
  The defaulted move constructor: the new object and what is left of the old one. Moving a
  \<open>bool\<close> copies it, and a moved-from closure over references can still be called.
\<close>

definition lambda_move :: "'s scoped_lambda \<Rightarrow> 's scoped_lambda \<times> 's scoped_lambda" where
  "lambda_move l = (\<lparr>fn = fn l, active = active l\<rparr>, l)"

section \<open>Scopes\<close>

definition DEFER :: "('s \<Rightarrow> 's) \<Rightarrow> 's scoped_lambda list \<Rightarrow> 's scoped_lambda list" where
  "DEFER f objs = objs @ [MakeScopedLambda f]"

fun scope_exit :: "'s scoped_lambda list \<Rightarrow> 's \<Rightarrow> 's" where
  "scope_exit [] s = s"
| "scope_exit (l # ls) s = lambda_dtor l (scope_exit ls s)"

section \<open>Lemmas\<close>

lemma scope_exit_append [simp]: "scope_exit (xs @ ys) s = scope_exit xs (scope_exit ys s)"
  by (induction xs) auto

lemma scope_exit_DEFER [simp]: "scope_exit (DEFER f objs) s = scope_exit objs (f s)"
  by (simp add: DEFER_def MakeScopedLambda_def lambda_dtor_def)

section \<open>Properties\<close>

text \<open>
  Deferred actions run once each, the last declared first, on top of whatever else the scope
  has to destroy.
\<close>

lemma defer_runs_in_reverse:
  "scope_exit (fold DEFER fs objs) s = scope_exit objs (foldr (\<lambda>f. f) fs s)"
  by (induction fs arbitrary: objs s) simp_all

text \<open>
  \<open>run_and_expire\<close> runs the action now and never again, also when it is called twice; after
  \<open>deactivate\<close> nothing runs, and \<open>activate\<close> arms the action again.
\<close>

lemma run_and_expire_runs_once:
  "(case run_and_expire (MakeScopedLambda f) s of (l, s1) \<Rightarrow>
      case run_and_expire l s1 of (l', s2) \<Rightarrow> lambda_dtor l' s2) = f s
   \<and> lambda_dtor (deactivate (MakeScopedLambda f)) s = s
   \<and> lambda_dtor (activate (fst (run_and_expire (MakeScopedLambda f) s))) (f s) = f (f s)"
  by (simp add: run_and_expire_def lambda_dtor_def MakeScopedLambda_def deactivate_def
      activate_def)

text \<open>
  A move does not disarm its source: when both objects reach the end of their scope, the
  action runs twice.
\<close>

lemma moved_lambda_runs_twice:
  "(case lambda_move (MakeScopedLambda f) of (target, source) \<Rightarrow> scope_exit [source, target] s)
     = f (f s)"
  by (simp add: lambda_move_def MakeScopedLambda_def lambda_dtor_def)

end
