(* ===== verification/Sysutil.thy ===== *)
theory Sysutil
  imports Defer "HOL-Library.List_Lexorder" "HOL-Library.Char_ord"
begin

text \<open>
  \<^verbatim>\<open>src/src/ts/common/sysutil.cc\<close>: the list of the process's threads, read from the directory
  \<^verbatim>\<open>/proc/self/task\<close>. The answers of \<open>opendir\<close> and of each \<open>readdir_r\<close> are inputs. A
  \<open>std::set<std::string>\<close> is its elements in increasing order, which is the order in which a
  loop visits them.
\<close>

section \<open>Numbers in strings\<close>

text \<open>\<open>std::stoll\<close> in base 10: white space, a sign, digits; anything after them is ignored.\<close>

datatype stoll_error = InvalidArgument | OutOfRange

definition is_space :: "char \<Rightarrow> bool" where
  "is_space c \<longleftrightarrow> c \<in> {CHR '' '', CHR 0x09, CHR 0x0A, CHR 0x0B, CHR 0x0C, CHR 0x0D}"

definition digit_val :: "char \<Rightarrow> nat" where
  "digit_val c = of_char c - 48"

definition is_digit :: "char \<Rightarrow> bool" where
  "is_digit c \<longleftrightarrow> 48 \<le> (of_char c :: nat) \<and> (of_char c :: nat) \<le> 57"

fun digits_val :: "nat \<Rightarrow> string \<Rightarrow> nat" where
  "digits_val acc [] = acc"
| "digits_val acc (c # cs) = digits_val (10 * acc + digit_val c) cs"

definition split_sign :: "string \<Rightarrow> bool \<times> string" where
  "split_sign s =
     (case s of
        [] \<Rightarrow> (False, [])
      | c # cs \<Rightarrow> if c = CHR ''-'' then (True, cs) else if c = CHR ''+'' then (False, cs)
                 else (False, s))"

definition stoll :: "string \<Rightarrow> stoll_error + int" where
  "stoll s =
     (case split_sign (dropWhile is_space s) of (neg, rest) \<Rightarrow>
        (let ds = takeWhile is_digit rest;
             v = (if neg then - int (digits_val 0 ds) else int (digits_val 0 ds))
         in if ds = [] then Inl InvalidArgument
            else if v < - (2 ^ 63) \<or> 2 ^ 63 \<le> v then Inl OutOfRange
            else Inr v))"

text \<open>The conversion of a \<open>long long\<close> to \<open>pid_t\<close>.\<close>

definition pid_of :: "int \<Rightarrow> int" where
  "pid_of v = sint (word_of_int v :: 32 word)"

section \<open>Directory contents\<close>

type_synonym readdir_result = "int \<times> string option"

text \<open>
  The loop of \<open>GetDirectoryContents\<close>: the entries it inserted and the last \<open>posix_error\<close>.
\<close>

fun read_entries :: "readdir_result list \<Rightarrow> string list \<Rightarrow> string list \<times> int" where
  "read_entries [] children = (children, 0)"
| "read_entries ((posix_error, result) # rs) children =
     (case result of
        None \<Rightarrow> (children, posix_error)
      | Some child \<Rightarrow>
          if posix_error \<noteq> 0 then (children, posix_error)
          else if child = ''.'' \<or> child = ''..'' then read_entries rs children
          else read_entries rs (insort_insert child children))"

text \<open>\<open>None\<close> stands for the result false; \<open>opened\<close> says whether \<open>opendir\<close> succeeded.\<close>

definition GetDirectoryContents :: "bool \<Rightarrow> readdir_result list \<Rightarrow> string list option" where
  "GetDirectoryContents opened rs =
     (if \<not> opened then None
      else case read_entries rs [] of (children, posix_error) \<Rightarrow>
        if posix_error \<noteq> 0 then None else Some children)"

fun pids_of :: "string list \<Rightarrow> int list" where
  "pids_of [] = []"
| "pids_of (child # cs) = (case stoll child of Inl e \<Rightarrow> pids_of cs | Inr v \<Rightarrow> pid_of v # pids_of cs)"

definition ListThreads :: "bool \<Rightarrow> readdir_result list \<Rightarrow> int list" where
  "ListThreads opened rs =
     (case GetDirectoryContents opened rs of None \<Rightarrow> [] | Some children \<Rightarrow> pids_of children)"

section \<open>The kernel's side\<close>

text \<open>The decimal name of a thread id.\<close>

fun decimal :: "nat \<Rightarrow> string" where
  "decimal n =
     (if n < 10 then [char_of (48 + n)] else decimal (n div 10) @ [char_of (48 + n mod 10)])"

declare decimal.simps [simp del]

section \<open>Lemmas\<close>

lemma digits_val_append: "digits_val acc (xs @ [c]) = 10 * digits_val acc xs + digit_val c"
  by (induction xs arbitrary: acc) auto

lemma digit_char: "d < 10 \<Longrightarrow> is_digit (char_of (48 + d)) \<and> digit_val (char_of (48 + d)) = d"
  by (simp add: is_digit_def digit_val_def of_char_of)

lemma decimal_digits: "list_all is_digit (decimal n) \<and> decimal n \<noteq> [] \<and> digits_val 0 (decimal n) = n"
proof (induction n rule: decimal.induct)
  case (1 n)
  show ?case
  proof (cases "n < 10")
    case True
    then show ?thesis using digit_char [of n] by (simp add: decimal.simps [of n])
  next
    case False
    with 1 show ?thesis using digit_char [of "n mod 10"]
      by (simp add: decimal.simps [of n] digits_val_append)
  qed
qed

lemma digit_not_space: "is_digit c \<Longrightarrow> \<not> is_space c"
  by (auto simp: is_digit_def is_space_def)

lemma digit_not_sign: "is_digit c \<Longrightarrow> c \<noteq> CHR ''-'' \<and> c \<noteq> CHR ''+''"
  by (auto simp: is_digit_def)

lemma takeWhile_all: "list_all P xs \<Longrightarrow> takeWhile P xs = xs"
  by (induction xs) auto

lemma stoll_decimal: "n < 2 ^ 63 \<Longrightarrow> stoll (decimal n) = Inr (int n)"
proof -
  assume n: "n < 2 ^ 63"
  obtain c cs where d: "decimal n = c # cs" using decimal_digits [of n] by (cases "decimal n") auto
  have c: "is_digit c" and all: "takeWhile is_digit (decimal n) = decimal n"
    using decimal_digits [of n] d by (auto simp: takeWhile_all)
  have "split_sign (dropWhile is_space (decimal n)) = (False, decimal n)"
    using c digit_not_space [of c] digit_not_sign [of c] by (simp add: d split_sign_def)
  then show ?thesis using decimal_digits [of n] n by (simp add: stoll_def all Let_def)
qed

lemma pid_of_small: "n < 2 ^ 31 \<Longrightarrow> pid_of (int n) = int n"
  by (simp add: pid_of_def signed_of_nat signed_take_bit_int_eq_self)

lemma read_entries_names:
  assumes "sorted cs" and "distinct cs"
  shows "\<exists>cs'. read_entries (map (\<lambda>n. (0, Some n)) names @ rs) cs = read_entries rs cs'
    \<and> sorted cs' \<and> distinct cs' \<and> set cs' = set cs \<union> (set names - {''.'', ''..''})"
  using assms
proof (induction names arbitrary: cs)
  case Nil
  then show ?case by auto
next
  case (Cons n names)
  show ?case
  proof (cases "n = ''.'' \<or> n = ''..''")
    case True
    then show ?thesis using Cons.IH [OF Cons.prems] by auto
  next
    case False
    have "sorted (insort_insert n cs)" using Cons.prems by (simp add: sorted_insort_insert)
    moreover have "distinct (insort_insert n cs)"
      using Cons.prems by (simp add: distinct_insort_insert)
    ultimately show ?thesis using Cons.IH [of "insort_insert n cs"] False
      by (auto simp: set_insort_insert)
  qed
qed

lemma decimal_inj: "decimal m = decimal n \<Longrightarrow> m = n"
  using decimal_digits by metis

lemma decimal_not_dots: "decimal n \<noteq> ''.'' \<and> decimal n \<noteq> ''..''"
  using decimal_digits [of n] by (auto simp: is_digit_def)

lemma pids_of_decimal:
  assumes "\<forall>c \<in> set cs. \<exists>n. c = decimal n \<and> n < 2 ^ 31" and "distinct cs"
  shows "set (pids_of cs) = {int n | n. decimal n \<in> set cs} \<and> distinct (pids_of cs)"
  using assms
proof (induction cs)
  case Nil
  then show ?case by simp
next
  case (Cons c cs)
  then obtain n where n: "c = decimal n" "n < 2 ^ 31" by auto
  then have "pids_of (c # cs) = int n # pids_of cs"
    by (simp add: stoll_decimal pid_of_small)
  then show ?case using Cons n by (auto dest: decimal_inj)
qed

lemma ListThreads_names:
  assumes "set names = {''.'', ''..''} \<union> decimal ` T" and "\<forall>t \<in> T. t < 2 ^ 31"
  obtains cs where "ListThreads True (map (\<lambda>n. (0, Some n)) names @ (0, None) # rs) = pids_of cs"
    "distinct cs" "set cs = decimal ` T" "\<forall>c \<in> set cs. \<exists>n. c = decimal n \<and> n < 2 ^ 31"
proof -
  obtain cs where cs: "read_entries (map (\<lambda>n. (0, Some n)) names @ (0, None) # rs) [] = (cs, 0)"
      "distinct cs" "set cs = set names - {''.'', ''..''}"
    using read_entries_names [of "[]" names "(0, None) # rs"] by auto
  have T: "set cs = decimal ` T" using cs(3) assms(1) decimal_not_dots by auto
  show ?thesis using that [of cs] cs(1,2) T assms(2)
    by (auto simp: ListThreads_def GetDirectoryContents_def)
qed

lemma ListThreads_set:
  assumes "set names = {''.'', ''..''} \<union> decimal ` T" and "\<forall>t \<in> T. t < 2 ^ 31"
  shows "set (ListThreads True (map (\<lambda>n. (0, Some n)) names @ (0, None) # rs)) = int ` T"
proof (rule ListThreads_names [OF assms, of rs])
  fix cs
  assume c: "ListThreads True (map (\<lambda>n. (0, Some n)) names @ (0, None) # rs) = pids_of cs"
      "distinct cs" "set cs = decimal ` T" "\<forall>c \<in> set cs. \<exists>n. c = decimal n \<and> n < 2 ^ 31"
  have "{int n | n. decimal n \<in> set cs} = int ` T" using c(3) by (auto dest: decimal_inj)
  then show ?thesis using pids_of_decimal [OF c(4,2)] c(1) by simp
qed

section \<open>Properties\<close>

text \<open>
  C27. \<open>ListThreads\<close> is complete and exact: when the task directory lists \<open>.\<close>, \<open>..\<close> and the
  decimal names of the threads \<open>T\<close> in any order, any number of times, it returns every
  thread of \<open>T\<close> once and nothing else.
\<close>

theorem ListThreads_exact:
  assumes "set names = {''.'', ''..''} \<union> decimal ` T" and "\<forall>t \<in> T. t < 2 ^ 31"
  shows "set (ListThreads True (map (\<lambda>n. (0, Some n)) names @ (0, None) # rs)) = int ` T
    \<and> distinct (ListThreads True (map (\<lambda>n. (0, Some n)) names @ (0, None) # rs))"
proof (rule ListThreads_names [OF assms, of rs])
  fix cs
  assume "ListThreads True (map (\<lambda>n. (0, Some n)) names @ (0, None) # rs) = pids_of cs"
      "distinct cs" "\<forall>c \<in> set cs. \<exists>n. c = decimal n \<and> n < 2 ^ 31"
  then show ?thesis using ListThreads_set [OF assms, of rs] pids_of_decimal by simp
qed

lemma ListThreads_exact_witness:
  "set (ListThreads True (map (\<lambda>n. (0, Some n)) [''.'', ''..'', decimal 12, decimal 7] @ [(0, None)]))
     = {12, 7}"
proof -
  have "set [''.'', ''..'', decimal 12, decimal 7] = {''.'', ''..''} \<union> decimal ` {12, 7}" by auto
  from ListThreads_exact [OF this, of "[]"] show ?thesis by simp
qed

text \<open>
  A directory that cannot be opened, or a read error after any number of entries, gives the
  empty list and never a part of the threads; a name that is not a number is skipped.
\<close>

theorem ListThreads_all_or_nothing:
  "ListThreads False rs = []
   \<and> (e \<noteq> 0 \<longrightarrow> ListThreads True (map (\<lambda>n. (0, Some n)) names @ (e, r) # rs) = [])
   \<and> (\<not> is_digit c \<and> \<not> is_space c \<and> c \<noteq> CHR ''-'' \<and> c \<noteq> CHR ''+'' \<longrightarrow>
        pids_of ((c # name) # cs) = pids_of cs)"
proof (intro conjI impI)
  assume "e \<noteq> 0"
  obtain cs where cs: "read_entries (map (\<lambda>n. (0, Some n)) names @ (e, r) # rs) []
      = read_entries ((e, r) # rs) cs"
    using read_entries_names [of "[]" names "(e, r) # rs"] by auto
  have "read_entries ((e, r) # rs) cs = (cs, e)" using \<open>e \<noteq> 0\<close> by (cases r) simp_all
  then show "ListThreads True (map (\<lambda>n. (0, Some n)) names @ (e, r) # rs) = []"
    using \<open>e \<noteq> 0\<close> by (simp add: ListThreads_def GetDirectoryContents_def cs)
qed (auto simp: ListThreads_def GetDirectoryContents_def stoll_def split_sign_def)

lemma ListThreads_all_or_nothing_witness:
  "ListThreads True (map (\<lambda>n. (0, Some n)) [''.'', ''41''] @ [(9, None)]) = []
   \<and> pids_of [''x1'', ''42''] = pids_of [''42'']"
proof
  show "ListThreads True (map (\<lambda>n. (0, Some n)) [''.'', ''41''] @ [(9, None)]) = []"
    by (rule ListThreads_all_or_nothing [THEN conjunct2, THEN conjunct1, THEN mp]) simp
  show "pids_of [''x1'', ''42''] = pids_of [''42'']"
    by (rule ListThreads_all_or_nothing [THEN conjunct2, THEN conjunct2, THEN mp])
      (simp add: is_digit_def is_space_def)
qed

end
