(* ===== verification/Stack_Form.thy ===== *)
theory Stack_Form
  imports Sysutil
begin

text \<open>
  The data of \<^verbatim>\<open>src/src/ts/signal_handler.cc\<close>: the form a thread fills with its stack from inside the
  signal handler, the handler itself, and what the collector makes of the filled forms (the
  comparator of stacks, the \<open>std::map\<close> keyed by it, the list of results and its text). The
  unwinder's answers (\<open>libunwind\<close>), the value returned by \<open>write\<close> and the symbolizer are
  arguments; the handler's messages (\<open>ErrLog\<close>) are left out.
\<close>

section \<open>Stacks and forms\<close>

definition kMaxDepth :: nat where
  "kMaxDepth = 100"

record thread_stack =
  tid :: int
  address :: "u64 list"
  depth :: nat

record stack_trace_form =
  ack_fd :: int
  stack :: thread_stack

text \<open>The array is not initialised: its first contents \<open>garbage\<close> are arbitrary.\<close>

definition StackTraceForm :: "u64 list \<Rightarrow> int \<Rightarrow> int \<Rightarrow> stack_trace_form" where
  "StackTraceForm garbage t fd =
     \<lparr>ack_fd = fd, stack = \<lparr>tid = t, address = garbage, depth = 0\<rparr>\<rparr>"

definition AddAddress :: "u64 \<Rightarrow> stack_trace_form \<Rightarrow> bool \<times> stack_trace_form" where
  "AddAddress a f =
     (if depth (stack f) \<ge> kMaxDepth then (False, f)
      else (True, f\<lparr>stack := (stack f)\<lparr>address := (address (stack f))[depth (stack f) := a],
                                        depth := depth (stack f) + 1\<rparr>\<rparr>))"

text \<open>\<open>num_written\<close> is what \<open>write\<close> returned for the one-byte ack.\<close>

definition Submit :: "int \<Rightarrow> bool" where
  "Submit num_written \<longleftrightarrow> num_written = 1"

section \<open>The handler of the internal signal\<close>

text \<open>One step of the cursor: \<open>unw_step\<close>, then \<open>unw_get_reg\<close> and the instruction pointer.\<close>

record cursor_step =
  step_ret :: int
  reg_ret :: int
  ip :: u64

fun unwind :: "cursor_step list \<Rightarrow> stack_trace_form \<Rightarrow> stack_trace_form" where
  "unwind [] form = form"
| "unwind (c # cs) form =
     (if step_ret c > 0 then
        if reg_ret c = 0 then
          (case AddAddress (ip c) form of (ok, form') \<Rightarrow> if ok then unwind cs form' else form')
        else unwind cs form
      else form)"

text \<open>
  What the handler meets: the sender, the process, the unwinder's answers (the cursor's steps
  in order, the first one leaves the handler's own frame) and the result of the final \<open>write\<close>.
\<close>

record handler_env =
  si_pid :: int
  own_pid :: int
  getcontext_ret :: int
  init_local_ret :: int
  cursor :: "cursor_step list"
  write_ret :: int

text \<open>
  The handler on the form it was sent (\<open>None\<close> is the null pointer): the form it leaves, and the
  number of ack bytes written.
\<close>

definition InternalHandler ::
    "handler_env \<Rightarrow> stack_trace_form option \<Rightarrow> stack_trace_form option \<times> nat" where
  "InternalHandler h form =
     (if si_pid h \<noteq> own_pid h then (form, 0)
      else case form of
        None \<Rightarrow> (None, 0)
      | Some f \<Rightarrow>
          if getcontext_ret h \<noteq> 0 then (Some f, 0)
          else if init_local_ret h \<noteq> 0 then (Some f, 0)
          else (Some (unwind (drop 1 (cursor h)) f), if Submit (write_ret h) then 1 else 0))"

section \<open>Grouping equal stacks\<close>

function cmp_loop :: "nat \<Rightarrow> thread_stack \<Rightarrow> thread_stack \<Rightarrow> bool" where
  "cmp_loop i a b =
     (if i < depth a then
        if address a ! i \<noteq> address b ! i then sint (address a ! i) < sint (address b ! i)
        else cmp_loop (Suc i) a b
      else False)"
  by pat_completeness auto
termination by (relation "measure (\<lambda>(i, a, b). depth a - i)") auto

declare cmp_loop.simps [simp del]

definition StackComparator :: "stack_trace_form \<Rightarrow> stack_trace_form \<Rightarrow> bool" where
  "StackComparator a b =
     (if depth (stack a) \<noteq> depth (stack b) then depth (stack a) < depth (stack b)
      else cmp_loop 0 (stack a) (stack b))"

text \<open>
  A \<open>std::map\<close> with comparator \<open>lt\<close>: its entries in the order of iteration. \<open>map_find\<close> is
  \<open>find\<close>, \<open>map_at\<close> is \<open>operator[]\<close> followed by \<open>push_back\<close>.
\<close>

fun map_find :: "('k \<Rightarrow> 'k \<Rightarrow> bool) \<Rightarrow> 'k \<Rightarrow> ('k \<times> 'v) list \<Rightarrow> 'v option" where
  "map_find lt k [] = None"
| "map_find lt k ((k', v) # m) =
     (if lt k' k then map_find lt k m else if lt k k' then None else Some v)"

fun map_at :: "('k \<Rightarrow> 'k \<Rightarrow> bool) \<Rightarrow> 'k \<Rightarrow> 'v \<Rightarrow> ('k \<times> 'v list) list \<Rightarrow> ('k \<times> 'v list) list" where
  "map_at lt k v [] = [(k, [v])]"
| "map_at lt k v ((k', vs) # m) =
     (if lt k' k then (k', vs) # map_at lt k v m
      else if lt k k' then (k, [v]) # (k', vs) # m
      else (k', vs @ [v]) # m)"

fun map_found :: "('k \<Rightarrow> 'k \<Rightarrow> bool) \<Rightarrow> 'k \<Rightarrow> 'v \<Rightarrow> ('k \<times> 'v list) list \<Rightarrow> ('k \<times> 'v list) list" where
  "map_found lt k v [] = []"
| "map_found lt k v ((k', vs) # m) =
     (if lt k' k \<or> lt k k' then (k', vs) # map_found lt k v m else (k', vs @ [v]) # m)"

definition group_step ::
    "('k \<Rightarrow> 'k \<Rightarrow> bool) \<Rightarrow> ('k \<Rightarrow> 'v) \<Rightarrow> 'k \<Rightarrow> ('k \<times> 'v list) list \<Rightarrow> ('k \<times> 'v list) list" where
  "group_step lt val e m =
     (case map_find lt e m of None \<Rightarrow> map_at lt e (val e) m | Some vs \<Rightarrow> map_found lt e (val e) m)"

definition group_by ::
    "('k \<Rightarrow> 'k \<Rightarrow> bool) \<Rightarrow> ('k \<Rightarrow> 'v) \<Rightarrow> 'k list \<Rightarrow> ('k \<times> 'v list) list" where
  "group_by lt val es = fold (group_step lt val) es []"

definition unique_traces :: "stack_trace_form list \<Rightarrow> (stack_trace_form \<times> int list) list" where
  "unique_traces slot = group_by StackComparator (\<lambda>e. tid (stack e)) slot"

section \<open>Results\<close>

record result =
  tids :: "int list"
  trace :: "(u64 \<times> string) list"

definition kUnknown :: string where
  "kUnknown = ''(unknown)''"

definition symbolized :: "(u64 \<Rightarrow> string option) \<Rightarrow> u64 \<Rightarrow> u64 \<times> string" where
  "symbolized Symbolize a = (a, case Symbolize a of None \<Rightarrow> kUnknown | Some buffer \<Rightarrow> buffer)"

definition result_of :: "(u64 \<Rightarrow> string option) \<Rightarrow> stack_trace_form \<times> int list \<Rightarrow> result" where
  "result_of Symbolize e =
     \<lparr>tids = snd e,
      trace = map (\<lambda>i. symbolized Symbolize (address (stack (fst e)) ! i)) [0..<depth (stack (fst e))]\<rparr>"

definition collect_results :: "(u64 \<Rightarrow> string option) \<Rightarrow> stack_trace_form list \<Rightarrow> result list" where
  "collect_results Symbolize slot = map (result_of Symbolize) (unique_traces slot)"

section \<open>The text of the results\<close>

text \<open>\<open>operator<<\<close> of an \<open>int\<close>, and of an \<open>int64_t\<close> after \<open>std::hex\<close> (its unsigned value).\<close>

definition show_int :: "int \<Rightarrow> string" where
  "show_int i = (if i < 0 then CHR ''-'' # decimal (nat (- i)) else decimal (nat i))"

definition hex_digit :: "nat \<Rightarrow> char" where
  "hex_digit d = char_of (if d < 10 then 48 + d else 87 + d)"

fun show_hex :: "nat \<Rightarrow> string" where
  "show_hex n = (if n < 16 then [hex_digit n] else show_hex (n div 16) @ [hex_digit (n mod 16)])"

declare show_hex.simps [simp del]

definition setw16 :: "string \<Rightarrow> string" where
  "setw16 s = replicate (16 - length s) CHR '' '' @ s"

definition endl :: string where
  "endl = [CHR 0x0A]"

definition pretty_elem :: "u64 \<times> string \<Rightarrow> string" where
  "pretty_elem elem = setw16 (''0x'' @ show_hex (unat (fst elem))) @ '' : '' @ snd elem @ endl"

definition pretty_result :: "result \<Rightarrow> string" where
  "pretty_result e =
     (if tids e = [] then ''No Threads'' @ endl
      else ''Threads: '' @ concat (map (\<lambda>t. show_int t @ '', '') (butlast (tids e)))
           @ show_int (last (tids e)) @ endl @ ''Stack trace:'' @ endl
           @ concat (map pretty_elem (trace e)) @ endl)"

definition push_log :: "result \<Rightarrow> string list" where
  "push_log e = map (\<lambda>t. CHR 0x09 # ''*******will push back tid:'' @ show_int t @ endl) (tids e)"

fun pretty_loop :: "result list \<Rightarrow> string \<times> int list \<times> string list \<Rightarrow> string \<times> int list \<times> string list" where
  "pretty_loop [] acc = acc"
| "pretty_loop (e # r) (ss, ts, err) =
     pretty_loop r (ss @ pretty_result e, ts @ tids e, err @ push_log e)"

text \<open>
  The text, the argument of the call of \<open>backtrace_cb_\<close> if one is installed, and what was printed
  to the error stream.
\<close>

definition ToPrettyString :: "bool \<Rightarrow> result list \<Rightarrow> string \<times> int list option \<times> string list" where
  "ToPrettyString has_cb r =
     (case pretty_loop r ([], [], []) of (ss, ts, err) \<Rightarrow> (ss, if has_cb then Some ts else None, err))"

section \<open>The contract of a map's comparator\<close>

definition equivalent :: "('k \<Rightarrow> 'k \<Rightarrow> bool) \<Rightarrow> 'k \<Rightarrow> 'k \<Rightarrow> bool" where
  "equivalent lt a b \<longleftrightarrow> \<not> lt a b \<and> \<not> lt b a"

text \<open>
  The map \<open>m\<close> groups the elements \<open>es\<close>: keys in increasing order, each with the values of all
  the elements equivalent to it in their order, and a key for every element.
\<close>

definition grouped ::
    "('k \<Rightarrow> 'k \<Rightarrow> bool) \<Rightarrow> ('k \<Rightarrow> 'v) \<Rightarrow> 'k list \<Rightarrow> ('k \<times> 'v list) list \<Rightarrow> bool" where
  "grouped lt val es m \<longleftrightarrow>
     sorted_wrt lt (map fst m) \<and> fst ` set m \<subseteq> set es
     \<and> (\<forall>(k, vs) \<in> set m. vs = map val (filter (equivalent lt k) es))
     \<and> (\<forall>e \<in> set es. \<exists>k \<in> fst ` set m. equivalent lt k e)"

text \<open>The requirement of the standard library on a comparator: a strict weak order.\<close>

locale strict_weak_order =
  fixes D :: "'k \<Rightarrow> bool" and lt :: "'k \<Rightarrow> 'k \<Rightarrow> bool"
  assumes lt_irrefl: "D a \<Longrightarrow> \<not> lt a a"
    and lt_trans: "D a \<Longrightarrow> D b \<Longrightarrow> D c \<Longrightarrow> lt a b \<Longrightarrow> lt b c \<Longrightarrow> lt a c"
    and equivalent_trans: "D a \<Longrightarrow> D b \<Longrightarrow> D c \<Longrightarrow> equivalent lt a b \<Longrightarrow> equivalent lt b c \<Longrightarrow>
      equivalent lt a c"
begin

lemma equivalent_lt: "D a \<Longrightarrow> D b \<Longrightarrow> D c \<Longrightarrow> equivalent lt a b \<Longrightarrow> lt a c \<Longrightarrow> lt b c"
  using equivalent_trans [of a b c] lt_trans [of a c b] by (auto simp: equivalent_def)

lemma lt_not_equivalent: "lt a b \<Longrightarrow> \<not> equivalent lt a b \<and> \<not> equivalent lt b a"
  by (simp add: equivalent_def)

lemma find_None:
  assumes "sorted_wrt lt (map fst m)" and "\<forall>k \<in> fst ` set m. D k" and "D e"
    and "map_find lt e m = None"
  shows "\<exists>l r. m = l @ r \<and> map_at lt e v m = l @ (e, [v]) # r
    \<and> (\<forall>k \<in> fst ` set l. lt k e) \<and> (\<forall>k \<in> fst ` set r. lt e k)"
  using assms
proof (induction m)
  case (Cons kv m)
  obtain k vs where kv: "kv = (k, vs)" by (cases kv)
  show ?case
  proof (cases "lt k e")
    case True
    then obtain l r where "m = l @ r \<and> map_at lt e v m = l @ (e, [v]) # r
      \<and> (\<forall>k \<in> fst ` set l. lt k e) \<and> (\<forall>k \<in> fst ` set r. lt e k)"
      using Cons kv by auto
    then show ?thesis using True kv by (intro exI [of _ "kv # l"] exI [of _ r]) auto
  next
    case False
    then have "lt e k" using Cons.prems kv by (auto split: if_splits)
    moreover have "\<forall>k' \<in> fst ` set m. lt e k'"
      using Cons.prems kv \<open>lt e k\<close> lt_trans [of e k] by auto
    ultimately show ?thesis using False kv by (intro exI [of _ "[]"] exI [of _ "kv # m"]) auto
  qed
qed simp

lemma find_Some:
  assumes "sorted_wrt lt (map fst m)" and "\<forall>k \<in> fst ` set m. D k" and "D e"
    and "map_find lt e m = Some ws"
  shows "\<exists>l k r. m = l @ (k, ws) # r \<and> map_found lt e v m = l @ (k, ws @ [v]) # r
    \<and> equivalent lt k e \<and> (\<forall>k \<in> fst ` set l. lt k e) \<and> (\<forall>k \<in> fst ` set r. lt e k)"
  using assms
proof (induction m)
  case (Cons kv m)
  obtain k vs where kv: "kv = (k, vs)" by (cases kv)
  show ?case
  proof (cases "lt k e")
    case True
    then obtain l k' r where "m = l @ (k', ws) # r \<and> map_found lt e v m = l @ (k', ws @ [v]) # r
      \<and> equivalent lt k' e \<and> (\<forall>k \<in> fst ` set l. lt k e) \<and> (\<forall>k \<in> fst ` set r. lt e k)"
      using Cons kv by auto
    then show ?thesis using True kv
      by (intro exI [of _ "kv # l"] exI [of _ k'] exI [of _ r]) auto
  next
    case False
    then have eq: "equivalent lt k e" and ws: "vs = ws"
      using Cons.prems kv by (auto simp: equivalent_def split: if_splits)
    moreover have "\<forall>k' \<in> fst ` set m. lt e k'"
      using Cons.prems kv eq equivalent_lt [of k e] by auto
    ultimately show ?thesis using False kv
      by (intro exI [of _ "[]"] exI [of _ k] exI [of _ m]) (auto simp: equivalent_def)
  qed
qed simp

lemma valuesD: "grouped lt val es m \<Longrightarrow> (k, vs) \<in> set m \<Longrightarrow> map val (filter (equivalent lt k) es) = vs"
  by (auto simp: grouped_def)

lemma group_step_grouped:
  assumes g: "grouped lt val es m" and D: "\<forall>x \<in> set es. D x" "D e"
  shows "grouped lt val (es @ [e]) (group_step lt val e m)"
proof (cases "map_find lt e m")
  case None
  have m: "sorted_wrt lt (map fst m)" "\<forall>k \<in> fst ` set m. D k" using g D by (auto simp: grouped_def)
  obtain l r where lr: "m = l @ r" "map_at lt e (val e) m = l @ (e, [val e]) # r"
      "\<forall>k \<in> fst ` set l. lt k e" "\<forall>k \<in> fst ` set r. lt e k"
    using find_None [OF m D(2) None, of "val e"] by blast
  have far: "\<forall>k \<in> fst ` set m. \<not> equivalent lt k e"
    using lr(1,3,4) lt_not_equivalent by fastforce
  have keep: "map val (filter (equivalent lt k) (es @ [e])) = vs"
    if "(k, vs) \<in> set l \<or> (k, vs) \<in> set r" for k vs
    using far lr(1) that valuesD [OF g, of k vs] by force
  have none: "filter (equivalent lt e) es = []"
  proof (rule ccontr)
    assume "filter (equivalent lt e) es \<noteq> []"
    then obtain x where x: "x \<in> set es" "equivalent lt e x" by (auto simp: filter_empty_conv)
    then obtain k where k: "k \<in> fst ` set m" "equivalent lt k x"
      using g unfolding grouped_def by blast
    then have "equivalent lt k e"
      using x D m(2) equivalent_trans [of k x e] by (auto simp: equivalent_def)
    then show False using far k(1) by blast
  qed
  have refl: "equivalent lt e e" using lt_irrefl D(2) by (simp add: equivalent_def)
  have keep_e: "map val (filter (equivalent lt e) (es @ [e])) = [val e]" by (simp add: none refl)
  have "group_step lt val e m = l @ (e, [val e]) # r" using None lr(2) by (simp add: group_step_def)
  moreover have "sorted_wrt lt (map fst (l @ (e, [val e]) # r))"
    using m(1) lr(1,3,4) by (auto simp: sorted_wrt_append)
  moreover have "fst ` set (l @ (e, [val e]) # r) \<subseteq> set (es @ [e])"
    using g lr(1) by (auto simp: grouped_def)
  moreover have "\<forall>(k, vs) \<in> set (l @ (e, [val e]) # r).
      vs = map val (filter (equivalent lt k) (es @ [e]))"
    using keep keep_e [symmetric] by (auto simp del: filter_append simp flip: keep)
  moreover have "\<forall>x \<in> set (es @ [e]). \<exists>k \<in> fst ` set (l @ (e, [val e]) # r). equivalent lt k x"
    using g lr(1) refl unfolding grouped_def by auto
  ultimately show ?thesis unfolding grouped_def by simp
next
  case (Some ws)
  have m: "sorted_wrt lt (map fst m)" "\<forall>k \<in> fst ` set m. D k" using g D by (auto simp: grouped_def)
  obtain l k r where lr: "m = l @ (k, ws) # r" "map_found lt e (val e) m = l @ (k, ws @ [val e]) # r"
      "equivalent lt k e" "\<forall>k \<in> fst ` set l. lt k e" "\<forall>k \<in> fst ` set r. lt e k"
    using find_Some [OF m D(2) Some, of "val e"] by blast
  have keep: "map val (filter (equivalent lt k') (es @ [e])) = vs"
    if "(k', vs) \<in> set l \<or> (k', vs) \<in> set r" for k' vs
    using lr(4,5) lt_not_equivalent that lr(1) valuesD [OF g, of k' vs] by force
  have keep_k: "map val (filter (equivalent lt k) (es @ [e])) = ws @ [val e]"
    using lr(1,3) valuesD [OF g, of k ws] by simp
  have "group_step lt val e m = l @ (k, ws @ [val e]) # r"
    using Some lr(2) by (simp add: group_step_def)
  moreover have "sorted_wrt lt (map fst (l @ (k, ws @ [val e]) # r))" using m(1) lr(1) by simp
  moreover have "fst ` set (l @ (k, ws @ [val e]) # r) \<subseteq> set (es @ [e])"
    using g lr(1) by (auto simp: grouped_def)
  moreover have "\<forall>(k, vs) \<in> set (l @ (k, ws @ [val e]) # r).
      vs = map val (filter (equivalent lt k) (es @ [e]))"
    using keep keep_k [symmetric] by (auto simp del: filter_append simp flip: keep)
  moreover have "\<forall>x \<in> set (es @ [e]). \<exists>k \<in> fst ` set (l @ (k, ws @ [val e]) # r). equivalent lt k x"
    using g lr(1,3) unfolding grouped_def by auto
  ultimately show ?thesis unfolding grouped_def by simp
qed

lemma group_by_grouped: "\<forall>x \<in> set es. D x \<Longrightarrow> grouped lt val es (group_by lt val es)"
proof (induction es rule: rev_induct)
  case Nil
  then show ?case by (simp add: grouped_def group_by_def)
next
  case (snoc e es)
  then show ?case using group_step_grouped [of val es "group_by lt val es" e]
    by (simp add: group_by_def)
qed

end

section \<open>The comparator meets the contract\<close>

definition frames :: "thread_stack \<Rightarrow> u64 list" where
  "frames s = take (depth s) (address s)"

definition wf_form :: "stack_trace_form \<Rightarrow> bool" where
  "wf_form f \<longleftrightarrow> length (address (stack f)) = kMaxDepth \<and> depth (stack f) \<le> kMaxDepth"

lemma sint_eq_iff: "sint (a :: u64) = sint b \<longleftrightarrow> a = b"
  by (metis signed_word_eqI)

lemma length_frames: "wf_form f \<Longrightarrow> length (frames (stack f)) = depth (stack f)"
  by (simp add: wf_form_def frames_def)

lemma cmp_loop_less:
  assumes "depth a = depth b" and "depth a \<le> length (address a)" and "depth b \<le> length (address b)"
  shows "cmp_loop i a b \<longleftrightarrow> drop i (map sint (frames a)) < drop i (map sint (frames b))"
  using assms
proof (induction i a b rule: cmp_loop.induct)
  case (1 i a b)
  show ?case
  proof (cases "i < depth a")
    case True
    then have "drop i (map sint (frames a)) = sint (address a ! i) # drop (Suc i) (map sint (frames a))"
      and "drop i (map sint (frames b)) = sint (address b ! i) # drop (Suc i) (map sint (frames b))"
      using 1(2-4) by (simp_all add: frames_def flip: Cons_nth_drop_Suc)
    then show ?thesis using 1 True by (auto simp: cmp_loop.simps [of i] sint_eq_iff)
  next
    case False
    then show ?thesis using 1(2-4) by (simp add: cmp_loop.simps [of i] frames_def)
  qed
qed

lemma StackComparator_less:
  assumes "wf_form a" and "wf_form b"
  shows "StackComparator a b \<longleftrightarrow>
    depth (stack a) < depth (stack b)
    \<or> depth (stack a) = depth (stack b) \<and> map sint (frames (stack a)) < map sint (frames (stack b))"
  using assms cmp_loop_less [of "stack a" "stack b" 0]
  by (auto simp: StackComparator_def wf_form_def)

text \<open>The order that the comparator realises: by depth, then by the signed addresses from the top.\<close>

datatype stack_key = Stack_Key "int list"

instantiation stack_key :: linorder
begin

fun less_stack_key :: "stack_key \<Rightarrow> stack_key \<Rightarrow> bool" where
  "Stack_Key xs < Stack_Key ys \<longleftrightarrow> length xs < length ys \<or> length xs = length ys \<and> xs < ys"

definition less_eq_stack_key :: "stack_key \<Rightarrow> stack_key \<Rightarrow> bool" where
  "less_eq_stack_key a b \<longleftrightarrow> a < b \<or> a = b"

instance
proof
  fix a b c :: stack_key
  obtain xs ys zs where k: "a = Stack_Key xs" "b = Stack_Key ys" "c = Stack_Key zs"
    by (cases a; cases b; cases c)
  show "a < b \<longleftrightarrow> a \<le> b \<and> \<not> b \<le> a" by (auto simp: k less_eq_stack_key_def)
  show "a \<le> a" by (simp add: less_eq_stack_key_def)
  show "a \<le> b \<Longrightarrow> b \<le> c \<Longrightarrow> a \<le> c" by (auto simp: k less_eq_stack_key_def)
  show "a \<le> b \<Longrightarrow> b \<le> a \<Longrightarrow> a = b" by (auto simp: k less_eq_stack_key_def)
  show "a \<le> b \<or> b \<le> a" by (auto simp: k less_eq_stack_key_def)
qed

end

definition key_of :: "stack_trace_form \<Rightarrow> stack_key" where
  "key_of f = Stack_Key (map sint (frames (stack f)))"

lemma StackComparator_key:
  assumes "wf_form a" and "wf_form b"
  shows "StackComparator a b \<longleftrightarrow> key_of a < key_of b"
  using assms by (simp add: StackComparator_less key_of_def length_frames)

lemma key_of_eq: "key_of a = key_of b \<longleftrightarrow> frames (stack a) = frames (stack b)"
  unfolding key_of_def stack_key.inject
  by (rule inj_map_eq_map) (simp add: inj_on_def sint_eq_iff)

lemma equivalent_frames:
  assumes "wf_form a" and "wf_form b"
  shows "equivalent StackComparator a b \<longleftrightarrow> frames (stack a) = frames (stack b)"
  using assms by (auto simp: equivalent_def StackComparator_key not_less order_antisym simp flip: key_of_eq)

interpretation stacks: strict_weak_order wf_form StackComparator
proof unfold_locales
  fix a b c
  assume w: "wf_form a" "wf_form b" "wf_form c"
  show "\<not> StackComparator a a" using w by (simp add: StackComparator_key)
  show "StackComparator a b \<Longrightarrow> StackComparator b c \<Longrightarrow> StackComparator a c"
    using w by (auto simp: StackComparator_key)
  show "equivalent StackComparator a b \<Longrightarrow> equivalent StackComparator b c \<Longrightarrow>
      equivalent StackComparator a c"
    using w by (simp add: equivalent_frames)
qed

section \<open>The values of a grouped map\<close>

lemma map_at_values:
  "set (concat (map snd (map_at lt k v m))) = insert v (set (concat (map snd m)))"
  "distinct (concat (map snd m)) \<Longrightarrow> v \<notin> set (concat (map snd m)) \<Longrightarrow>
    distinct (concat (map snd (map_at lt k v m)))"
  by (induction lt k v m rule: map_at.induct) (auto split: if_splits)

lemma map_found_values:
  assumes "map_find lt k m = Some ws"
  shows "set (concat (map snd (map_found lt k v m))) = insert v (set (concat (map snd m)))"
    "distinct (concat (map snd m)) \<Longrightarrow> v \<notin> set (concat (map snd m)) \<Longrightarrow>
      distinct (concat (map snd (map_found lt k v m)))"
  using assms by (induction lt k v m rule: map_found.induct) (auto split: if_splits)

lemma group_step_values:
  "set (concat (map snd (group_step lt val e m))) = insert (val e) (set (concat (map snd m)))"
  "distinct (concat (map snd m)) \<Longrightarrow> val e \<notin> set (concat (map snd m)) \<Longrightarrow>
    distinct (concat (map snd (group_step lt val e m)))"
  by (cases "map_find lt e m"; simp add: group_step_def map_at_values map_found_values
      del: set_concat)+

lemma group_by_values:
  "set (concat (map snd (group_by lt val es))) = val ` set es
   \<and> (distinct (map val es) \<longrightarrow> distinct (concat (map snd (group_by lt val es))))"
proof (induction es rule: rev_induct)
  case (snoc e es)
  let ?m = "group_by lt val es"
  have "group_by lt val (es @ [e]) = group_step lt val e ?m" by (simp add: group_by_def)
  then show ?case using snoc group_step_values [where lt = lt and val = val and e = e and m = ?m] by (simp del: set_concat)
qed (simp add: group_by_def)

section \<open>Unwinding\<close>

text \<open>The instruction pointers the cursor yields before it stops.\<close>

definition readable :: "cursor_step list \<Rightarrow> u64 list" where
  "readable cs = map ip (filter (\<lambda>c. reg_ret c = 0) (takeWhile (\<lambda>c. step_ret c > 0) cs))"

lemma AddAddress_frames:
  assumes "wf_form f"
  shows "AddAddress a f = (False, f) \<and> depth (stack f) = kMaxDepth
    \<or> (\<exists>f'. AddAddress a f = (True, f') \<and> depth (stack f) < kMaxDepth \<and> wf_form f'
        \<and> frames (stack f') = frames (stack f) @ [a] \<and> tid (stack f') = tid (stack f)
        \<and> ack_fd f' = ack_fd f)"
  using assms by (auto simp: AddAddress_def wf_form_def frames_def take_Suc_conv_app_nth)

lemma unwind_frames:
  assumes "wf_form f"
  shows "wf_form (unwind cs f) \<and> tid (stack (unwind cs f)) = tid (stack f)
    \<and> ack_fd (unwind cs f) = ack_fd f
    \<and> frames (stack (unwind cs f)) = take kMaxDepth (frames (stack f) @ readable cs)"
  using assms
proof (induction cs arbitrary: f)
  case Nil
  then show ?case by (auto simp: readable_def wf_form_def frames_def)
next
  case (Cons c cs)
  have short: "length (frames (stack f)) \<le> kMaxDepth"
    using Cons.prems length_frames [of f] by (simp add: wf_form_def)
  show ?case
  proof (cases "step_ret c > 0 \<and> reg_ret c = 0")
    case True
    from AddAddress_frames [OF Cons.prems, of "ip c"]
    show ?thesis
    proof (elim disjE exE)
      assume "AddAddress (ip c) f = (False, f) \<and> depth (stack f) = kMaxDepth"
      then show ?thesis using True Cons.prems length_frames [OF Cons.prems] by simp
    next
      fix f'
      assume "AddAddress (ip c) f = (True, f') \<and> depth (stack f) < kMaxDepth \<and> wf_form f'
        \<and> frames (stack f') = frames (stack f) @ [ip c] \<and> tid (stack f') = tid (stack f)
        \<and> ack_fd f' = ack_fd f"
      then show ?thesis using True Cons.IH [of f'] by (simp add: readable_def)
    qed
  next
    case False
    then show ?thesis using Cons short by (auto simp: readable_def)
  qed
qed

lemma new_form: "length g = kMaxDepth \<Longrightarrow> wf_form (StackTraceForm g t fd)
    \<and> frames (stack (StackTraceForm g t fd)) = [] \<and> tid (stack (StackTraceForm g t fd)) = t"
  by (simp add: StackTraceForm_def wf_form_def frames_def)

lemma map_nth_take: "n \<le> length xs \<Longrightarrow> map (\<lambda>i. xs ! i) [0..<n] = take n xs"
  by (rule nth_equalityI) auto

lemma result_trace:
  "wf_form (fst e) \<Longrightarrow> map fst (trace (result_of sy e)) = frames (stack (fst e))"
  by (simp add: result_of_def symbolized_def comp_def wf_form_def frames_def map_nth_take)

lemma pretty_loop_tids:
  "fst (snd (pretty_loop r (ss, ts, err))) = ts @ concat (map tids r)"
  by (induction r arbitrary: ss ts err) auto

lemma unique_traces_grouped:
  "\<forall>f \<in> set slot. wf_form f \<Longrightarrow>
    grouped StackComparator (\<lambda>e. tid (stack e)) slot (unique_traces slot)"
  unfolding unique_traces_def by (rule stacks.group_by_grouped)

lemma results_tids: "map tids (collect_results sy slot) = map snd (unique_traces slot)"
  by (simp add: collect_results_def result_of_def comp_def)

lemma inj_tid:
  "distinct (map (\<lambda>f. tid (stack f)) slot) \<Longrightarrow> f \<in> set slot \<Longrightarrow> g \<in> set slot \<Longrightarrow>
    tid (stack f) = tid (stack g) \<Longrightarrow> f = g"
  by (auto simp: distinct_map inj_on_def)

lemma results_distinct:
  "distinct (map (\<lambda>f. tid (stack f)) slot) \<Longrightarrow> distinct (concat (map tids (collect_results sy slot)))"
  unfolding results_tids unique_traces_def by (rule group_by_values [THEN conjunct2, THEN mp])

lemma results_set:
  "set (concat (map tids (collect_results sy slot))) = (\<lambda>f. tid (stack f)) ` set slot"
  unfolding results_tids unique_traces_def by (rule group_by_values [THEN conjunct1])

lemma unique_traces_wf:
  assumes "\<forall>f \<in> set slot. wf_form f" and "(k, vs) \<in> set (unique_traces slot)"
  shows "wf_form k"
proof -
  have "fst ` set (unique_traces slot) \<subseteq> set slot"
    using unique_traces_grouped [OF assms(1)] by (simp add: grouped_def)
  from subsetD [OF this, of k] show ?thesis using assms by force
qed

lemma results_trace:
  assumes wf: "\<forall>f \<in> set slot. wf_form f" and "distinct (map (\<lambda>f. tid (stack f)) slot)"
    and r: "r \<in> set (collect_results sy slot)" and f: "f \<in> set slot"
  shows "tid (stack f) \<in> set (tids r) \<longleftrightarrow> map fst (trace r) = frames (stack f)"
proof -
  obtain k vs where k: "(k, vs) \<in> set (unique_traces slot)" "r = result_of sy (k, vs)"
    using r by (auto simp: collect_results_def)
  note wfk = unique_traces_wf [OF wf k(1)]
  have "map fst (trace r) = frames (stack k)" using result_trace [of "(k, vs)"] wfk k(2) by simp
  moreover have "tids r = map (\<lambda>e. tid (stack e)) (filter (equivalent StackComparator k) slot)"
    using stacks.valuesD [OF unique_traces_grouped [OF wf] k(1)] k(2) by (simp add: result_of_def)
  moreover have "equivalent StackComparator k e \<longleftrightarrow> frames (stack k) = frames (stack e)"
    if "e \<in> set slot" for e
    using equivalent_frames [OF wfk] wf that by blast
  ultimately show ?thesis using f inj_tid [OF assms(2) f] by auto
qed

lemma results_sorted:
  assumes "\<forall>f \<in> set slot. wf_form f"
  shows "sorted_wrt (\<lambda>r r'. length (trace r) < length (trace r')
         \<or> length (trace r) = length (trace r')
           \<and> map (sint \<circ> fst) (trace r) < map (sint \<circ> fst) (trace r')) (collect_results sy slot)"
proof -
  have len: "length (trace (result_of sy (k, vs))) = depth (stack k)" for k vs
    by (simp add: result_of_def)
  have addr: "map (sint \<circ> fst) (trace (result_of sy (k, vs))) = map sint (frames (stack k))"
    if "wf_form k" for k vs
    using result_trace [of "(k, vs)" sy] that by (simp flip: map_map)
  have "sorted_wrt (\<lambda>a b. StackComparator (fst a) (fst b)) (unique_traces slot)"
    using unique_traces_grouped [OF assms] by (simp add: grouped_def sorted_wrt_map)
  then show ?thesis
    unfolding collect_results_def sorted_wrt_map
    by (rule sorted_wrt_mono_rel [rotated])
      (auto simp: len addr unique_traces_wf [OF assms] StackComparator_less)
qed

lemma InternalHandler_fresh:
  assumes "length g = kMaxDepth" and "InternalHandler h (Some (StackTraceForm g t fd)) = (Some f, 1)"
  shows "wf_form f \<and> tid (stack f) = t
    \<and> frames (stack f) = take kMaxDepth (readable (drop 1 (cursor h)))"
  using assms(2) new_form [OF assms(1), of t fd]
    unwind_frames [of "StackTraceForm g t fd" "drop 1 (cursor h)"]
  by (auto simp: InternalHandler_def split: if_splits)

section \<open>Properties\<close>

text \<open>
  C9. What the handler writes: on its own process's signal and with a working unwinder, a fresh
  form ends with exactly the first \<open>kMaxDepth\<close> readable frames above the handler's own, within
  the bounds of the array, the thread's id and the ack descriptor untouched, and one ack is
  written if \<open>write\<close> accepts it. On every other path the form is unchanged and no ack is sent.
\<close>

theorem InternalHandler_fills_form:
  assumes "length garbage = kMaxDepth"
  shows "if si_pid h = own_pid h \<and> getcontext_ret h = 0 \<and> init_local_ret h = 0
    then \<exists>f. InternalHandler h (Some (StackTraceForm garbage t fd))
               = (Some f, if write_ret h = 1 then 1 else 0)
           \<and> wf_form f \<and> tid (stack f) = t \<and> ack_fd f = fd
           \<and> frames (stack f) = take kMaxDepth (readable (drop 1 (cursor h)))
    else InternalHandler h (Some (StackTraceForm garbage t fd))
           = (Some (StackTraceForm garbage t fd), 0)"
  using new_form [OF assms, of t fd]
    unwind_frames [of "StackTraceForm garbage t fd" "drop 1 (cursor h)"]
  by (auto simp: InternalHandler_def Submit_def StackTraceForm_def)

lemma InternalHandler_fills_form_witness:
  "\<exists>f. InternalHandler
         \<lparr>si_pid = 5, own_pid = 5, getcontext_ret = 0, init_local_ret = 0,
          cursor = [\<lparr>step_ret = 1, reg_ret = 0, ip = 1\<rparr>, \<lparr>step_ret = 1, reg_ret = 0, ip = 77\<rparr>,
                    \<lparr>step_ret = 0, reg_ret = 0, ip = 0\<rparr>], write_ret = 1\<rparr>
         (Some (StackTraceForm (replicate kMaxDepth 0) 9 4)) = (Some f, 1)
     \<and> frames (stack f) = [77]"
  using InternalHandler_fills_form [of "replicate kMaxDepth 0"
      "\<lparr>si_pid = 5, own_pid = 5, getcontext_ret = 0, init_local_ret = 0,
        cursor = [\<lparr>step_ret = 1, reg_ret = 0, ip = 1\<rparr>, \<lparr>step_ret = 1, reg_ret = 0, ip = 77\<rparr>,
                  \<lparr>step_ret = 0, reg_ret = 0, ip = 0\<rparr>], write_ret = 1\<rparr>" 9 4]
  by (auto simp: readable_def kMaxDepth_def)

text \<open>
  C7. The results partition the threads: every thread whose form is in the slots is listed once
  over all results, a result lists exactly the threads whose stack is its trace, and the results
  come in strictly increasing order of the depth and then of the addresses.
\<close>

theorem collect_results_exact:
  assumes "\<forall>f \<in> set slot. wf_form f" and "distinct (map (\<lambda>f. tid (stack f)) slot)"
  shows "distinct (concat (map tids (collect_results sy slot)))
    \<and> set (concat (map tids (collect_results sy slot))) = (\<lambda>f. tid (stack f)) ` set slot
    \<and> (\<forall>r \<in> set (collect_results sy slot). \<forall>f \<in> set slot.
         tid (stack f) \<in> set (tids r) \<longleftrightarrow> map fst (trace r) = frames (stack f))
    \<and> sorted_wrt (\<lambda>r r'. length (trace r) < length (trace r')
         \<or> length (trace r) = length (trace r')
           \<and> map (sint \<circ> fst) (trace r) < map (sint \<circ> fst) (trace r')) (collect_results sy slot)"
  using results_distinct [OF assms(2)] results_set results_trace [OF assms] results_sorted [OF assms(1)]
  by blast

lemma collect_results_exact_witness:
  "set (concat (map tids (collect_results (\<lambda>a. None)
      [StackTraceForm (replicate kMaxDepth 0) 3 4, StackTraceForm (replicate kMaxDepth 1) 5 4]))) = {3, 5}"
  using collect_results_exact [of "[StackTraceForm (replicate kMaxDepth 0) 3 4,
      StackTraceForm (replicate kMaxDepth 1) 5 4]" "\<lambda>a. None"]
  by (simp add: StackTraceForm_def wf_form_def del: set_concat)

end
