(* ===== verification/Stack_Collect.thy ===== *)
theory Stack_Collect
  imports Stack_Form
begin

text \<open>
  The collector of \<^verbatim>\<open>src/src/ts/signal_handler.cc\<close>: \<open>StackTraceCollector::Collect\<close> signals every
  thread of the process with a pointer to a form, waits for one ack per signalled thread on a
  pipe, bounded by a timer, and turns the filled forms into results. The answers of the system
  calls are the fields of an environment; what happens while the collector waits (the handlers
  of the other threads running, the outcomes of \<open>select\<close>) is a list of events. Diagnostics on
  \<open>std::cerr\<close> are left out.
\<close>

section \<open>The process\<close>

text \<open>
  Open descriptors; the live forms (one per signalled thread, so a form is named by its thread);
  the signals that are queued and not yet handled; the bytes in the ack pipe; whether a handler
  has accessed a form that no longer exists.
\<close>

record world =
  fds :: "int set"
  forms :: "int \<Rightarrow> stack_trace_form option"
  pending :: "int set"
  acked :: nat
  use_after_free :: bool

definition close :: "int \<Rightarrow> world \<Rightarrow> world" where
  "close fd w = w\<lparr>fds := fds w - {fd}\<rparr>"

text \<open>
  The system calls' answers: the listed threads, the pipe (read end, write end), the result of
  \<open>SignalThread\<close> for each thread, \<open>timerfd_create\<close>, \<open>timerfd_settime\<close>, and the uninitialised
  contents of each new form.
\<close>

record collect_env =
  listed :: "int list"
  pipe_ret :: "(int \<times> int) option"
  signal_ret :: "int \<Rightarrow> int"
  timer_ret :: int
  settime_ret :: int
  garbage :: "int \<Rightarrow> u64 list"

datatype event =
    Handler int handler_env
  | SelectFailed
  | SelectNothing
  | SelectTimer
  | SelectPipe bool

text \<open>
  A thread takes its queued signal. \<open>SignalThread\<close> put the process's own id into \<open>si_pid\<close>, and
  the payload is the address of the form, which is dangling once the form has been freed. A
  handler's run is one step: it touches only its own form and its ack is its last access, so a
  run that begins while the other threads are still being signalled can be taken to happen at
  the beginning of the wait. A handler that is in the middle of its run when \<open>Collect\<close> returns is
  counted as one whose signal is still queued.
\<close>

definition SignalThread :: "int \<Rightarrow> handler_env \<Rightarrow> handler_env" where
  "SignalThread pid h = h\<lparr>si_pid := pid, own_pid := pid\<rparr>"

definition run_handler :: "int \<Rightarrow> int \<Rightarrow> handler_env \<Rightarrow> world \<Rightarrow> world" where
  "run_handler pid t h w =
     (if t \<notin> pending w then w
      else case forms w t of
        None \<Rightarrow>
          w\<lparr>pending := pending w - {t},
            use_after_free := use_after_free w \<or> (getcontext_ret h = 0 \<and> init_local_ret h = 0)\<rparr>
      | Some f \<Rightarrow>
          (case InternalHandler (SignalThread pid h) (Some f) of (f', n) \<Rightarrow>
             w\<lparr>pending := pending w - {t}, forms := (forms w)(t := f'), acked := acked w + n\<rparr>))"

section \<open>Collect\<close>

text \<open>\<open>std::set_difference\<close> on two increasing sequences.\<close>

fun STLSetDifference :: "int list \<Rightarrow> int list \<Rightarrow> int list" where
  "STLSetDifference [] ys = []"
| "STLSetDifference (x # xs) [] = x # xs"
| "STLSetDifference (x # xs) (y # ys) =
     (if x < y then x # STLSetDifference xs (y # ys)
      else if y < x then STLSetDifference (x # xs) ys
      else STLSetDifference xs ys)"

text \<open>A \<open>std::set<pid_t>\<close> built from a vector, as its elements in increasing order.\<close>

definition set_of_vector :: "int list \<Rightarrow> int list" where
  "set_of_vector v = fold insort_insert v []"

text \<open>Step 2: the threads whose form is in \<open>slot\<close>, those that could not be signalled.\<close>

fun signal_loop ::
    "collect_env \<Rightarrow> int \<Rightarrow> int list \<Rightarrow> int list \<Rightarrow> int list \<Rightarrow> world \<Rightarrow> int list \<times> int list \<times> world" where
  "signal_loop e ack [] slot failed w = (slot, failed, w)"
| "signal_loop e ack (t # ts) slot failed w =
     (if signal_ret e t \<noteq> 0 then signal_loop e ack ts slot (insort_insert t failed) w
      else signal_loop e ack ts (slot @ [t]) failed
             (w\<lparr>forms := (forms w)(t \<mapsto> StackTraceForm (garbage e t) t ack),
                pending := insert t (pending w)\<rparr>))"

text \<open>
  Step 4: one event of the waiting loop. A read of the pipe that fails, or finds it empty
  (it is non-blocking), counts no ack.
\<close>

fun wait_step :: "int \<Rightarrow> event \<Rightarrow> nat \<times> world \<Rightarrow> nat \<times> world" where
  "wait_step pid (Handler t h) (acks, w) = (acks, run_handler pid t h w)"
| "wait_step pid SelectFailed (acks, w) = (acks, w)"
| "wait_step pid SelectNothing (acks, w) = (acks, w)"
| "wait_step pid SelectTimer (acks, w) = (acks, w)"
| "wait_step pid (SelectPipe failed) (acks, w) =
     (if failed \<or> acked w = 0 then (acks, w) else (acks + 1, w\<lparr>acked := acked w - 1\<rparr>))"

text \<open>
  The loop: whether all acks came (or the timer fired), the acks counted, and the events that
  come later. \<open>None\<close>: the events are used up and the collector still waits.
\<close>

fun wait_loop ::
    "int \<Rightarrow> nat \<Rightarrow> event list \<Rightarrow> nat \<times> world \<Rightarrow> (bool \<times> nat \<times> world \<times> event list) option" where
  "wait_loop pid n [] (acks, w) = (if n \<le> acks then Some (True, acks, w, []) else None)"
| "wait_loop pid n (ev # evs) (acks, w) =
     (if n \<le> acks then Some (True, acks, w, ev # evs)
      else if ev = SelectTimer then Some (False, acks, w, evs)
      else wait_loop pid n evs (wait_step pid ev (acks, w)))"

definition timeout_error :: "nat \<Rightarrow> nat \<Rightarrow> string" where
  "timeout_error n acks = ''Failed to get all ('' @ decimal n
     @ '') stacktraces within timeout. Got only '' @ decimal acks"

text \<open>
  Every return runs the deferred calls and then destroys \<open>slot\<close>, which was declared before
  them and owns the forms.
\<close>

definition leave :: "int list \<Rightarrow> world scoped_lambda list \<Rightarrow> world \<Rightarrow> world" where
  "leave slot defers w =
     (let w' = scope_exit defers w in w'\<lparr>forms := \<lambda>t. if t \<in> set slot then None else forms w' t\<rparr>)"

type_synonym collected = "result list \<times> string \<times> world \<times> event list"

definition Collect ::
    "(u64 \<Rightarrow> string option) \<Rightarrow> int \<Rightarrow> collect_env \<Rightarrow> event list \<Rightarrow> string \<Rightarrow> world \<Rightarrow> collected option" where
  "Collect Symbolize pid e evs error w =
     (let init_tids = set_of_vector (listed e) in
      case pipe_ret e of
        None \<Rightarrow> Some ([], ''Internal server error'', w, evs)
      | Some (rd, wr) \<Rightarrow>
          (let w1 = w\<lparr>fds := insert rd (insert wr (fds w)), acked := 0\<rparr>;
               defers = DEFER (close wr) (DEFER (close rd) []) in
           case signal_loop e wr init_tids [] [] w1 of (slot, failed_tids, w2) \<Rightarrow>
             (let tids = STLSetDifference init_tids failed_tids in
              if timer_ret e = -1 then
                Some ([], ''Failed to create an internal timer'', leave slot defers w2, evs)
              else
                (let w3 = w2\<lparr>fds := insert (timer_ret e) (fds w2)\<rparr> in
                 if settime_ret e = -1 then
                   Some ([], ''Failed to set an internal timer'', leave slot defers w3, evs)
                 else
                   (let defers' = DEFER (close (timer_ret e)) defers in
                    case wait_loop pid (length tids) evs (0, w3) of
                      None \<Rightarrow> None
                    | Some (complete, acks, w4, rest) \<Rightarrow>
                        if complete then
                          Some (collect_results Symbolize (List.map_filter (forms w4) slot), error,
                                leave slot defers' w4, rest)
                        else
                          Some ([], timeout_error (length tids) acks, leave slot defers' w4, rest))))))"

section \<open>Sets as increasing sequences\<close>

lemma fold_insort_insert:
  "sorted acc \<Longrightarrow> distinct acc \<Longrightarrow>
    sorted (fold insort_insert v acc) \<and> distinct (fold insort_insert v acc)
    \<and> set (fold insort_insert v acc) = set acc \<union> set (v :: int list)"
proof (induction v arbitrary: acc)
  case (Cons x v)
  have "sorted (insort_insert x acc)" "distinct (insort_insert x acc)"
    using Cons.prems by (simp_all add: sorted_insort_insert distinct_insort_insert)
  then show ?case using Cons.IH by (simp add: set_insort_insert)
qed simp

lemma set_of_vector:
  "sorted (set_of_vector v)" "distinct (set_of_vector v)" "set (set_of_vector v) = set v"
  using fold_insort_insert [of "[]" v] by (simp_all add: set_of_vector_def)

lemma STLSetDifference_filter:
  "sorted xs \<Longrightarrow> sorted ys \<Longrightarrow> distinct xs \<Longrightarrow> distinct ys \<Longrightarrow>
    STLSetDifference xs ys = filter (\<lambda>x. x \<notin> set ys) xs"
proof (induction xs ys rule: STLSetDifference.induct)
  case (3 x xs y ys)
  consider "x < y" | "y < x" | "x = y" by linarith
  then show ?case
  proof cases
    case 1
    then have "x \<notin> set (y # ys)" using 3 by auto
    then show ?thesis using 1 3 by simp
  next
    case 2
    then have "y \<notin> set (x # xs)" using 3 by auto
    then have "filter (\<lambda>z. z \<notin> set (y # ys)) (x # xs) = filter (\<lambda>z. z \<notin> set ys) (x # xs)"
      by (intro filter_cong) auto
    then show ?thesis using 2 3 by (simp del: filter.simps)
  next
    case eq: 3
    then have "filter (\<lambda>z. z \<notin> set (y # ys)) xs = filter (\<lambda>z. z \<notin> set ys) xs"
      using 3 by (intro filter_cong) auto
    then show ?thesis using eq 3 by simp
  qed
qed simp_all

section \<open>Signalling\<close>

lemma signal_loop_spec:
  assumes "signal_loop e ack ts slot failed w = (slot', failed', w')"
    and "sorted failed" and "distinct failed"
  shows "slot' = slot @ filter (\<lambda>t. signal_ret e t = 0) ts
    \<and> sorted failed' \<and> distinct failed'
    \<and> set failed' = set failed \<union> {t \<in> set ts. signal_ret e t \<noteq> 0}
    \<and> fds w' = fds w \<and> acked w' = acked w \<and> use_after_free w' = use_after_free w
    \<and> pending w' = pending w \<union> {t \<in> set ts. signal_ret e t = 0}
    \<and> (\<forall>t. forms w' t = (if t \<in> set ts \<and> signal_ret e t = 0
                         then Some (StackTraceForm (garbage e t) t ack) else forms w t))"
  using assms
proof (induction ts arbitrary: slot failed w)
  case (Cons t ts)
  show ?case
  proof (cases "signal_ret e t = 0")
    case True
    then show ?thesis using Cons.prems
        Cons.IH [of "slot @ [t]" failed "w\<lparr>forms := (forms w)(t \<mapsto> StackTraceForm (garbage e t) t ack),
                pending := insert t (pending w)\<rparr>"] by auto
  next
    case False
    have "sorted (insort_insert t failed)" "distinct (insort_insert t failed)"
      using Cons.prems(2,3) by (simp_all add: sorted_insort_insert distinct_insort_insert)
    then show ?thesis using Cons.IH [of slot "insort_insert t failed" w] Cons.prems(1) False
      by (auto simp: set_insort_insert)
  qed
qed simp

definition signalled :: "collect_env \<Rightarrow> int list" where
  "signalled e = filter (\<lambda>t. signal_ret e t = 0) (set_of_vector (listed e))"

lemma signalled: "distinct (signalled e)" "set (signalled e) = {t \<in> set (listed e). signal_ret e t = 0}"
  by (auto simp: signalled_def set_of_vector)

text \<open>Steps 2 and 3 in one: the slots, and the number of acks the loop waits for.\<close>

lemma signal_all:
  assumes "signal_loop e ack (set_of_vector (listed e)) [] [] w = (slot, failed, w')"
  shows "slot = signalled e
    \<and> STLSetDifference (set_of_vector (listed e)) failed = signalled e
    \<and> fds w' = fds w \<and> acked w' = acked w \<and> use_after_free w' = use_after_free w
    \<and> pending w' = pending w \<union> set (signalled e)
    \<and> (\<forall>t. forms w' t = (if t \<in> set (signalled e)
                         then Some (StackTraceForm (garbage e t) t ack) else forms w t))"
proof -
  note spec = signal_loop_spec [OF assms]
  have "STLSetDifference (set_of_vector (listed e)) failed
      = filter (\<lambda>t. t \<notin> set failed) (set_of_vector (listed e))"
    using spec by (intro STLSetDifference_filter) (simp_all add: set_of_vector)
  also have "\<dots> = signalled e"
    unfolding signalled_def using spec by (intro filter_cong) (simp_all add: set_of_vector)
  finally show ?thesis using spec by (auto simp: signalled_def)
qed

section \<open>The waiting loop\<close>

text \<open>The handler's run that a thread's signal causes: the first one after it was sent.\<close>

fun first_handler :: "int \<Rightarrow> event list \<Rightarrow> handler_env option" where
  "first_handler t [] = None"
| "first_handler t (Handler t' h # evs) = (if t = t' then Some h else first_handler t evs)"
| "first_handler t (SelectFailed # evs) = first_handler t evs"
| "first_handler t (SelectNothing # evs) = first_handler t evs"
| "first_handler t (SelectTimer # evs) = first_handler t evs"
| "first_handler t (SelectPipe b # evs) = first_handler t evs"

definition handled :: "int \<Rightarrow> stack_trace_form \<Rightarrow> handler_env \<Rightarrow> stack_trace_form option \<times> nat" where
  "handled pid f h = InternalHandler (SignalThread pid h) (Some f)"

text \<open>
  The state of the loop while it collects from the threads \<open>S\<close>, whose forms were \<open>new\<close>, when the
  handlers \<open>hs\<close> have run: a thread without a run still has its signal queued and its form as it
  was; the others have written theirs; acks counted and acks in the pipe make up the acks sent.
\<close>

definition acks_sent :: "int \<Rightarrow> int set \<Rightarrow> (int \<Rightarrow> stack_trace_form) \<Rightarrow> (int \<Rightarrow> handler_env option) \<Rightarrow> int set" where
  "acks_sent pid S new hs = {t \<in> S. \<exists>h. hs t = Some h \<and> snd (handled pid (new t) h) = 1}"

definition collecting ::
    "int \<Rightarrow> int set \<Rightarrow> (int \<Rightarrow> stack_trace_form) \<Rightarrow> (int \<Rightarrow> handler_env option) \<Rightarrow> nat \<times> world \<Rightarrow> bool" where
  "collecting pid S new hs st \<longleftrightarrow>
     pending (snd st) = {t \<in> S. hs t = None}
     \<and> (\<forall>t \<in> S. forms (snd st) t = (case hs t of None \<Rightarrow> Some (new t) | Some h \<Rightarrow> fst (handled pid (new t) h)))
     \<and> fst st + acked (snd st) = card (acks_sent pid S new hs)"

lemma handled_cases: "snd (handled pid f h) = 0 \<or> snd (handled pid f h) = 1"
  by (auto simp: handled_def InternalHandler_def)

lemma wait_step_keeps:
  "fds (snd (wait_step pid ev (acks, w))) = fds w"
  by (cases ev) (auto simp: run_handler_def split: option.splits prod.splits)

lemma run_handler_collecting:
  assumes "collecting pid S new hs (acks, w)" and "finite S"
  shows "collecting pid S new (if t \<in> S \<and> hs t = None then hs(t \<mapsto> h) else hs) (acks, run_handler pid t h w)
    \<and> use_after_free (run_handler pid t h w) = use_after_free w"
proof (cases "t \<in> S \<and> hs t = None")
  case True
  then have f: "forms w t = Some (new t)" and p: "t \<in> pending w"
    using assms(1) by (auto simp: collecting_def)
  have sent: "acks_sent pid S new (hs(t \<mapsto> h)) =
      (if snd (handled pid (new t) h) = 1 then insert t (acks_sent pid S new hs) else acks_sent pid S new hs)"
    using True by (auto simp: acks_sent_def)
  have "t \<notin> acks_sent pid S new hs" "finite (acks_sent pid S new hs)"
    using True assms(2) by (auto simp: acks_sent_def)
  then have "card (acks_sent pid S new (hs(t \<mapsto> h))) =
      card (acks_sent pid S new hs) + snd (handled pid (new t) h)"
    using handled_cases [of pid "new t" h] by (auto simp: sent)
  then show ?thesis using True f p assms(1)
    by (auto simp: collecting_def run_handler_def handled_def split: prod.splits)
next
  case False
  then have "t \<notin> pending w" using assms(1) by (auto simp: collecting_def)
  then show ?thesis using False assms(1) by (auto simp: run_handler_def)
qed

lemma wait_step_collecting:
  assumes "collecting pid S new hs (acks, w)" and "finite S" and "ev \<noteq> SelectTimer"
  shows "\<exists>hs'. collecting pid S new hs' (wait_step pid ev (acks, w))
    \<and> (\<forall>t \<in> S. hs' t = (case hs t of Some h \<Rightarrow> Some h | None \<Rightarrow> first_handler t [ev]))
    \<and> use_after_free (snd (wait_step pid ev (acks, w))) = use_after_free w"
proof (cases ev)
  case (Handler t h)
  then show ?thesis using run_handler_collecting [OF assms(1,2), of t h]
    by (intro exI [of _ "if t \<in> S \<and> hs t = None then hs(t \<mapsto> h) else hs"])
      (auto split: option.splits)
next
  case (SelectPipe failed)
  then show ?thesis using assms(1)
    by (intro exI [of _ hs]) (auto simp: collecting_def split: option.splits)
qed (use assms in \<open>auto intro!: exI [of _ hs] split: option.splits\<close>)

lemma first_handler_Cons:
  "first_handler t (ev # evs) =
    (case first_handler t [ev] of Some h \<Rightarrow> Some h | None \<Rightarrow> first_handler t evs)"
  by (cases ev) auto

lemma wait_loop_collecting:
  assumes "wait_loop pid n evs (acks, w) = Some (b, acks', w', rest)"
    and "collecting pid S new hs (acks, w)" and "finite S"
  shows "\<exists>hs'. collecting pid S new hs' (acks', w')
    \<and> (\<forall>t \<in> S. \<forall>h. hs' t = Some h \<longrightarrow> hs t = Some h \<or> hs t = None \<and> first_handler t evs = Some h)
    \<and> use_after_free w' = use_after_free w \<and> (b \<longleftrightarrow> n \<le> acks')"
  using assms
proof (induction evs arbitrary: acks w hs)
  case Nil
  then show ?case by (auto split: if_splits)
next
  case (Cons ev evs)
  show ?case
  proof (cases "n \<le> acks \<or> ev = SelectTimer")
    case True
    then show ?thesis using Cons.prems by (auto split: if_splits)
  next
    case False
    obtain acks1 w1 where s1: "wait_step pid ev (acks, w) = (acks1, w1)" by fastforce
    obtain hs1 where hs1: "collecting pid S new hs1 (acks1, w1)"
        "\<forall>t \<in> S. hs1 t = (case hs t of Some h \<Rightarrow> Some h | None \<Rightarrow> first_handler t [ev])"
        "use_after_free w1 = use_after_free w"
      using wait_step_collecting [OF Cons.prems(2,3), of ev] False s1 by auto
    have "wait_loop pid n evs (acks1, w1) = Some (b, acks', w', rest)"
      using Cons.prems(1) False s1 by simp
    from Cons.IH [OF this hs1(1) Cons.prems(3)]
    obtain hs' where hs': "collecting pid S new hs' (acks', w')"
        "\<forall>t \<in> S. \<forall>h. hs' t = Some h \<longrightarrow> hs1 t = Some h \<or> hs1 t = None \<and> first_handler t evs = Some h"
        "use_after_free w' = use_after_free w1" "b \<longleftrightarrow> n \<le> acks'" by blast
    have "hs t = Some h \<or> hs t = None \<and> first_handler t (ev # evs) = Some h"
      if t: "t \<in> S" and h: "hs' t = Some h" for t h
    proof -
      have "hs1 t = Some h \<or> hs1 t = None \<and> first_handler t evs = Some h" using hs'(2) t h by blast
      moreover have "hs1 t = (case hs t of Some h \<Rightarrow> Some h | None \<Rightarrow> first_handler t [ev])"
        using hs1(2) t by blast
      ultimately show ?thesis unfolding first_handler_Cons [of t ev evs] by (cases "hs t") auto
    qed
    then show ?thesis using hs'(1,3,4) hs1(3) by auto
  qed
qed

lemma wait_loop_fds:
  "wait_loop pid n evs (acks, w) = Some (b, acks', w', rest) \<Longrightarrow> fds w' = fds w"
proof (induction evs arbitrary: acks w)
  case (Cons ev evs)
  obtain acks1 w1 where s1: "wait_step pid ev (acks, w) = (acks1, w1)" by fastforce
  show ?case
  proof (cases "n \<le> acks \<or> ev = SelectTimer")
    case True
    then show ?thesis using Cons.prems by (auto split: if_splits)
  next
    case False
    then have "wait_loop pid n evs (acks1, w1) = Some (b, acks', w', rest)" using Cons.prems s1 by simp
    then show ?thesis using Cons.IH wait_step_keeps [of pid ev acks w] s1 by simp
  qed
qed (auto split: if_splits)

text \<open>When every thread's ack has been counted, every handler has run and written its form.\<close>

lemma all_acked:
  assumes "collecting pid S new hs (acks, w)" and "finite S" and "card S \<le> acks" and "t \<in> S"
  shows "t \<notin> pending w \<and> (\<exists>h f. hs t = Some h \<and> handled pid (new t) h = (Some f, 1) \<and> forms w t = Some f)"
proof -
  have "acks_sent pid S new hs \<subseteq> S" by (auto simp: acks_sent_def)
  moreover have "card S \<le> card (acks_sent pid S new hs)"
    using assms(1,3) by (simp add: collecting_def)
  ultimately have "acks_sent pid S new hs = S" using assms(2) by (simp add: card_seteq)
  then obtain h where h: "hs t = Some h" "snd (handled pid (new t) h) = 1"
    using assms(4) by (auto simp: acks_sent_def)
  then obtain f where "handled pid (new t) h = (Some f, 1)"
    by (auto simp: handled_def InternalHandler_def split: if_splits)
  then show ?thesis using assms(1,4) h by (auto simp: collecting_def)
qed

section \<open>From the pipe to the loop\<close>

definition collect_end ::
    "(u64 \<Rightarrow> string option) \<Rightarrow> collect_env \<Rightarrow> int \<Rightarrow> int \<Rightarrow> string \<Rightarrow> (bool \<times> nat \<times> world \<times> event list) option \<Rightarrow> collected option" where
  "collect_end sy e rd wr error out =
     (case out of None \<Rightarrow> None
      | Some (complete, acks, w4, rest) \<Rightarrow>
          Some (if complete then collect_results sy (List.map_filter (forms w4) (signalled e)) else [],
                if complete then error else timeout_error (length (signalled e)) acks,
                leave (signalled e)
                  (DEFER (close (timer_ret e)) (DEFER (close wr) (DEFER (close rd) []))) w4, rest))"

lemma Collect_waits:
  assumes "pipe_ret e = Some (rd, wr)" and "timer_ret e \<noteq> -1" and "settime_ret e \<noteq> -1"
  shows "\<exists>w3. Collect sy pid e evs error w =
      collect_end sy e rd wr error (wait_loop pid (length (signalled e)) evs (0, w3))
    \<and> fds w3 = insert (timer_ret e) (insert rd (insert wr (fds w)))
    \<and> use_after_free w3 = use_after_free w
    \<and> (pending w = {} \<longrightarrow> collecting pid (set (signalled e))
         (\<lambda>t. StackTraceForm (garbage e t) t wr) (\<lambda>t. None) (0, w3))"
proof -
  obtain slot failed w2 where s: "signal_loop e wr (set_of_vector (listed e)) [] []
      (w\<lparr>fds := insert rd (insert wr (fds w)), acked := 0\<rparr>) = (slot, failed, w2)"
    by (metis prod_cases3)
  note spec = signal_all [OF s]
  let ?w3 = "w2\<lparr>fds := insert (timer_ret e) (fds w2)\<rparr>"
  have "Collect sy pid e evs error w =
      collect_end sy e rd wr error (wait_loop pid (length (signalled e)) evs (0, ?w3))"
    using assms s spec
    by (simp add: Collect_def collect_end_def Let_def split: option.splits prod.splits if_splits)
  moreover have "pending w = {} \<longrightarrow> collecting pid (set (signalled e))
      (\<lambda>t. StackTraceForm (garbage e t) t wr) (\<lambda>t. None) (0, ?w3)"
    using spec by (simp add: collecting_def acks_sent_def)
  ultimately show ?thesis using spec by (intro exI [of _ ?w3]) simp
qed

lemma leave_simps [simp]:
  "fds (leave slot defers w) = fds (scope_exit defers w)"
  "pending (leave slot defers w) = pending (scope_exit defers w)"
  "use_after_free (leave slot defers w) = use_after_free (scope_exit defers w)"
  "forms (leave slot defers w) t = (if t \<in> set slot then None else forms (scope_exit defers w) t)"
  by (simp_all add: leave_def Let_def)

lemma close_simps [simp]:
  "fds (close fd w) = fds w - {fd}" "pending (close fd w) = pending w" "forms (close fd w) = forms w"
  "use_after_free (close fd w) = use_after_free w"
  by (simp_all add: close_def)

text \<open>The kernel hands out descriptors that are not in use.\<close>

definition fresh_fds :: "collect_env \<Rightarrow> world \<Rightarrow> bool" where
  "fresh_fds e w =
     (case pipe_ret e of None \<Rightarrow> True
      | Some (rd, wr) \<Rightarrow> rd \<notin> fds w \<and> wr \<notin> fds w \<and> timer_ret e \<notin> fds w
                        \<and> timer_ret e \<noteq> rd \<and> timer_ret e \<noteq> wr)"

text \<open>The two returns before the loop.\<close>

lemma Collect_no_timer:
  assumes "pipe_ret e = Some (rd, wr)" and "timer_ret e = -1 \<or> settime_ret e = -1"
    and "Collect sy pid e evs error w = Some (rs, err, w', rest)"
  shows "rs = [] \<and> use_after_free w' = use_after_free w
    \<and> pending w' = pending w \<union> set (signalled e)
    \<and> (\<forall>t \<in> set (signalled e). forms w' t = None)
    \<and> fds w' = (if timer_ret e = -1 then insert rd (insert wr (fds w))
               else insert (timer_ret e) (insert rd (insert wr (fds w)))) - {rd, wr}"
proof -
  obtain slot failed w2 where s: "signal_loop e wr (set_of_vector (listed e)) [] []
      (w\<lparr>fds := insert rd (insert wr (fds w)), acked := 0\<rparr>) = (slot, failed, w2)"
    by (metis prod_cases3)
  show ?thesis using assms s signal_all [OF s]
    by (auto simp: Collect_def Let_def split: if_splits)
qed

lemma Collect_waited:
  assumes "pipe_ret e = Some (rd, wr)" and "timer_ret e \<noteq> -1" and "settime_ret e \<noteq> -1"
    and "Collect sy pid e evs error w = Some (rs, err, w', rest)"
  obtains b acks w3 w4 where
    "wait_loop pid (length (signalled e)) evs (0, w3) = Some (b, acks, w4, rest)"
    "rs = (if b then collect_results sy (List.map_filter (forms w4) (signalled e)) else [])"
    "err = (if b then error else timeout_error (length (signalled e)) acks)"
    "pending w' = pending w4" "use_after_free w' = use_after_free w4"
    "\<forall>t \<in> set (signalled e). forms w' t = None"
    "fds w' = insert (timer_ret e) (insert rd (insert wr (fds w))) - {timer_ret e, wr, rd}"
    "use_after_free w3 = use_after_free w"
    "pending w = {} \<longrightarrow> collecting pid (set (signalled e))
      (\<lambda>t. StackTraceForm (garbage e t) t wr) (\<lambda>t. None) (0, w3)"
proof -
  obtain w3 where w3: "Collect sy pid e evs error w =
      collect_end sy e rd wr error (wait_loop pid (length (signalled e)) evs (0, w3))"
      "fds w3 = insert (timer_ret e) (insert rd (insert wr (fds w)))"
      "use_after_free w3 = use_after_free w"
      "pending w = {} \<longrightarrow> collecting pid (set (signalled e))
         (\<lambda>t. StackTraceForm (garbage e t) t wr) (\<lambda>t. None) (0, w3)"
    using Collect_waits [OF assms(1-3)] by blast
  then obtain b acks w4 where out: "wait_loop pid (length (signalled e)) evs (0, w3) = Some (b, acks, w4, rest)"
      and c: "collect_end sy e rd wr error (Some (b, acks, w4, rest)) = Some (rs, err, w', rest)"
    using assms(4) by (auto simp: collect_end_def split: option.splits)
  have "fds w4 = fds w3" using wait_loop_fds [OF out] .
  with c w3(2) have "fds w' = insert (timer_ret e) (insert rd (insert wr (fds w))) - {timer_ret e, wr, rd}"
    by (auto simp: collect_end_def)
  moreover have "rs = (if b then collect_results sy (List.map_filter (forms w4) (signalled e)) else [])"
      "err = (if b then error else timeout_error (length (signalled e)) acks)"
      "pending w' = pending w4" "use_after_free w' = use_after_free w4"
      "\<forall>t \<in> set (signalled e). forms w' t = None"
    using c by (auto simp: collect_end_def)
  ultimately show ?thesis using that [OF out] w3(3,4) by blast
qed

lemma map_filter_Some:
  "\<forall>t \<in> set ts. \<exists>f. g t = Some f \<Longrightarrow> List.map_filter g ts = map (\<lambda>t. the (g t)) ts"
  by (induction ts) (auto simp: List.map_filter_simps)

text \<open>The forms of the slots once all acks are in.\<close>

lemma slots_filled:
  assumes "collecting pid (set ts) (\<lambda>t. StackTraceForm (g t) t wr) hs (acks, w)" and "distinct ts"
    and "length ts \<le> acks" and "\<forall>t. length (g t) = kMaxDepth"
  shows "\<exists>F. List.map_filter (forms w) ts = map F ts
    \<and> (\<forall>t \<in> set ts. wf_form (F t) \<and> tid (stack (F t)) = t
        \<and> (\<exists>h. hs t = Some h \<and> frames (stack (F t)) = take kMaxDepth (readable (drop 1 (cursor h)))))"
proof -
  have F: "\<exists>h f. hs t = Some h \<and> forms w t = Some f \<and> wf_form f \<and> tid (stack f) = t
      \<and> frames (stack f) = take kMaxDepth (readable (drop 1 (cursor h)))" if t: "t \<in> set ts" for t
  proof -
    have "card (set ts) \<le> acks" using assms(2,3) by (simp add: distinct_card)
    then obtain h f where "hs t = Some h" "forms w t = Some f"
        and h: "handled pid (StackTraceForm (g t) t wr) h = (Some f, 1)"
      using all_acked [OF assms(1) _ _ t] by auto
    then show ?thesis
      using InternalHandler_fresh [of "g t" "SignalThread pid h" t wr f] assms(4)
      by (auto simp: handled_def SignalThread_def)
  qed
  then have "List.map_filter (forms w) ts = map (\<lambda>t. the (forms w t)) ts"
    by (intro map_filter_Some) blast
  then show ?thesis using F by (intro exI [of _ "\<lambda>t. the (forms w t)"]) fastforce
qed

lemma Collect_all_acked:
  assumes "Collect sy pid e evs error w = Some (rs, err, w', rest)" and "rs \<noteq> []"
    and "pending w = {}" and "\<forall>t. length (garbage e t) = kMaxDepth"
  obtains hs F where "rs = collect_results sy (map F (signalled e))"
    "\<forall>t \<in> set (signalled e). \<forall>h. hs t = Some h \<longrightarrow> first_handler t evs = Some h"
    "\<forall>t \<in> set (signalled e). wf_form (F t) \<and> tid (stack (F t)) = t
        \<and> (\<exists>h. hs t = Some h \<and> frames (stack (F t)) = take kMaxDepth (readable (drop 1 (cursor h))))"
    "pending w' = {}" "err = error"
proof -
  obtain rd wr where p: "pipe_ret e = Some (rd, wr)"
    using assms(1,2) by (cases "pipe_ret e") (auto simp: Collect_def)
  have t: "timer_ret e \<noteq> -1" "settime_ret e \<noteq> -1"
    using Collect_no_timer [OF p _ assms(1)] assms(2) by blast+
  let ?S = "set (signalled e)" and ?new = "\<lambda>t. StackTraceForm (garbage e t) t wr"
  from p t assms(1) show thesis
  proof (cases rule: Collect_waited)
    case (1 b acks w3 w4)
    have b: "b" using 1(2) assms(2) by (auto split: if_splits)
    have c: "collecting pid ?S ?new (\<lambda>t. None) (0, w3)" using 1(9) assms(3) by blast
    obtain hs where hs: "collecting pid ?S ?new hs (acks, w4)"
        "\<forall>t \<in> ?S. \<forall>h. hs t = Some h \<longrightarrow> first_handler t evs = Some h" "length (signalled e) \<le> acks"
      using wait_loop_collecting [OF 1(1) c] b by auto
    obtain F where F: "List.map_filter (forms w4) (signalled e) = map F (signalled e)"
        "\<forall>t \<in> ?S. wf_form (F t) \<and> tid (stack (F t)) = t
          \<and> (\<exists>h. hs t = Some h \<and> frames (stack (F t)) = take kMaxDepth (readable (drop 1 (cursor h))))"
      using slots_filled [OF hs(1) signalled(1) hs(3) assms(4)] by blast
    have "card ?S \<le> acks" using hs(3) signalled(1) [of e] by (simp add: distinct_card)
    moreover have "pending w4 \<subseteq> ?S" using hs(1) by (auto simp: collecting_def)
    ultimately have "pending w4 = {}" using all_acked [OF hs(1)] by blast
    then show thesis using that [of F hs] 1 b F hs(2) by simp
  qed
qed

lemma results_empty: "collect_results sy slot = [] \<longleftrightarrow> slot = []"
  using results_set [of sy slot] by (auto simp: collect_results_def unique_traces_def group_by_def)

section \<open>Progress of the loop\<close>

lemma wait_loop_append:
  "SelectTimer \<notin> set evs \<Longrightarrow>
    (\<exists>r. wait_loop pid n (evs @ ss) (acks, w) = Some (True, r))
    \<or> wait_loop pid n (evs @ ss) (acks, w) = wait_loop pid n ss (fold (wait_step pid) evs (acks, w))"
proof (induction evs arbitrary: acks w)
  case (Cons ev evs)
  obtain acks1 w1 where "wait_step pid ev (acks, w) = (acks1, w1)" by fastforce
  then show ?case using Cons.IH [of acks1 w1] Cons.prems by auto
qed simp

lemma fold_collecting:
  assumes "collecting pid S new hs (acks, w)" and "finite S" and "SelectTimer \<notin> set evs"
  shows "\<exists>hs'. collecting pid S new hs' (fold (wait_step pid) evs (acks, w))
    \<and> (\<forall>t \<in> S. hs' t = (case hs t of Some h \<Rightarrow> Some h | None \<Rightarrow> first_handler t evs))"
  using assms
proof (induction evs arbitrary: acks w hs)
  case Nil
  then show ?case by (auto intro!: exI [of _ hs] split: option.splits)
next
  case (Cons ev evs)
  obtain acks1 w1 where s1: "wait_step pid ev (acks, w) = (acks1, w1)" by fastforce
  obtain hs1 where hs1: "collecting pid S new hs1 (acks1, w1)"
      "\<forall>t \<in> S. hs1 t = (case hs t of Some h \<Rightarrow> Some h | None \<Rightarrow> first_handler t [ev])"
    using wait_step_collecting [OF Cons.prems(1,2), of ev] Cons.prems(3) s1 by auto
  obtain hs' where hs': "collecting pid S new hs' (fold (wait_step pid) evs (acks1, w1))"
      "\<forall>t \<in> S. hs' t = (case hs1 t of Some h \<Rightarrow> Some h | None \<Rightarrow> first_handler t evs)"
    using Cons.IH [OF hs1(1) Cons.prems(2)] Cons.prems(3) by auto
  have "hs' t = (case hs t of Some h \<Rightarrow> Some h | None \<Rightarrow> first_handler t (ev # evs))" if "t \<in> S" for t
    using bspec [OF hs1(2) that] bspec [OF hs'(2) that] unfolding first_handler_Cons [of t ev evs]
    by (cases "hs t") auto
  then show ?case using hs'(1) s1 by auto
qed

lemma wait_loop_reads:
  assumes "SelectTimer \<notin> set ss" and "n \<le> acks + acked w"
    and "n \<le> acks + length (filter (\<lambda>ev. ev = SelectPipe False) ss)"
  shows "\<exists>r. wait_loop pid n ss (acks, w) = Some (True, r)"
  using assms
proof (induction ss arbitrary: acks w)
  case (Cons ev ss)
  show ?case
  proof (cases "n \<le> acks")
    case False
    obtain acks1 w1 where s1: "wait_step pid ev (acks, w) = (acks1, w1)" by fastforce
    have "n \<le> acks1 + acked w1 \<and> n \<le> acks1 + length (filter (\<lambda>ev. ev = SelectPipe False) ss)"
      using s1 Cons.prems False
      by (cases ev) (auto simp: run_handler_def split: if_splits option.splits prod.splits)
    then show ?thesis using Cons.IH [of acks1 w1] Cons.prems(1) False s1 by auto
  qed simp
qed simp

text \<open>The descriptor table after a collection.\<close>

lemma Collect_fds:
  assumes "Collect sy pid e evs error w = Some (rs, err, w', rest)" and "fresh_fds e w"
  shows "fds w' =
    (if pipe_ret e \<noteq> None \<and> timer_ret e \<noteq> -1 \<and> settime_ret e = -1 then insert (timer_ret e) (fds w)
     else fds w)"
proof (cases "pipe_ret e")
  case None
  then show ?thesis using assms(1) by (simp add: Collect_def)
next
  case (Some p)
  obtain rd wr where p: "pipe_ret e = Some (rd, wr)" using Some by (cases p) auto
  show ?thesis
  proof (cases "timer_ret e = -1 \<or> settime_ret e = -1")
    case True
    show ?thesis using Collect_no_timer [OF p True assms(1)] assms(2) p True
      by (auto simp: fresh_fds_def)
  next
    case False
    then show ?thesis using Collect_waited [OF p _ _ assms(1)] assms(2) p
      by (auto simp: fresh_fds_def)
  qed
qed

section \<open>Properties\<close>

text \<open>
  C21. \<open>Collect\<close> leaves the descriptor table as it found it on every return but one: when
  \<open>timerfd_settime\<close> fails, the timer's descriptor stays open, since the call that would close it
  is deferred only afterwards.
\<close>

theorem Collect_closes_descriptors:
  assumes "Collect sy pid e evs error w = Some (rs, err, w', rest)" and "fresh_fds e w"
  shows "fds w' =
    (if pipe_ret e \<noteq> None \<and> timer_ret e \<noteq> -1 \<and> settime_ret e = -1 then insert (timer_ret e) (fds w)
     else fds w)"
  by (rule Collect_fds [OF assms])

lemma Collect_closes_descriptors_witness:
  "\<exists>rs err w'. Collect (\<lambda>a. None) 1
      \<lparr>listed = [], pipe_ret = Some (3, 4), signal_ret = \<lambda>t. 0, timer_ret = 5, settime_ret = -1,
       garbage = \<lambda>t. replicate kMaxDepth 0\<rparr> [] []
      \<lparr>fds = {0, 1, 2}, forms = Map.empty, pending = {}, acked = 0, use_after_free = False\<rparr>
      = Some (rs, err, w', []) \<and> fds w' = {0, 1, 2, 5}"
proof -
  let ?e = "\<lparr>listed = [], pipe_ret = Some (3, 4), signal_ret = \<lambda>t. 0, timer_ret = 5, settime_ret = -1,
       garbage = \<lambda>t. replicate kMaxDepth 0\<rparr>"
  let ?w = "\<lparr>fds = {0, 1, 2}, forms = Map.empty, pending = {}, acked = 0, use_after_free = False\<rparr>"
  obtain rs err w' where c: "Collect (\<lambda>a. None) 1 ?e [] [] ?w = Some (rs, err, w', [])"
    by (simp add: Collect_def set_of_vector_def)
  have "fresh_fds ?e ?w" by (simp add: fresh_fds_def)
  from Collect_closes_descriptors [OF c this] have "fds w' = {0, 1, 2, 5}" by auto
  with c show ?thesis by blast
qed

text \<open>
  C3. A collection that returns stacks is complete and genuine: every thread that could be
  signalled appears once, in the result whose trace is exactly what that thread's own handler
  unwound, every handler has finished, and no error is reported.
\<close>

theorem Collect_complete:
  assumes "Collect sy pid e evs error w = Some (rs, err, w', rest)" and "rs \<noteq> []"
    and "pending w = {}" and "\<forall>t. length (garbage e t) = kMaxDepth"
  shows "distinct (concat (map tids rs))
    \<and> set (concat (map tids rs)) = {t \<in> set (listed e). signal_ret e t = 0}
    \<and> (\<forall>t \<in> set (listed e). signal_ret e t = 0 \<longrightarrow>
         (\<exists>h. first_handler t evs = Some h
            \<and> (\<exists>r \<in> set rs. t \<in> set (tids r)
                 \<and> map fst (trace r) = take kMaxDepth (readable (drop 1 (cursor h))))))
    \<and> pending w' = {} \<and> err = error"
proof -
  obtain hs F where rs: "rs = collect_results sy (map F (signalled e))"
      and hs: "\<forall>t \<in> set (signalled e). \<forall>h. hs t = Some h \<longrightarrow> first_handler t evs = Some h"
      and F: "\<forall>t \<in> set (signalled e). wf_form (F t) \<and> tid (stack (F t)) = t
        \<and> (\<exists>h. hs t = Some h \<and> frames (stack (F t)) = take kMaxDepth (readable (drop 1 (cursor h))))"
      and fin: "pending w' = {}" "err = error"
    by (rule Collect_all_acked [OF assms])
  let ?slot = "map F (signalled e)"
  have wf: "\<forall>f \<in> set ?slot. wf_form f" using F by auto
  have tid_eq: "map (\<lambda>f. tid (stack f)) ?slot = signalled e" using F by (simp add: map_idI)
  then have d: "distinct (map (\<lambda>f. tid (stack f)) ?slot)" by (simp add: signalled(1))
  have all: "set (concat (map tids rs)) = set (signalled e)"
    unfolding rs results_set using tid_eq by (metis set_map)
  have "\<exists>h. first_handler t evs = Some h \<and> (\<exists>r \<in> set rs. t \<in> set (tids r)
      \<and> map fst (trace r) = take kMaxDepth (readable (drop 1 (cursor h))))"
    if t: "t \<in> set (signalled e)" for t
  proof -
    obtain h where h: "hs t = Some h" "tid (stack (F t)) = t"
        "frames (stack (F t)) = take kMaxDepth (readable (drop 1 (cursor h)))" using F t by blast
    obtain r where r: "r \<in> set rs" "t \<in> set (tids r)" using all t by auto
    have "map fst (trace r) = frames (stack (F t))"
      using results_trace [OF wf d, of r sy "F t"] r t h(2) by (simp add: rs)
    then show ?thesis using hs h(1,3) r t by auto
  qed
  then show ?thesis
    using results_distinct [OF d, of sy] all fin signalled(2) [of e] by (simp add: rs)
qed

lemma Collect_complete_witness:
  "\<exists>rs w'. Collect (\<lambda>a. None) 1
      \<lparr>listed = [7], pipe_ret = Some (3, 4), signal_ret = \<lambda>t. 0, timer_ret = 5, settime_ret = 0,
       garbage = \<lambda>t. replicate kMaxDepth 0\<rparr>
      [Handler 7 \<lparr>si_pid = 1, own_pid = 1, getcontext_ret = 0, init_local_ret = 0, cursor = [], write_ret = 1\<rparr>,
       SelectPipe False] []
      \<lparr>fds = {}, forms = Map.empty, pending = {}, acked = 0, use_after_free = False\<rparr>
      = Some (rs, [], w', []) \<and> set (concat (map tids rs)) = {7}"
proof -
  let ?e = "\<lparr>listed = [7], pipe_ret = Some (3, 4), signal_ret = \<lambda>t. 0, timer_ret = 5, settime_ret = 0,
       garbage = \<lambda>t. replicate kMaxDepth 0\<rparr>"
  let ?w = "\<lparr>fds = {}, forms = Map.empty, pending = {}, acked = 0, use_after_free = False\<rparr>"
  let ?evs = "[Handler 7 \<lparr>si_pid = 1, own_pid = 1, getcontext_ret = 0, init_local_ret = 0,
      cursor = [], write_ret = 1\<rparr>, SelectPipe False]"
  obtain rs w' where c: "Collect (\<lambda>a. None) 1 ?e ?evs [] ?w = Some (rs, [], w', [])" "rs \<noteq> []"
    by (simp add: Collect_def set_of_vector_def insort_insert_key_def run_handler_def
        InternalHandler_def SignalThread_def Submit_def List.map_filter_simps results_empty)
  have "set (concat (map tids rs)) = {t \<in> set (listed ?e). signal_ret ?e t = 0}"
    using Collect_complete [OF c] by (simp del: set_concat)
  then show ?thesis using c(1) by auto
qed

text \<open>
  C8. \<open>Collect\<close> returns its results when the threads answer: if every signalled thread's handler
  runs and sends its ack, and after that \<open>select\<close> reports the pipe readable once per thread
  before the timer fires, whatever else is interleaved, then it ends without an error, and with
  at least one result if any thread was signalled.
\<close>

theorem Collect_returns:
  assumes "pipe_ret e = Some (rd, wr)" and "timer_ret e \<noteq> -1" and "settime_ret e \<noteq> -1"
    and "pending w = {}" and "SelectTimer \<notin> set evs" and "SelectTimer \<notin> set ss"
    and "\<forall>t \<in> set (listed e). signal_ret e t = 0 \<longrightarrow>
      (\<exists>h. first_handler t evs = Some h \<and> getcontext_ret h = 0 \<and> init_local_ret h = 0 \<and> write_ret h = 1)"
    and "length (filter (\<lambda>ev. ev = SelectPipe False) ss) \<ge> card {t \<in> set (listed e). signal_ret e t = 0}"
    and "\<forall>t. length (garbage e t) = kMaxDepth"
  shows "\<exists>rs w' rest. Collect sy pid e (evs @ ss) error w = Some (rs, error, w', rest)
    \<and> (rs = [] \<longleftrightarrow> (\<forall>t \<in> set (listed e). signal_ret e t \<noteq> 0))"
proof -
  let ?S = "set (signalled e)" and ?new = "\<lambda>t. StackTraceForm (garbage e t) t wr"
  have n: "length (signalled e) = card ?S" using signalled(1) by (simp add: distinct_card)
  obtain w3 where w3: "Collect sy pid e (evs @ ss) error w =
      collect_end sy e rd wr error (wait_loop pid (length (signalled e)) (evs @ ss) (0, w3))"
      "collecting pid ?S ?new (\<lambda>t. None) (0, w3)"
    using Collect_waits [OF assms(1-3)] assms(4) by blast
  obtain acks1 w1 where st: "fold (wait_step pid) evs (0, w3) = (acks1, w1)" by fastforce
  obtain hs where hs: "collecting pid ?S ?new hs (acks1, w1)" "\<forall>t \<in> ?S. hs t = first_handler t evs"
    using fold_collecting [OF w3(2) _ assms(5)] st by auto
  have "acks_sent pid ?S ?new hs = ?S"
    using hs(2) assms(7) signalled(2) [of e]
    by (fastforce simp: acks_sent_def handled_def InternalHandler_def SignalThread_def Submit_def)
  then have "card ?S = acks1 + acked w1" using hs(1) by (simp add: collecting_def)
  then have "\<exists>r. wait_loop pid (length (signalled e)) ss (acks1, w1) = Some (True, r)"
    using assms(6,8) signalled(2) [of e] n by (intro wait_loop_reads) auto
  then obtain acks w4 rest where
      l: "wait_loop pid (length (signalled e)) (evs @ ss) (0, w3) = Some (True, acks, w4, rest)"
    using wait_loop_append [OF assms(5), of pid "length (signalled e)" ss 0 w3] st by auto
  obtain hs' where "collecting pid ?S ?new hs' (acks, w4)" "length (signalled e) \<le> acks"
    using wait_loop_collecting [OF l w3(2)] by auto
  then obtain F where "List.map_filter (forms w4) (signalled e) = map F (signalled e)"
    using slots_filled signalled(1) assms(9) by blast
  moreover have "signalled e = [] \<longleftrightarrow> (\<forall>t \<in> set (listed e). signal_ret e t \<noteq> 0)"
    using signalled(2) [of e] by (auto simp flip: set_empty)
  ultimately show ?thesis using w3(1) l results_empty [of sy "map F (signalled e)"]
    by (simp add: collect_end_def)
qed

lemma Collect_returns_witness:
  "\<exists>rs w' rest. Collect (\<lambda>a. None) 1
      \<lparr>listed = [7], pipe_ret = Some (3, 4), signal_ret = \<lambda>t. 0, timer_ret = 5, settime_ret = 0,
       garbage = \<lambda>t. replicate kMaxDepth 0\<rparr>
      ([Handler 7 \<lparr>si_pid = 1, own_pid = 1, getcontext_ret = 0, init_local_ret = 0, cursor = [], write_ret = 1\<rparr>]
        @ [SelectFailed, SelectPipe False]) []
      \<lparr>fds = {}, forms = Map.empty, pending = {}, acked = 0, use_after_free = False\<rparr>
      = Some (rs, [], w', rest) \<and> rs \<noteq> []"
proof -
  let ?e = "\<lparr>listed = [7], pipe_ret = Some (3, 4), signal_ret = \<lambda>t. 0, timer_ret = 5, settime_ret = 0,
       garbage = \<lambda>t. replicate kMaxDepth 0\<rparr>"
  have "{t. t = 7 \<and> signal_ret ?e t = 0} = {7 :: int}" by auto
  then show ?thesis
    using Collect_returns [of ?e 3 4
      "\<lparr>fds = {}, forms = Map.empty, pending = {}, acked = 0, use_after_free = False\<rparr>"
      "[Handler 7 \<lparr>si_pid = 1, own_pid = 1, getcontext_ret = 0, init_local_ret = 0, cursor = [], write_ret = 1\<rparr>]"
      "[SelectFailed, SelectPipe False]" "\<lambda>a. None" 1 "[]"]
    by simp
qed

text \<open>
  C22. The forms live no longer than the call. After any return, a handler that runs then accesses
  freed memory exactly if its signal was still queued.
\<close>

theorem Collect_dangling_forms:
  assumes "Collect sy pid e evs error w = Some (rs, err, w', rest)"
    and "pending w = {}" and "\<not> use_after_free w" and "getcontext_ret h = 0" and "init_local_ret h = 0"
  shows "\<not> use_after_free w' \<and> (use_after_free (run_handler pid t h w') \<longleftrightarrow> t \<in> pending w')"
proof -
  have "\<not> use_after_free w' \<and> (\<forall>t \<in> pending w'. forms w' t = None)"
  proof (cases "pipe_ret e")
    case None
    then show ?thesis using assms(1-3) by (simp add: Collect_def)
  next
    case (Some pw)
    obtain rd wr where p: "pipe_ret e = Some (rd, wr)" using Some by (cases pw) auto
    show ?thesis
    proof (cases "timer_ret e = -1 \<or> settime_ret e = -1")
      case True
      then show ?thesis using Collect_no_timer [OF p True assms(1)] assms(2,3) by simp
    next
      case False
      with p have "pipe_ret e = Some (rd, wr)" "timer_ret e \<noteq> -1" "settime_ret e \<noteq> -1" by auto
      from this assms(1) show ?thesis
      proof (cases rule: Collect_waited)
        case (1 b acks w3 w4)
        have c: "collecting pid (set (signalled e)) (\<lambda>t. StackTraceForm (garbage e t) t wr)
            (\<lambda>t. None) (0, w3)" using 1(9) assms(2) by blast
        obtain hs where "collecting pid (set (signalled e)) (\<lambda>t. StackTraceForm (garbage e t) t wr) hs (acks, w4)"
            "use_after_free w4 = use_after_free w3"
          using wait_loop_collecting [OF 1(1) c] by auto
        then show ?thesis using 1 assms(3) by (auto simp: collecting_def)
      qed
    qed
  qed
  then show ?thesis using assms(4,5) by (auto simp: run_handler_def split: option.splits)
qed

lemma Collect_dangling_forms_witness:
  "\<exists>err w'. Collect (\<lambda>a. None) 1
      \<lparr>listed = [7], pipe_ret = Some (3, 4), signal_ret = \<lambda>t. 0, timer_ret = 5, settime_ret = 0,
       garbage = \<lambda>t. replicate kMaxDepth 0\<rparr> [SelectTimer] []
      \<lparr>fds = {}, forms = Map.empty, pending = {}, acked = 0, use_after_free = False\<rparr>
      = Some ([], err, w', [])
    \<and> use_after_free (run_handler 1 7 \<lparr>si_pid = 1, own_pid = 1, getcontext_ret = 0,
        init_local_ret = 0, cursor = [], write_ret = 1\<rparr> w')"
proof -
  let ?e = "\<lparr>listed = [7], pipe_ret = Some (3, 4), signal_ret = \<lambda>t. 0, timer_ret = 5, settime_ret = 0,
       garbage = \<lambda>t. replicate kMaxDepth 0\<rparr>"
  let ?w = "\<lparr>fds = {}, forms = Map.empty, pending = {}, acked = 0, use_after_free = False\<rparr>"
  obtain err w' where c: "Collect (\<lambda>a. None) 1 ?e [SelectTimer] [] ?w = Some ([], err, w', [])"
      "7 \<in> pending w'"
    by (simp add: Collect_def set_of_vector_def insort_insert_key_def)
  have "use_after_free (run_handler 1 7 \<lparr>si_pid = 1, own_pid = 1, getcontext_ret = 0,
        init_local_ret = 0, cursor = [], write_ret = 1\<rparr> w') \<longleftrightarrow> 7 \<in> pending w'"
    by (rule Collect_dangling_forms [OF c(1), THEN conjunct2]) simp_all
  then show ?thesis using c by blast
qed

end
