(* ===== verification/Stack_Service.thy ===== *)
theory Stack_Service
  imports Stack_Collect
begin

text \<open>
  The stack trace service of \<^verbatim>\<open>src/src/ts/signal_handler.cc\<close>: requesters (the handler of the external
  signal and \<open>backtrace\<close>) create a pipe, keep its write end and send that descriptor to the
  service thread, which dumps the stacks on the error stream and closes the descriptor to
  acknowledge. The collection itself is \<open>Stack_Collect\<close>: \<open>serve\<close> takes its outcome as an input, and
  \<open>collect_and_serve\<close> puts the two together on one descriptor table. The message of a failing close is
  left out.
\<close>

section \<open>State\<close>

datatype effect =
    Err string
  | Callback "int list"
  | Flush
  | CloseFd int

text \<open>The descriptors in use, the requests in the service's pipe, and the thread's output.\<close>

record service =
  open_fds :: "int set"
  requests :: "int list"
  effects :: "effect list"

definition close_fd :: "int \<Rightarrow> service \<Rightarrow> service" where
  "close_fd fd s = s\<lparr>open_fds := open_fds s - {fd}, effects := effects s @ [CloseFd fd]\<rparr>"

definition emit :: "effect \<Rightarrow> service \<Rightarrow> service" where
  "emit a s = s\<lparr>effects := effects s @ [a]\<rparr>"

section \<open>Requesters\<close>

text \<open>
  \<open>pipe_out\<close> is the new pipe (\<open>None\<close>: the call failed) and \<open>ret\<close> what \<open>write\<close> returned; the kernel
  queues the request when all four bytes were accepted.
\<close>

definition ExternalHandler :: "(int \<times> int) option \<Rightarrow> int \<Rightarrow> service \<Rightarrow> service" where
  "ExternalHandler pipe_out ret s =
     (case pipe_out of
        None \<Rightarrow> emit (Err (''Failed to create pipe for communicating with stack trace service thread'' @ endl)) s
      | Some (rd, wr) \<Rightarrow>
          (let s1 = close_fd rd (s\<lparr>open_fds := insert rd (insert wr (open_fds s))\<rparr>) in
           if ret = -1 then
             close_fd wr (emit (Err (''Failed to send a request to stack trace service thread'' @ endl)) s1)
           else if ret \<noteq> 4 then
             close_fd wr (emit (Err (''Failed to request stack trace service thread.'' @ endl)) s1)
           else s1\<lparr>requests := requests s1 @ [wr]\<rparr>))"

definition ExternalStackTraceSignalHandler ::
    "int \<Rightarrow> int \<Rightarrow> (int \<times> int) option \<Rightarrow> int \<Rightarrow> service \<Rightarrow> service" where
  "ExternalStackTraceSignalHandler server_tgid pid pipe_out ret s =
     (if server_tgid \<noteq> pid then
        emit (Err (''Not contacting stack trace server started in a different thread group'' @ endl)) s
      else ExternalHandler pipe_out ret s)"

definition backtrace :: "(int \<times> int) option \<Rightarrow> int \<Rightarrow> service \<Rightarrow> service" where
  "backtrace pipe_out ret s = ExternalHandler pipe_out ret s"

section \<open>The service thread\<close>

text \<open>The outcome of one \<open>read\<close> of the service's pipe.\<close>

datatype read_out = ReadFailed | ReadEnd | ReadPartial nat | ReadRequest

definition rule_line :: "nat \<Rightarrow> string" where
  "rule_line n = replicate n CHR ''='' @ endl"

definition banner :: "nat \<Rightarrow> int \<Rightarrow> string \<Rightarrow> string" where
  "banner n request_count what =
     rule_line n @ show_int request_count @ '') Stack traces - '' @ what @ endl @ rule_line n"

text \<open>What one request prints, given the collection's results and error; \<open>cb\<close>: a callback is set.\<close>

definition dump :: "bool \<Rightarrow> int \<Rightarrow> result list \<Rightarrow> string \<Rightarrow> service \<Rightarrow> service" where
  "dump cb request_count results error s =
     (let s1 = emit (Err (banner 45 request_count ''Start '')) s in
      if results = [] then emit (Err (''StackTrace collection failed: '' @ error @ endl)) s1
      else case ToPrettyString cb results of (text, call, log) \<Rightarrow>
        (let s2 = fold (\<lambda>l. emit (Err l)) log s1;
             s3 = (case call of None \<Rightarrow> s2 | Some ts \<Rightarrow> emit (Callback ts) s2);
             s4 = emit (Err (endl @ text @ endl)) s3
         in emit (Err (banner 44 request_count ''End '')) s4))"

text \<open>
  One turn of the loop of \<open>RequestProcessor\<close>: the new state, or \<open>None\<close> when the thread blocks
  in \<open>read\<close>; \<open>True\<close> when the loop goes on. The descriptor's close is deferred first and the
  flush second, so the flush runs first. \<open>wr_end\<close> is the write end of the service's own pipe.
\<close>

definition serve_request :: "bool \<Rightarrow> int \<Rightarrow> int \<Rightarrow> result list \<Rightarrow> string \<Rightarrow> service \<Rightarrow> service" where
  "serve_request cb request_count fd results error s =
     scope_exit (DEFER (emit Flush) (DEFER (close_fd fd) [])) (dump cb request_count results error s)"

definition serve :: "bool \<Rightarrow> int \<Rightarrow> int \<Rightarrow> read_out \<Rightarrow> result list \<Rightarrow> string \<Rightarrow> service \<Rightarrow> (bool \<times> service) option" where
  "serve cb wr_end request_count out results error s =
     (case out of
        ReadFailed \<Rightarrow> Some (True, emit (Err (''Failed to read stack trace service request'' @ endl)) s)
      | ReadEnd \<Rightarrow>
          Some (False, close_fd wr_end
            (emit (Err (''Received request to terminate stack trace service thread'' @ endl)) s))
      | ReadPartial n \<Rightarrow>
          Some (True, emit (Err (''Read partial data of stack trace collection request. Expected ''
            @ decimal 4 @ '' bytes, got '' @ decimal n @ '' bytes'' @ endl)) s)
      | ReadRequest \<Rightarrow>
          (case requests s of
             [] \<Rightarrow> None
           | fd # rs \<Rightarrow> Some (True, serve_request cb request_count fd results error (s\<lparr>requests := rs\<rparr>))))"

text \<open>
  A turn that serves a request, with the collection it makes: \<open>Collect\<close> works on the descriptor table of
  the process and on the world of the forms and signals. \<open>None\<close>: the thread still waits, for
  a request or for the collection.
\<close>

definition collect_and_serve ::
    "(u64 \<Rightarrow> string option) \<Rightarrow> int \<Rightarrow> bool \<Rightarrow> int \<Rightarrow> int \<Rightarrow> collect_env \<Rightarrow> event list \<Rightarrow> service \<times> world
     \<Rightarrow> (service \<times> world) option" where
  "collect_and_serve Symbolize pid cb wr_end request_count e evs sw =
     (case Collect Symbolize pid e evs [] ((snd sw)\<lparr>fds := open_fds (fst sw)\<rparr>) of
        None \<Rightarrow> None
      | Some (results, error, w, rest) \<Rightarrow>
          (case serve cb wr_end request_count ReadRequest results error ((fst sw)\<lparr>open_fds := fds w\<rparr>) of
             None \<Rightarrow> None
           | Some (go_on, s) \<Rightarrow> Some (s, w)))"

fun RequestProcessor ::
    "bool \<Rightarrow> int \<Rightarrow> int \<Rightarrow> (read_out \<times> result list \<times> string) list \<Rightarrow> service \<Rightarrow> service" where
  "RequestProcessor cb wr_end request_count [] s = s"
| "RequestProcessor cb wr_end request_count ((out, results, error) # turns) s =
     (case serve cb wr_end (request_count + 1) out results error s of
        None \<Rightarrow> s
      | Some (go_on, s') \<Rightarrow>
          if go_on then RequestProcessor cb wr_end (request_count + 1) turns s' else s')"

section \<open>Installation\<close>

text \<open>
  The function-local static of \<open>GetExternalHandlerState\<close>: the first call starts the service
  (its thread group and the descriptor to write to), later calls return the same state.
\<close>

record external_handler_state =
  server_tgid :: int
  server_fd :: int

text \<open>
  The start of the service: \<open>RequestProcessor\<close> creates its pipe (\<open>None\<close>: \<open>pipe2\<close> failed, which is only
  reported) and hands the write end to the constructor, which waits for it; \<open>pipe_fd\<close> is what the
  array holds before.
\<close>

definition open_service_pipe :: "(int \<times> int) option \<Rightarrow> int \<times> int \<Rightarrow> service \<Rightarrow> (int \<times> int) \<times> service" where
  "open_service_pipe pipe_out pipe_fd s =
     (case pipe_out of
        None \<Rightarrow> (pipe_fd, emit (Err (''Failed to create pipe'' @ endl)) s)
      | Some (rd, wr) \<Rightarrow> ((rd, wr), s\<lparr>open_fds := insert rd (insert wr (open_fds s))\<rparr>))"

definition ExternalHandlerState ::
    "int \<Rightarrow> (int \<times> int) option \<Rightarrow> int \<times> int \<Rightarrow> service \<Rightarrow> external_handler_state \<times> service" where
  "ExternalHandlerState pid pipe_out pipe_fd s =
     (case open_service_pipe pipe_out pipe_fd s of (ends, s') \<Rightarrow> (\<lparr>server_tgid = pid, server_fd = snd ends\<rparr>, s'))"

definition init_backtrace_cb :: "'f option \<Rightarrow> 'f option \<Rightarrow> 'f option" where
  "init_backtrace_cb cb slot = cb"

definition GetExternalHandlerState ::
    "int \<Rightarrow> int \<Rightarrow> external_handler_state option \<Rightarrow> external_handler_state option \<times> external_handler_state" where
  "GetExternalHandlerState pid new_fd static =
     (case static of
        Some st \<Rightarrow> (static, st)
      | None \<Rightarrow> (let st = \<lparr>server_tgid = pid, server_fd = new_fd\<rparr> in (Some st, st)))"

datatype handler_fn = InternalHandlerFn | ExternalStackTraceSignalHandlerFn

text \<open>The signal table: the handler and whether it has \<open>SA_RESTART | SA_SIGINFO\<close>.\<close>

type_synonym signal_table = "int \<Rightarrow> (handler_fn \<times> bool) option"

definition InternalSignum :: "int \<Rightarrow> int" where
  "InternalSignum sigrtmin = sigrtmin"

definition ExternalSignum :: "int \<Rightarrow> int" where
  "ExternalSignum sigrtmin = sigrtmin + 1"

definition sigaction :: "int \<Rightarrow> int \<Rightarrow> handler_fn \<Rightarrow> signal_table \<Rightarrow> bool \<times> signal_table" where
  "sigaction ret signum action tab = (if ret = 0 then (True, tab(signum \<mapsto> (action, True))) else (False, tab))"

definition InstallInternalHandler :: "int \<Rightarrow> int \<Rightarrow> signal_table \<Rightarrow> bool \<times> signal_table" where
  "InstallInternalHandler sigrtmin ret tab = sigaction ret (InternalSignum sigrtmin) InternalHandlerFn tab"

definition InstallExternalHandler ::
    "int \<Rightarrow> int \<Rightarrow> external_handler_state \<Rightarrow> signal_table \<Rightarrow> bool \<times> signal_table" where
  "InstallExternalHandler sigrtmin ret st tab =
     (if server_fd st < 0 then (False, tab)
      else sigaction ret (ExternalSignum sigrtmin) ExternalStackTraceSignalHandlerFn tab)"

section \<open>Lemmas\<close>

text \<open>
  The check of \<open>InstallExternalHandler\<close> does not see a failed \<open>pipe2\<close>: whether the handler is
  installed depends on what the array happened to hold.
\<close>

lemma install_after_failed_pipe:
  assumes "fst (ExternalHandlerState pid None (rd, wr) s) = st" and "0 \<le> wr"
  shows "InstallExternalHandler sigrtmin 0 st tab
      = (True, tab(ExternalSignum sigrtmin \<mapsto> (ExternalStackTraceSignalHandlerFn, True)))
    \<and> open_fds (snd (ExternalHandlerState pid None (rd, wr) s)) = open_fds s"
  using assms by (auto simp: ExternalHandlerState_def open_service_pipe_def InstallExternalHandler_def
      sigaction_def emit_def)

definition prints :: "effect list \<Rightarrow> bool" where
  "prints es \<longleftrightarrow> (\<forall>a \<in> set es. \<exists>t ts. a = Err t \<or> a = Callback ts)"

definition callbacks :: "effect list \<Rightarrow> int list list" where
  "callbacks es = List.map_filter (\<lambda>a. case a of Callback ts \<Rightarrow> Some ts | _ \<Rightarrow> None) es"

lemma prints_append [simp]: "prints (xs @ ys) \<longleftrightarrow> prints xs \<and> prints ys"
  by (auto simp: prints_def)

lemma prints_simps [simp]:
  "prints (Err t # es) \<longleftrightarrow> prints es" "prints (Callback ts # es) \<longleftrightarrow> prints es" "prints []"
  by (simp_all add: prints_def)

lemma callbacks_append [simp]: "callbacks (xs @ ys) = callbacks xs @ callbacks ys"
  by (simp add: callbacks_def List.map_filter_def)

lemma callbacks_simps [simp]:
  "callbacks (Err t # es) = callbacks es" "callbacks (Callback ts # es) = ts # callbacks es"
  "callbacks [] = []"
  by (simp_all add: callbacks_def List.map_filter_simps)

lemma emit_simps [simp]:
  "effects (emit a s) = effects s @ [a]" "(emit a s)\<lparr>effects := es\<rparr> = s\<lparr>effects := es\<rparr>"
  by (simp_all add: emit_def)

lemma emit_log:
  "\<exists>es. fold (\<lambda>l. emit (Err l)) ls s = s\<lparr>effects := effects s @ es\<rparr> \<and> prints es \<and> callbacks es = []"
proof (induction ls arbitrary: s)
  case Nil
  then show ?case by (intro exI [of _ "[]"]) simp
next
  case (Cons l ls)
  obtain es where "fold (\<lambda>l. emit (Err l)) ls (emit (Err l) s)
      = (emit (Err l) s)\<lparr>effects := effects (emit (Err l) s) @ es\<rparr> \<and> prints es \<and> callbacks es = []"
    using Cons.IH by blast
  then show ?case by (intro exI [of _ "Err l # es"]) simp
qed

lemma ToPrettyString_call:
  "ToPrettyString cb r = (body, call, log) \<Longrightarrow> call = (if cb then Some (concat (map tids r)) else None)"
  using pretty_loop_tids [of r "[]" "[]" "[]"]
  by (auto simp: ToPrettyString_def split: prod.splits)

lemma dump_effects:
  "\<exists>es. dump cb n results error s = s\<lparr>effects := effects s @ es\<rparr> \<and> prints es
    \<and> callbacks es = (if cb \<and> results \<noteq> [] then [concat (map tids results)] else [])"
proof (cases "results = []")
  case True
  then show ?thesis
    by (intro exI [of _ "[Err (banner 45 n ''Start '')] @ [Err (''StackTrace collection failed: '' @ error @ endl)]"])
      (simp add: dump_def emit_def Let_def)
next
  case False
  obtain body call log where t: "ToPrettyString cb results = (body, call, log)" by (metis prod_cases3)
  obtain es where es: "fold (\<lambda>l. emit (Err l)) log (emit (Err (banner 45 n ''Start '')) s)
      = s\<lparr>effects := effects s @ [Err (banner 45 n ''Start '')] @ es\<rparr>" "prints es" "callbacks es = []"
    using emit_log [of log "emit (Err (banner 45 n ''Start '')) s"] by (auto simp: emit_def)
  let ?call = "case call of None \<Rightarrow> [] | Some ts \<Rightarrow> [Callback ts]"
  have "dump cb n results error s = s\<lparr>effects := effects s @ ([Err (banner 45 n ''Start '')] @ es @ ?call
      @ [Err (endl @ body @ endl)] @ [Err (banner 44 n ''End '')])\<rparr>"
    using False t es(1) by (simp add: dump_def Let_def emit_def split: option.splits)
  moreover have "prints ?call \<and> callbacks ?call = (if cb \<and> results \<noteq> [] then [concat (map tids results)] else [])"
    using ToPrettyString_call [OF t] False by simp
  ultimately show ?thesis using es(2,3)
    by (intro exI [of _ "[Err (banner 45 n ''Start '')] @ es @ ?call
      @ [Err (endl @ body @ endl)] @ [Err (banner 44 n ''End '')]"]) simp
qed

lemma serve_request_effects:
  "\<exists>es. serve_request cb n fd results error s =
       s\<lparr>open_fds := open_fds s - {fd}, effects := effects s @ es @ [Flush, CloseFd fd]\<rparr>
    \<and> prints es \<and> callbacks es = (if cb \<and> results \<noteq> [] then [concat (map tids results)] else [])"
  using dump_effects [of cb n results error s]
  by (auto simp: serve_request_def DEFER_def MakeScopedLambda_def lambda_dtor_def close_fd_def emit_def)

section \<open>Requests and acknowledgements\<close>

datatype service_label = Requested int | Served int "int option" | Quiet

text \<open>
  Requesters and the service thread interleaved. The kernel makes pipes and timers of unused
  descriptors; the end of the service's pipe is left out, since the service itself holds it open
  for writing. A turn that serves a request is one step: requests that arrive meanwhile wait in the
  pipe and touch other descriptors. Its label names the descriptor acknowledged and the timer
  whose \<open>timerfd_settime\<close> failed, if it did.
\<close>

definition unset_timer :: "collect_env \<Rightarrow> int option" where
  "unset_timer e =
     (if pipe_ret e \<noteq> None \<and> timer_ret e \<noteq> -1 \<and> settime_ret e = -1 then Some (timer_ret e) else None)"

inductive service_step :: "service \<times> world \<Rightarrow> service_label \<Rightarrow> service \<times> world \<Rightarrow> bool" where
  request: "rd \<notin> open_fds s \<Longrightarrow> wr \<notin> open_fds s \<Longrightarrow> rd \<noteq> wr \<Longrightarrow>
    service_step (s, w) (if ret = 4 then Requested wr else Quiet) (ExternalHandler (Some (rd, wr)) ret s, w)"
| no_pipe: "service_step (s, w) Quiet (ExternalHandler None ret s, w)"
| idle: "out \<noteq> ReadRequest \<Longrightarrow> serve cb wr_end n out [] [] s = Some (True, s') \<Longrightarrow>
    service_step (s, w) Quiet (s', w)"
| turn: "collect_and_serve sy pid cb wr_end n e evs (s, w) = Some (s', w') \<Longrightarrow>
    fresh_fds e (w\<lparr>fds := open_fds s\<rparr>) \<Longrightarrow>
    service_step (s, w) (Served (hd (requests s)) (unset_timer e)) (s', w')"

fun requested :: "service_label list \<Rightarrow> int list" where
  "requested [] = []"
| "requested (Requested fd # es) = fd # requested es"
| "requested (_ # es) = requested es"

fun served :: "service_label list \<Rightarrow> int list" where
  "served [] = []"
| "served (Served fd tm # es) = fd # served es"
| "served (_ # es) = served es"

fun unset_timers :: "service_label list \<Rightarrow> int list" where
  "unset_timers [] = []"
| "unset_timers (Served fd (Some tm) # es) = tm # unset_timers es"
| "unset_timers (_ # es) = unset_timers es"

lemma requested_append [simp]: "requested (es @ fs) = requested es @ requested fs"
  by (induction es rule: requested.induct) auto

lemma served_append [simp]: "served (es @ fs) = served es @ served fs"
  by (induction es rule: served.induct) auto

lemma unset_timers_append [simp]: "unset_timers (es @ fs) = unset_timers es @ unset_timers fs"
  by (induction es rule: unset_timers.induct) auto

definition service_ok :: "int set \<Rightarrow> service_label list \<Rightarrow> service \<times> world \<Rightarrow> bool" where
  "service_ok base es sw \<longleftrightarrow>
     open_fds (fst sw) = base \<union> set (requests (fst sw)) \<union> set (unset_timers es)
     \<and> distinct (requests (fst sw))
     \<and> set (requests (fst sw)) \<inter> (base \<union> set (unset_timers es)) = {}
     \<and> requested es = served es @ requests (fst sw)"

lemma turn_cases:
  assumes "serve cb wr_end n out results error s = Some (True, s')"
  shows "(if out = ReadRequest then requests s = hd (requests s) # requests s'
            \<and> open_fds s' = open_fds s - {hd (requests s)}
          else requests s' = requests s \<and> open_fds s' = open_fds s)"
proof (cases "out = ReadRequest")
  case True
  then obtain fd rs where r: "requests s = fd # rs"
      "s' = serve_request cb n fd results error (s\<lparr>requests := rs\<rparr>)"
    using assms by (auto simp: serve_def split: list.splits)
  then show ?thesis
    using True serve_request_effects [of cb n fd results error "s\<lparr>requests := rs\<rparr>"] by auto
next
  case False
  then show ?thesis using assms by (cases out) (auto simp: serve_def emit_def)
qed

text \<open>What a turn that serves a request does to the queue and to the descriptors.\<close>

lemma collect_and_serve_effect:
  assumes "collect_and_serve sy pid cb wr_end n e evs (s, w) = Some (s', w')"
    and "fresh_fds e (w\<lparr>fds := open_fds s\<rparr>)"
  shows "requests s = hd (requests s) # requests s'
    \<and> open_fds s' = (open_fds s \<union> set_option (unset_timer e)) - {hd (requests s)}"
proof -
  obtain results error rest go_on where
      c: "Collect sy pid e evs [] (w\<lparr>fds := open_fds s\<rparr>) = Some (results, error, w', rest)"
    and sv: "serve cb wr_end n ReadRequest results error (s\<lparr>open_fds := fds w'\<rparr>) = Some (go_on, s')"
    using assms(1) by (auto simp: collect_and_serve_def split: option.splits prod.splits)
  have "go_on" using sv by (auto simp: serve_def split: list.splits)
  then have t: "requests s = hd (requests s) # requests s'" "open_fds s' = fds w' - {hd (requests s)}"
    using turn_cases [of cb wr_end n ReadRequest results error "s\<lparr>open_fds := fds w'\<rparr>" s'] sv by simp_all
  have "fds w' = open_fds s \<union> set_option (unset_timer e)"
    using Collect_fds [OF c assms(2)] by (auto simp: unset_timer_def split: if_splits)
  then show ?thesis using t by simp
qed

interpretation acks: labelled_invariant
  "(\<lparr>open_fds = base, requests = [], effects = []\<rparr>, w0)" service_step "service_ok base" for base w0
proof unfold_locales
  show "service_ok base [] (\<lparr>open_fds = base, requests = [], effects = []\<rparr>, w0)"
    by (simp add: service_ok_def)
next
  fix es sw e tw
  assume ok: "service_ok base es sw" and st: "service_step sw e tw"
  from st show "service_ok base (es @ [e]) tw"
  proof cases
    case (request rd s wr w ret)
    then show ?thesis using ok
      by (auto simp: service_ok_def ExternalHandler_def close_fd_def emit_def Let_def)
  next
    case (no_pipe s w ret)
    then show ?thesis using ok by (simp add: service_ok_def ExternalHandler_def emit_def)
  next
    case (idle out cb wr_end n s s' w)
    then show ?thesis using turn_cases [OF idle(5)] ok by (simp add: service_ok_def)
  next
    case (turn sy pid cb wr_end n e' evs s w s' w')
    note eff = collect_and_serve_effect [OF turn(4,5)]
    obtain fd where r: "requests s = fd # requests s'" using eff by (cases "requests s") auto
    have fresh: "unset_timer e' = Some tm \<Longrightarrow> tm \<notin> open_fds s" for tm
      using turn(5) by (auto simp: unset_timer_def fresh_fds_def split: if_splits)
    show ?thesis
    proof (cases "unset_timer e'")
      case None
      then show ?thesis using ok turn r eff by (auto simp: service_ok_def)
    next
      case (Some tm)
      then show ?thesis using ok turn r eff fresh [OF Some] by (auto simp: service_ok_def)
    qed
  qed
qed

section \<open>Properties\<close>

text \<open>
  C10. However requests and turns of the service, each with its whole collection, follow each
  other, requests are acknowledged in the order they
  were made and each once, and the descriptors in use are those from before, one per request
  still waiting, and one per collection whose \<open>timerfd_settime\<close> failed, which \<open>Collect\<close> leaks: no failing
  request and no other served one leaves a descriptor open.
\<close>

theorem service_acks_in_order:
  assumes "lrun service_step (\<lparr>open_fds = base, requests = [], effects = []\<rparr>, w0) es (s, w)"
  shows "requested es = served es @ requests s
    \<and> open_fds s = base \<union> set (requests s) \<union> set (unset_timers es)
    \<and> distinct (requests s) \<and> set (requests s) \<inter> (base \<union> set (unset_timers es)) = {}"
  using acks.run_invariant [OF assms] by (simp add: service_ok_def)

text \<open>One request, served with a collection whose timer could not be set.\<close>

abbreviation no_world :: world where
  "no_world \<equiv> \<lparr>fds = {}, forms = Map.empty, pending = {}, acked = 0, use_after_free = False\<rparr>"

lemma service_acks_in_order_witness:
  "\<exists>s w. lrun service_step (\<lparr>open_fds = {0}, requests = [], effects = []\<rparr>, no_world)
        [Requested 4, Served 4 (Some 7)] (s, w)
    \<and> requests s = [] \<and> open_fds s = {0, 7}"
proof -
  let ?s0 = "\<lparr>open_fds = {0}, requests = [], effects = []\<rparr>"
  let ?s1 = "ExternalHandler (Some (3, 4)) 4 ?s0"
  let ?e = "\<lparr>listed = [], pipe_ret = Some (5, 6), signal_ret = \<lambda>t. 0, timer_ret = 7, settime_ret = -1,
       garbage = \<lambda>t. replicate kMaxDepth 0\<rparr>"
  have 1: "service_step (?s0, no_world) (Requested 4) (?s1, no_world)"
    using service_step.request [of 3 ?s0 4 no_world 4] by simp
  have s1: "open_fds ?s1 = {0, 4}" "requests ?s1 = [4]" by (auto simp: ExternalHandler_def close_fd_def)
  have "\<exists>s w. collect_and_serve (\<lambda>a. None) 1 False 9 1 ?e [] (?s1, no_world) = Some (s, w)"
    using s1(2) by (simp add: collect_and_serve_def Collect_def set_of_vector_def serve_def)
  then obtain s w where sw: "collect_and_serve (\<lambda>a. None) 1 False 9 1 ?e [] (?s1, no_world) = Some (s, w)" by blast
  have "fresh_fds ?e (no_world\<lparr>fds := open_fds ?s1\<rparr>)" using s1 by (simp add: fresh_fds_def)
  from service_step.turn [OF sw this] have 2: "service_step (?s1, no_world) (Served 4 (Some 7)) (s, w)"
    using s1 by (simp add: unset_timer_def)
  have run: "lrun service_step (?s0, no_world) [Requested 4, Served 4 (Some 7)] (s, w)"
    by (rule lrun_Cons [of service_step, OF 1 lrun_Cons [of service_step, OF 2]]) (rule lrun.lrun_nil)
  have "requests s = []" "open_fds s = {0, 7}" using service_acks_in_order [OF run] by auto
  with run show ?thesis by blast
qed

text \<open>
  A request is acknowledged after its output: everything printed for it comes before the
  flush, and the flush before the close that its requester waits for; the callback, if one is
  set and the collection gave results, is called once with all the threads of the results.
\<close>

theorem serve_flushes_before_ack:
  assumes "serve cb wr_end n ReadRequest results error s = Some (go_on, s')"
  shows "\<exists>fd es. requests s = fd # requests s' \<and> go_on
    \<and> effects s' = effects s @ es @ [Flush, CloseFd fd] \<and> prints es
    \<and> callbacks es = (if cb \<and> results \<noteq> [] then [concat (map tids results)] else [])"
proof -
  obtain fd rs where r: "requests s = fd # rs" "go_on"
      "s' = serve_request cb n fd results error (s\<lparr>requests := rs\<rparr>)"
    using assms by (auto simp: serve_def split: list.splits)
  then show ?thesis
    using serve_request_effects [of cb n fd results error "s\<lparr>requests := rs\<rparr>"] by auto
qed

lemma serve_flushes_before_ack_witness:
  "\<exists>s' fd es. serve True 9 1 ReadRequest [\<lparr>tids = [5, 6], trace = []\<rparr>] [] \<lparr>open_fds = {4}, requests = [4], effects = []\<rparr>
      = Some (True, s') \<and> effects s' = es @ [Flush, CloseFd fd] \<and> callbacks es = [[5, 6]]"
proof -
  let ?s = "\<lparr>open_fds = {4}, requests = [4], effects = []\<rparr>" and ?r = "[\<lparr>tids = [5, 6], trace = []\<rparr>]"
  obtain s' where s': "serve True 9 1 ReadRequest ?r [] ?s = Some (True, s')"
    by (simp add: serve_def)
  from serve_flushes_before_ack [OF this] show ?thesis using s' by auto
qed

end
