(* ===== verification/Agent_Base.thy ===== *)
theory Agent_Base
  imports Trace_Util Stack_Service
begin

text \<open>
  What the versions of the agent share (\<^verbatim>\<open>src/src/trace_agent.h\<close>): the JVM's tool interface and JNI as
  records of answers, exceptions and checked calls, the environment of the agent, and the
  printing of the frames of one Java stack.
\<close>

section \<open>JNI: a new thread object\<close>

record jni =
  FindClass :: "string \<Rightarrow> ptr"
  GetMethodID :: "ptr \<Rightarrow> string \<Rightarrow> string \<Rightarrow> ptr"
  NewObject :: "ptr \<Rightarrow> ptr \<Rightarrow> ptr"

text \<open>The object and the messages; a failure is reported and the next call made all the same.\<close>

definition alloc_thread :: "jni \<Rightarrow> ptr \<times> string list" where
  "alloc_thread env =
     (let thrClass = FindClass env ''java/lang/Thread'';
          m1 = (if thrClass = NULL then [''Cannot find Thread class''] else []);
          cid = GetMethodID env thrClass ''<init>'' ''()V'';
          m2 = (if cid = NULL then [''Cannot find Thread constructor method''] else []);
          res = NewObject env thrClass cid;
          m3 = (if res = NULL then [''Cannot create new Thread object''] else [])
      in (res, m1 @ m2 @ m3))"

section \<open>Checked calls\<close>

datatype agent_exception = Agent_Exception int

text \<open>The macro \<open>CHECK_ERR\<close>; \<open>JVMTI_ERROR_NONE\<close> is 0.\<close>

definition CHECK_ERR :: "int \<Rightarrow> agent_exception option" where
  "CHECK_ERR error = (if error \<noteq> 0 then Some (Agent_Exception error) else None)"

section \<open>Printing the frames of a stack\<close>

record stack_info =
  thread :: ptr
  frame_buffer :: "ptr list option"

text \<open>
  The answers of the tool interface during one dump. The code ignores the result of
  \<open>GetThreadInfo\<close> and prints a field that a failing call would leave uninitialised; the call is
  taken to succeed, as it does for a live thread, so its answer is the name.
\<close>

record jvmti =
  GetAllStackTraces :: "int \<times> stack_info list"
  GetThreadInfo :: "ptr \<Rightarrow> string"
  get_jtid :: "ptr \<Rightarrow> int"
  GetMethodDeclaringClass :: "ptr \<Rightarrow> int \<times> ptr"
  GetClassSignature :: "ptr \<Rightarrow> int \<times> string"
  GetMethodName :: "ptr \<Rightarrow> int \<times> string"
  Deallocate :: "string \<Rightarrow> int"

datatype dump_line =
    BegGetAll
  | EndGetAll int int
  | NoFrames nat string int
  | StackHead nat string int
  | FrameLine string string
  | StackNumber nat

text \<open>What was printed, and how many buffers of the tool interface are held.\<close>

record dump_state =
  lines :: "dump_line list"
  held :: nat

type_synonym dump_out = "agent_exception option \<times> dump_state"

definition print_line :: "dump_line \<Rightarrow> dump_state \<Rightarrow> dump_state" where
  "print_line l s = s\<lparr>lines := lines s @ [l]\<rparr>"

definition obtain_buffer :: "dump_state \<Rightarrow> dump_state" where
  "obtain_buffer s = s\<lparr>held := held s + 1\<rparr>"

definition release_buffer :: "dump_state \<Rightarrow> dump_state" where
  "release_buffer s = s\<lparr>held := held s - 1\<rparr>"

text \<open>One turn of the inner loop, over the frames of a stack.\<close>

definition print_frame :: "jvmti \<Rightarrow> ptr \<Rightarrow> dump_state \<Rightarrow> dump_out" where
  "print_frame j meth s =
     (case GetMethodDeclaringClass j meth of (error, clazz) \<Rightarrow>
      case CHECK_ERR error of Some e \<Rightarrow> (Some e, s) | None \<Rightarrow>
      case GetClassSignature j clazz of (error, signature) \<Rightarrow>
      case CHECK_ERR error of Some e \<Rightarrow> (Some e, s) | None \<Rightarrow>
      case GetMethodName j meth of (error, name) \<Rightarrow>
      case CHECK_ERR error of Some e \<Rightarrow> (Some e, obtain_buffer s) | None \<Rightarrow>
        (let s1 = print_line (FrameLine signature name) (obtain_buffer (obtain_buffer s)) in
         case CHECK_ERR (Deallocate j name) of Some e \<Rightarrow> (Some e, s1) | None \<Rightarrow>
         case CHECK_ERR (Deallocate j signature) of Some e \<Rightarrow> (Some e, release_buffer s1) | None \<Rightarrow>
           (None, release_buffer (release_buffer s1))))"

fun print_frames :: "jvmti \<Rightarrow> ptr list \<Rightarrow> dump_state \<Rightarrow> dump_out" where
  "print_frames j [] s = (None, s)"
| "print_frames j (m # ms) s =
     (case print_frame j m s of (Some e, s') \<Rightarrow> (Some e, s') | (None, s') \<Rightarrow> print_frames j ms s')"

section \<open>Start-up calls\<close>

datatype vm_event =
    VM_INIT | GARBAGE_COLLECTION_START | GARBAGE_COLLECTION_FINISH | THREAD_END | THREAD_START
  | EXCEPTION | VM_OBJECT_ALLOC | CLASS_FILE_LOAD_HOOK

datatype capability =
    generate_garbage_collection_events | tag_objects | signal_thread
  | generate_exception_events | generate_vm_object_alloc_events | generate_method_entry_events

datatype vm_call =
    AddCapabilities "capability list"
  | SetEventCallbacks "vm_event list"
  | SetEventNotificationMode vm_event
  | CreateRawMonitor string

record agent =
  vm :: ptr
  jvmti_ptr :: ptr
  made :: "vm_call list"
  signals :: signal_table

definition trace_agent_new :: "agent \<Rightarrow> agent" where
  "trace_agent_new a = a\<lparr>jvmti_ptr := NULL\<rparr>"

text \<open>\<open>GetEnv\<close> answered \<open>ret\<close> and stored \<open>env\<close>.\<close>

definition init :: "ptr \<Rightarrow> int \<Rightarrow> ptr \<Rightarrow> agent \<Rightarrow> agent_exception option \<times> agent" where
  "init v ret env a =
     (let a1 = a\<lparr>vm := v\<rparr> in
      if ret \<noteq> 0 \<or> env = 0 then (Some (Agent_Exception (-1)), a1) else (None, a1\<lparr>jvmti_ptr := env\<rparr>))"

text \<open>A sequence of calls, each followed by \<open>CHECK_ERR\<close>; \<open>answer\<close> is the tool interface.\<close>

fun checked_calls :: "(vm_call \<Rightarrow> int) \<Rightarrow> vm_call list \<Rightarrow> agent \<Rightarrow> agent_exception option \<times> agent" where
  "checked_calls answer [] a = (None, a)"
| "checked_calls answer (c # cs) a =
     (let a1 = a\<lparr>made := made a @ [c]\<rparr> in
      case CHECK_ERR (answer c) of Some e \<Rightarrow> (Some e, a1) | None \<Rightarrow> checked_calls answer cs a1)"

section \<open>Lemmas\<close>

text \<open>The calls up to and including the first that fails.\<close>

definition called_until :: "(vm_call \<Rightarrow> int) \<Rightarrow> vm_call list \<Rightarrow> vm_call list" where
  "called_until ans cs = takeWhile (\<lambda>c. ans c = 0) cs @ take 1 (dropWhile (\<lambda>c. ans c = 0) cs)"

lemma checked_calls_spec:
  "checked_calls ans cs a =
     (case dropWhile (\<lambda>c. ans c = 0) cs of [] \<Rightarrow> None | c # _ \<Rightarrow> Some (Agent_Exception (ans c)),
      a\<lparr>made := made a @ called_until ans cs\<rparr>)"
  by (induction ans cs a rule: checked_calls.induct) (auto simp: called_until_def CHECK_ERR_def Let_def)

definition all_ok :: "jvmti \<Rightarrow> bool" where
  "all_ok j \<longleftrightarrow> (\<forall>m. fst (GetMethodDeclaringClass j m) = 0) \<and> (\<forall>c. fst (GetClassSignature j c) = 0)
     \<and> (\<forall>m. fst (GetMethodName j m) = 0) \<and> (\<forall>b. Deallocate j b = 0)"

definition frame_line :: "jvmti \<Rightarrow> ptr \<Rightarrow> dump_line" where
  "frame_line j m = FrameLine (snd (GetClassSignature j (snd (GetMethodDeclaringClass j m))))
     (snd (GetMethodName j m))"

lemmas dump_defs = print_line_def obtain_buffer_def release_buffer_def

lemma print_frame_ok:
  assumes "all_ok j"
  shows "print_frame j m s = (None, s\<lparr>lines := lines s @ [frame_line j m]\<rparr>)"
proof -
  obtain c where c: "GetMethodDeclaringClass j m = (0, c)" using assms by (metis all_ok_def prod.collapse)
  obtain sg where sg: "GetClassSignature j c = (0, sg)" using assms by (metis all_ok_def prod.collapse)
  obtain nm where nm: "GetMethodName j m = (0, nm)" using assms by (metis all_ok_def prod.collapse)
  show ?thesis using assms
    by (simp add: c sg nm all_ok_def print_frame_def CHECK_ERR_def Let_def frame_line_def dump_defs)
qed

lemma print_frames_ok:
  "all_ok j \<Longrightarrow> print_frames j ms s = (None, s\<lparr>lines := lines s @ map (frame_line j) ms\<rparr>)"
  by (induction ms arbitrary: s) (simp_all add: print_frame_ok)

end
