(* ===== verification/Jvm_Inner.thy ===== *)
theory Jvm_Inner
  imports Jvm_Base
begin

text \<open>
  \<^verbatim>\<open>src/src/jvm_inner.h\<close>: the Java-level id of a thread. With \<open>JVM_INNER\<close> the header is compiled against
  HotSpot, whose functions are a record of answers; without it the id is a constant.
\<close>

record hotspot =
  threadObj :: ptr
  resolve_external_guard :: "ptr \<Rightarrow> ptr"
  is_a_Thread_klass :: "ptr \<Rightarrow> bool"
  thread_id :: "ptr \<Rightarrow> 64 word"

text \<open>The id and the message; HotSpot's \<open>jlong\<close> is cut to an \<open>int\<close> by the return type.\<close>

definition thread_oop :: "hotspot \<Rightarrow> ptr \<Rightarrow> ptr" where
  "thread_oop h t = (if t = NULL then threadObj h else resolve_external_guard h t)"

definition get_jtid_of :: "bool \<Rightarrow> hotspot \<Rightarrow> ptr \<Rightarrow> int \<times> string list" where
  "get_jtid_of JVM_INNER h t =
     (if JVM_INNER
      then if thread_oop h t = NULL \<or> \<not> is_a_Thread_klass h (thread_oop h t)
           then (-1, [''JVMTI_ERROR_INVALID_THREAD''])
           else (sint (ucast (thread_id h (thread_oop h t)) :: 32 word), [])
      else (-999, []))"

text \<open>
  The id of a thread object is exact below \<open>2 ^ 31\<close>; there the two error values of the function
  cannot be taken for an id.
\<close>

lemma get_jtid_exact:
  assumes "thread_oop h t \<noteq> NULL" and "is_a_Thread_klass h (thread_oop h t)"
    and "unat (thread_id h (thread_oop h t)) < 2 ^ 31"
  shows "get_jtid_of True h t = (int (unat (thread_id h (thread_oop h t))), [])"
proof -
  let ?w = "thread_id h (thread_oop h t)"
  have u: "uint ?w < 2 ^ 31" using assms(3) by (metis of_nat_less_iff of_nat_numeral of_nat_power uint_nat)
  have "sint (ucast ?w :: 32 word) = signed_take_bit 31 (uint ?w)"
    by (simp add: sint_uint unsigned_ucast_eq signed_take_bit_take_bit)
  also have "\<dots> = uint ?w" 
  proof (rule signed_take_bit_int_eq_self)
    show "- (2 ^ 31) \<le> uint ?w" by (rule order_trans [of _ 0]) simp_all
  qed (use u in simp)
  finally show ?thesis using assms(1,2) by (simp add: get_jtid_of_def)
qed

lemma get_jtid_distinguishes:
  assumes "thread_oop h t \<noteq> NULL" and "is_a_Thread_klass h (thread_oop h t)"
    and "unat (thread_id h (thread_oop h t)) < 2 ^ 31"
  shows "fst (get_jtid_of True h t) \<noteq> -1 \<and> fst (get_jtid_of True h t) \<noteq> fst (get_jtid_of False h t)"
proof -
  have "0 \<le> fst (get_jtid_of True h t)" unfolding get_jtid_exact [OF assms] by simp
  moreover have "fst (get_jtid_of False h t) = -999" by (simp add: get_jtid_of_def)
  ultimately show ?thesis by linarith
qed

end
