(* ===== verification/Trace_Agent.thy ===== *)
theory Trace_Agent
  imports Agent_Base Jvm_Inner
begin

text \<open>
  \<^verbatim>\<open>src/src/trace_agent.h\<close> and \<^verbatim>\<open>src/src/main.cpp\<close>: the JVM agent. Its start-up (capabilities, callbacks and
  events, every call checked), the dump of the Java stacks, the callbacks, and the two agent
  threads. The JVM's tool interface and JNI are parameters: records of the answers of their
  functions. Text with terminal colours is kept as one constructor per format string. An
  exception that leaves the safepoint worker ends the process and is not a step of the protocol.
\<close>

section \<open>The dump of the Java stacks\<close>

fun print_stacks :: "jvmti \<Rightarrow> nat \<Rightarrow> stack_info list \<Rightarrow> dump_state \<Rightarrow> dump_out" where
  "print_stacks j i [] s = (None, s)"
| "print_stacks j i (st # sts) s =
     (let name = GetThreadInfo j (thread st); s1 = obtain_buffer s in
      case frame_buffer st of
        None \<Rightarrow> print_stacks j (i + 1) sts (print_line (NoFrames i name (get_jtid j (thread st))) s1)
      | Some info \<Rightarrow>
          (case print_frames j info (print_line (StackHead i name (get_jtid j (thread st))) s1) of
             (Some e, s2) \<Rightarrow> (Some e, s2)
           | (None, s2) \<Rightarrow> print_stacks j (i + 1) sts s2))"

definition java_stack_trace :: "jvmti \<Rightarrow> bool \<Rightarrow> dump_state \<Rightarrow> dump_out" where
  "java_stack_trace j printing s =
     (case GetAllStackTraces j of (rc, stacks) \<Rightarrow>
        (let s0 = print_line BegGetAll s;
             s1 = print_line (EndGetAll (int (length stacks)) rc)
               (if rc = 0 then obtain_buffer s0 else s0) in
         if \<not> printing then (None, s1) else print_stacks j 0 stacks s1))"

section \<open>Start-up\<close>

definition caps :: "bool \<Rightarrow> capability list" where
  "caps monitor = [generate_garbage_collection_events, tag_objects, signal_thread]
     @ (if monitor then [generate_exception_events, generate_vm_object_alloc_events] else [])"

definition add_cap :: "bool \<Rightarrow> (vm_call \<Rightarrow> int) \<Rightarrow> agent \<Rightarrow> agent_exception option \<times> agent" where
  "add_cap monitor answer a = checked_calls answer [AddCapabilities (caps monitor)] a"

definition callbacks_set :: "bool \<Rightarrow> vm_event list" where
  "callbacks_set monitor =
     [VM_INIT, GARBAGE_COLLECTION_START, GARBAGE_COLLECTION_FINISH, THREAD_END, THREAD_START]
     @ (if monitor then [EXCEPTION] else [])"

definition events_enabled :: "bool \<Rightarrow> vm_event list" where
  "events_enabled monitor =
     [VM_INIT, GARBAGE_COLLECTION_START, GARBAGE_COLLECTION_FINISH, THREAD_END, THREAD_START]
     @ (if monitor then [EXCEPTION, VM_OBJECT_ALLOC] else [])"

definition reg_event :: "bool \<Rightarrow> (vm_call \<Rightarrow> int) \<Rightarrow> agent \<Rightarrow> agent_exception option \<times> agent" where
  "reg_event monitor answer a =
     checked_calls answer
       (SetEventCallbacks (callbacks_set monitor) # map SetEventNotificationMode (events_enabled monitor)) a"

text \<open>
  What \<open>Agent_OnLoad\<close> meets: \<open>SIGRTMIN\<close>, the results of the two \<open>sigaction\<close> calls, the state of
  the stack trace service, and the answers of \<open>GetEnv\<close> and of the tool interface.
\<close>

record onload_env =
  sigrtmin :: int
  sig_int :: int
  sig_ext :: int
  ext_state :: external_handler_state
  getenv_ret :: int
  getenv_env :: ptr
  answer :: "vm_call \<Rightarrow> int"

text \<open>\<open>JNI_OK\<close> is 0 and \<open>JNI_ERR\<close> is -1; the results of the installations are ignored.\<close>

definition Agent_OnLoad :: "bool \<Rightarrow> onload_env \<Rightarrow> ptr \<Rightarrow> agent \<Rightarrow> int \<times> agent" where
  "Agent_OnLoad monitor o1 v a =
     (let tab1 = snd (InstallInternalHandler (sigrtmin o1) (sig_int o1) (signals a));
          tab2 = snd (InstallExternalHandler (sigrtmin o1) (sig_ext o1) (ext_state o1) tab1) in
      case init v (getenv_ret o1) (getenv_env o1) (trace_agent_new (a\<lparr>signals := tab2\<rparr>)) of
        (Some e, a1) \<Rightarrow> (-1, a1)
      | (None, a1) \<Rightarrow>
          (case add_cap monitor (answer o1) a1 of
             (Some e, a2) \<Rightarrow> (-1, a2)
           | (None, a2) \<Rightarrow>
               (case reg_event monitor (answer o1) a2 of
                  (Some e, a3) \<Rightarrow> (-1, a3)
                | (None, a3) \<Rightarrow> (0, a3))))"

section \<open>Callbacks\<close>

datatype agent_thread = Worker | SafepointWorker

text \<open>
  \<open>vm_init\<close> starts the two agent threads; \<open>run_ret\<close> is what \<open>RunAgentThread\<close> returns for each.
\<close>

definition vm_init ::
    "ptr \<Rightarrow> jni \<Rightarrow> (ptr \<Rightarrow> agent_thread \<Rightarrow> int) \<Rightarrow> agent_exception option \<times> agent_thread list" where
  "vm_init jvmti_env env run_ret =
     (if jvmti_env = NULL then (None, [])
      else case CHECK_ERR (run_ret (fst (alloc_thread env)) Worker) of
        Some e \<Rightarrow> (Some e, [])
      | None \<Rightarrow>
          (case CHECK_ERR (run_ret (fst (alloc_thread env)) SafepointWorker) of
             Some e \<Rightarrow> (Some e, [Worker])
           | None \<Rightarrow> (None, [Worker, SafepointWorker])))"

definition gc_start :: "u64 \<Rightarrow> u64 \<Rightarrow> u64 zqueue \<Rightarrow> u64 zqueue" where
  "gc_start tv_sec tv_usec q = push (gtm tv_sec tv_usec) q"

text \<open>The class whose allocation is reported, if any.\<close>

definition object_alloc :: "string \<Rightarrow> string option" where
  "object_alloc class_name =
     (if strncmp_eq ''Ljava'' class_name \<or> strncmp_eq ''[Ljava'' class_name
         \<or> strncmp_eq ''Lorg'' class_name \<or> strncmp_eq ''[Lorg'' class_name
         \<or> strncmp_eq ''Lsun'' class_name \<or> strncmp_eq ''[Lsun'' class_name then None
      else if length class_name = 2 then None
      else Some class_name)"

text \<open>
  The callbacks that report an event print one line and keep the text the tool interface gave
  them: what they printed, and how many of its buffers are held.
\<close>

datatype callback_line =
    GcBegin int
  | GcEnd int
  | ThreadEnd string
  | ThreadStart string
  | ExceptionOf string
  | ObjectAlloc string

record callback_state =
  reported_lines :: "callback_line list"
  texts_held :: nat

definition report :: "callback_line \<Rightarrow> callback_state \<Rightarrow> callback_state" where
  "report l s = s\<lparr>reported_lines := reported_lines s @ [l]\<rparr>"

definition keep_text :: "callback_state \<Rightarrow> callback_state" where
  "keep_text s = s\<lparr>texts_held := texts_held s + 1\<rparr>"

definition gc_start_cb :: "int \<Rightarrow> callback_state \<Rightarrow> callback_state" where
  "gc_start_cb caller s = report (GcBegin caller) s"

definition gc_finish :: "int \<Rightarrow> callback_state \<Rightarrow> callback_state" where
  "gc_finish caller s = report (GcEnd caller) s"

definition thread_end :: "jvmti \<Rightarrow> ptr \<Rightarrow> callback_state \<Rightarrow> callback_state" where
  "thread_end j th s = report (ThreadEnd (GetThreadInfo j th)) (keep_text s)"

definition thread_start :: "jvmti \<Rightarrow> ptr \<Rightarrow> callback_state \<Rightarrow> callback_state" where
  "thread_start j th s = report (ThreadStart (GetThreadInfo j th)) (keep_text s)"

text \<open>\<open>GetObjectClass\<close> is the class of the exception object; the code after \<open>return\<close> is dead.\<close>

definition exception_fun :: "(ptr \<Rightarrow> ptr) \<Rightarrow> jvmti \<Rightarrow> ptr \<Rightarrow> callback_state \<Rightarrow> callback_state" where
  "exception_fun GetObjectClass j exception s =
     report (ExceptionOf (snd (GetClassSignature j (GetObjectClass exception)))) (keep_text s)"

definition object_alloc_cb :: "jvmti \<Rightarrow> ptr \<Rightarrow> callback_state \<Rightarrow> callback_state" where
  "object_alloc_cb j object_klass s =
     (let class_name = snd (GetClassSignature j object_klass); s1 = keep_text s in
      case object_alloc class_name of None \<Rightarrow> s1 | Some c \<Rightarrow> report (ObjectAlloc c) s1)"

text \<open>The tool interface delivers one event after the other.\<close>

datatype delivery =
    OnGcStart int | OnGcFinish int | OnThreadEnd ptr | OnThreadStart ptr | OnException ptr | OnAlloc ptr

fun deliver :: "(ptr \<Rightarrow> ptr) \<Rightarrow> jvmti \<Rightarrow> delivery \<Rightarrow> callback_state \<Rightarrow> callback_state" where
  "deliver oc j (OnGcStart t) = gc_start_cb t"
| "deliver oc j (OnGcFinish t) = gc_finish t"
| "deliver oc j (OnThreadEnd th) = thread_end j th"
| "deliver oc j (OnThreadStart th) = thread_start j th"
| "deliver oc j (OnException ex) = exception_fun oc j ex"
| "deliver oc j (OnAlloc k) = object_alloc_cb j k"

section \<open>The garbage collection worker\<close>

text \<open>
  The loop of \<open>worker\<close>: for each turn the outcome of \<open>try_pop\<close> and \<open>agent_lock::stop_\<close> as read
  after a failure. True when the loop was left.
\<close>

fun worker :: "jvmti \<Rightarrow> (u64 pop_result \<times> bool) list \<Rightarrow> dump_state \<Rightarrow> bool \<times> dump_state" where
  "worker j [] s = (False, s)"
| "worker j ((r, stop) # turns) s =
     (case r of
        Popped tm q \<Rightarrow> worker j turns (snd (java_stack_trace j False s))
      | TimedOut q \<Rightarrow> if stop then (True, s) else worker j turns s
      | Blocked q \<Rightarrow> (False, s))"

section \<open>The safepoint worker\<close>

text \<open>
  The worker, the notifying thread it starts, and the threads parked in \<open>mem_fuller\<close>, as steps.
  Thread 0 is the worker and thread 1 the notifier. \<open>WTrace\<close>: the Java stacks are being dumped;
  \<open>WJoin\<close>: waiting for the notifier.
\<close>

datatype wphase = WLoop | WTrace | WJoin | WDone

datatype nphase = NIdle | NNotify | NPop | NDone

record safepoint =
  mf :: mem_fuller
  wpc :: wphase
  npc :: nphase
  qq :: "u64 zqueue"
  stop :: bool
  dumps :: nat

datatype sp_event = App mevent | Take | Idle | Leave | Traced | Join | Notify "nat option" | Retry | NPopped | Unload

text \<open>The other end of the agent's life: \<open>stop_\<close> is set under its mutex.\<close>

definition Agent_OnUnload :: "safepoint \<Rightarrow> safepoint" where
  "Agent_OnUnload s = s\<lparr>stop := True\<rparr>"

definition app_event :: "mevent \<Rightarrow> bool" where
  "app_event e =
     (case e of MPend t tm \<Rightarrow> 2 \<le> t | MSleep t \<Rightarrow> 2 \<le> t | MSpurious t \<Rightarrow> 2 \<le> t | MReturn t \<Rightarrow> 2 \<le> t
      | MNotify t all c \<Rightarrow> False | MSet t \<Rightarrow> False)"

definition sp_start :: safepoint where
  "sp_start = \<lparr>mf = set_stack_trace 0 mf_new, wpc = WLoop, npc = NIdle, qq = zq_new, stop = False, dumps = 0\<rparr>"

inductive sp_step :: "safepoint \<Rightarrow> sp_event \<Rightarrow> safepoint \<Rightarrow> bool" where
  sp_app: "mstep (mf s) e m \<Longrightarrow> app_event e \<Longrightarrow> sp_step s (App e) (s\<lparr>mf := m\<rparr>)"
| sp_take: "wpc s = WLoop \<Longrightarrow> front_pop (queue (mf s)) = Some (tm, q) \<Longrightarrow>
     sp_step s Take (s\<lparr>mf := (mf s)\<lparr>queue := q\<rparr>, wpc := WTrace, npc := NNotify, qq := zq_new\<rparr>)"
| sp_idle: "wpc s = WLoop \<Longrightarrow> \<not> stop s \<Longrightarrow> sp_step s Idle s"
| sp_leave: "wpc s = WLoop \<Longrightarrow> stop s \<Longrightarrow> sp_step s Leave (s\<lparr>wpc := WDone\<rparr>)"
| sp_traced: "wpc s = WTrace \<Longrightarrow>
     sp_step s Traced (s\<lparr>wpc := WJoin, qq := push 1 (qq s), dumps := dumps s + 1\<rparr>)"
| sp_join: "wpc s = WJoin \<Longrightarrow> npc s = NDone \<Longrightarrow> sp_step s Join (s\<lparr>wpc := WDone\<rparr>)"
| sp_notify: "npc s = NNotify \<Longrightarrow> mstep (mf s) (MNotify 1 False c) m \<Longrightarrow>
     sp_step s (Notify c) (s\<lparr>mf := m, npc := NPop\<rparr>)"
| sp_retry: "npc s = NPop \<Longrightarrow> sp_step s Retry (s\<lparr>npc := NNotify\<rparr>)"
| sp_popped: "npc s = NPop \<Longrightarrow> front_pop (qq s) = Some (tm, q) \<Longrightarrow>
     sp_step s NPopped (s\<lparr>npc := NDone, qq := q\<rparr>)"
| sp_unload: "sp_step s Unload (Agent_OnUnload s)"

section \<open>Lemmas\<close>

definition startup_calls :: "bool \<Rightarrow> vm_call list" where
  "startup_calls monitor = AddCapabilities (caps monitor) # SetEventCallbacks (callbacks_set monitor)
     # map SetEventNotificationMode (events_enabled monitor)"

fun listing :: "jvmti \<Rightarrow> nat \<Rightarrow> stack_info list \<Rightarrow> dump_line list" where
  "listing j i [] = []"
| "listing j i (st # sts) =
     (case frame_buffer st of
        None \<Rightarrow> [NoFrames i (GetThreadInfo j (thread st)) (get_jtid j (thread st))]
      | Some ms \<Rightarrow> StackHead i (GetThreadInfo j (thread st)) (get_jtid j (thread st)) # map (frame_line j) ms)
     @ listing j (i + 1) sts"

lemma print_stacks_ok:
  "all_ok j \<Longrightarrow> print_stacks j i sts s =
    (None, s\<lparr>lines := lines s @ listing j i sts, held := held s + length sts\<rparr>)"
  by (induction sts arbitrary: i s)
    (simp_all add: Let_def print_frames_ok dump_defs split: option.splits)

text \<open>
  Without the internals of the JVM every stack is listed under the same thread id.
\<close>

fun line_tid :: "dump_line \<Rightarrow> int option" where
  "line_tid (NoFrames i name t) = Some t"
| "line_tid (StackHead i name t) = Some t"
| "line_tid _ = None"

lemma listing_without_jvm_inner:
  assumes "get_jtid j = (\<lambda>t. fst (get_jtid_of False h t))" and "l \<in> set (listing j i sts)"
  shows "line_tid l \<in> {None, Some (-999)}"
  using assms(2)
  by (induction sts arbitrary: i)
    (auto simp: assms(1) get_jtid_of_def frame_line_def split: option.splits)

text \<open>No event is printed twice or out of order, and every text that is obtained stays held.\<close>

fun line_of :: "(ptr \<Rightarrow> ptr) \<Rightarrow> jvmti \<Rightarrow> delivery \<Rightarrow> callback_line list" where
  "line_of oc j (OnGcStart t) = [GcBegin t]"
| "line_of oc j (OnGcFinish t) = [GcEnd t]"
| "line_of oc j (OnThreadEnd th) = [ThreadEnd (GetThreadInfo j th)]"
| "line_of oc j (OnThreadStart th) = [ThreadStart (GetThreadInfo j th)]"
| "line_of oc j (OnException ex) = [ExceptionOf (snd (GetClassSignature j (oc ex)))]"
| "line_of oc j (OnAlloc k) =
     (case object_alloc (snd (GetClassSignature j k)) of None \<Rightarrow> [] | Some c \<Rightarrow> [ObjectAlloc c])"

fun obtains_text :: "delivery \<Rightarrow> bool" where
  "obtains_text (OnGcStart t) = False"
| "obtains_text (OnGcFinish t) = False"
| "obtains_text _ = True"

lemma deliver_effect:
  "deliver oc j d s = s\<lparr>reported_lines := reported_lines s @ line_of oc j d,
     texts_held := texts_held s + (if obtains_text d then 1 else 0)\<rparr>"
  by (cases d) (simp_all add: gc_start_cb_def gc_finish_def thread_end_def thread_start_def
    exception_fun_def object_alloc_cb_def report_def keep_text_def Let_def split: option.splits)

lemma deliver_all:
  "fold (deliver oc j) ds s = s\<lparr>reported_lines := reported_lines s @ concat (map (line_of oc j) ds),
     texts_held := texts_held s + length (filter obtains_text ds)\<rparr>"
  by (induction ds arbitrary: s) (simp_all add: deliver_effect)

text \<open>The threads and phases of the safepoint protocol that can occur together.\<close>

definition sp_ok :: "safepoint \<Rightarrow> bool" where
  "sp_ok s \<longleftrightarrow> c_mutex (mf s) = None \<and> mpcs (mf s) 0 = MOutside \<and> mpcs (mf s) 1 = MOutside
     \<and> (case wpc s of
          WLoop \<Rightarrow> npc s = NIdle \<and> dumps s = 0
        | WTrace \<Rightarrow> (npc s = NNotify \<or> npc s = NPop) \<and> que (qq s) = [] \<and> dumps s = 0
        | WJoin \<Rightarrow> npc s \<noteq> NIdle \<and> (npc s = NDone \<or> que (qq s) \<noteq> []) \<and> dumps s = 1
        | WDone \<Rightarrow> (npc s = NIdle \<or> npc s = NDone) \<and> dumps s \<le> 1)"

lemma app_step_ok:
  assumes "mstep m e m'" and "app_event e" and "c_mutex m = None"
    and "mpcs m 0 = MOutside" and "mpcs m 1 = MOutside"
  shows "c_mutex m' = None \<and> mpcs m' 0 = MOutside \<and> mpcs m' 1 = MOutside"
  using assms by (cases rule: mstep.cases) (auto simp: app_event_def pending_enter_def Let_def)

lemma notify_step_ok:
  assumes "mstep m (MNotify t False c) m'" and "mpcs m 0 = MOutside" and "mpcs m 1 = MOutside"
  shows "c_mutex m' = None \<and> mpcs m' 0 = MOutside \<and> mpcs m' 1 = MOutside"
  using assms
  by (cases rule: mstep.cases) (auto simp: notify_def signal_choice_def Let_def intro!: gr0I split: option.splits)

interpretation sp: labelled_invariant sp_start sp_step "\<lambda>es s. sp_ok s"
proof unfold_locales
  show "sp_ok sp_start" by (simp add: sp_ok_def sp_start_def set_stack_trace_def mf_new_def)
next
  fix es s e t
  assume ok: "sp_ok s" and st: "sp_step s e t"
  from st show "sp_ok t"
  proof cases
    case (sp_app e m)
    then show ?thesis using ok app_step_ok [OF sp_app(3,4)]
      by (auto simp: sp_ok_def split: wphase.splits)
  next
    case (sp_notify c m)
    then show ?thesis using ok notify_step_ok [OF sp_notify(4)]
      by (auto simp: sp_ok_def split: wphase.splits)
  qed (use ok in \<open>auto simp: sp_ok_def zq_new_def push_def front_pop_def Agent_OnUnload_def split: wphase.splits list.splits\<close>)
qed

text \<open>Once the worker is done, a parked thread is woken only spuriously.\<close>

definition parked :: "safepoint \<Rightarrow> nat \<Rightarrow> bool" where
  "parked s t \<longleftrightarrow> mpcs (mf s) t = MLocking \<or> mpcs (mf s) t = MAsleep"

lemma parked_step:
  assumes "sp_step s e s'" and "sp_ok s" and "wpc s = WDone" and "parked s t"
    and "e \<noteq> App (MSpurious t)"
  shows "parked s' t \<and> wpc s' = WDone \<and> e \<noteq> App (MReturn t)"
  using assms(1)
proof cases
  case (sp_app e' m)
  from sp_app(3) show ?thesis using assms(2-5) sp_app
    by (cases rule: mstep.cases)
      (auto simp: parked_def app_event_def pending_enter_def Let_def)
qed (use assms in \<open>auto simp: sp_ok_def parked_def Agent_OnUnload_def\<close>)

lemma sp_ok_step: "sp_ok s \<Longrightarrow> sp_step s e t \<Longrightarrow> sp_ok t"
  by (rule sp.inv_step)

lemma parked_run:
  assumes "lrun sp_step s es s'" and "sp_ok s" and "wpc s = WDone" and "parked s t"
    and "App (MSpurious t) \<notin> set es"
  shows "sp_ok s' \<and> wpc s' = WDone \<and> parked s' t \<and> App (MReturn t) \<notin> set es"
  using assms
proof (induction rule: lrun.induct)
  case (lrun_snoc es t' e u)
  then have "sp_ok t' \<and> wpc t' = WDone \<and> parked t' t \<and> App (MReturn t) \<notin> set es" by simp
  then show ?case using lrun_snoc sp_ok_step [of t' e u] parked_step [of t' e u t] by auto
qed simp

text \<open>From the notifier's turn, a parked thread is let go in two steps.\<close>

lemma release_run:
  assumes "sp_ok s" and "npc s = NNotify" and "mpcs (mf s) t = MAsleep" and "2 \<le> t"
  shows "\<exists>s'. lrun sp_step s [Notify (Some t), App (MReturn t)] s' \<and> mpcs (mf s') t = MOutside"
proof -
  let ?m1 = "notify 1 False (Some t) (mf s)"
  let ?s1 = "s\<lparr>mf := ?m1, npc := NPop\<rparr>"
  let ?m2 = "?m1\<lparr>mpcs := (mpcs ?m1)(t := MOutside)\<rparr>"
  have "mstep (mf s) (MNotify 1 False (Some t)) ?m1"
    using assms by (intro mstep.m_notify) (simp_all add: sp_ok_def signal_choice_def)
  then have 1: "sp_step s (Notify (Some t)) ?s1" using assms(2) by (intro sp_step.sp_notify)
  have "mstep ?m1 (MReturn t) ?m2" by (rule mstep.m_return) (simp_all add: notify_def Let_def)
  then have 2: "sp_step ?s1 (App (MReturn t)) (?s1\<lparr>mf := ?m2\<rparr>)"
    using sp_step.sp_app [of ?s1 "MReturn t" ?m2] assms(4) by (simp add: app_event_def)
  have "lrun sp_step s [Notify (Some t), App (MReturn t)] (?s1\<lparr>mf := ?m2\<rparr>)"
    by (rule lrun_Cons [of sp_step, OF 1 lrun_Cons [of sp_step, OF 2]]) (rule lrun.lrun_nil)
  then show ?thesis by (intro exI) (auto)
qed

text \<open>
  A run for the examples: thread 2 reports that memory is full, and the worker takes the report
  and finishes while the thread is still on its way to the wait.
\<close>

abbreviation reported :: "u64 list \<Rightarrow> mpc \<Rightarrow> mem_fuller" where
  "reported q p \<equiv> \<lparr>queue = \<lparr>que = q\<rparr>, c_mutex = None, mpcs = (\<lambda>_. MOutside)(2 := p),
     stack_trace = (\<lambda>_. False)(0 := True)\<rparr>"

abbreviation phase :: "u64 list \<Rightarrow> mpc \<Rightarrow> wphase \<Rightarrow> nphase \<Rightarrow> u64 list \<Rightarrow> nat \<Rightarrow> safepoint" where
  "phase q p w n r d \<equiv> \<lparr>mf = reported q p, wpc = w, npc = n, qq = \<lparr>que = r\<rparr>, stop = False, dumps = d\<rparr>"

lemma report_step: "sp_step sp_start (App (MPend 2 7)) (phase [7] MLocking WLoop NIdle [] 0)"
proof -
  have "mstep (mf sp_start) (MPend 2 7) (pending_enter 2 7 (mf sp_start))"
    by (rule mstep.m_pend) (simp add: sp_start_def set_stack_trace_def mf_new_def)
  from sp_step.sp_app [OF this] show ?thesis
    by (simp add: app_event_def sp_start_def set_stack_trace_def mf_new_def pending_enter_def
        push_def zq_new_def Let_def)
qed

lemma sleep_step:
  "sp_step (phase q MLocking w n r d) (App (MSleep 2)) (phase q MAsleep w n r d)"
  using sp_step.sp_app [of "phase q MLocking w n r d" "MSleep 2"]
    mstep.m_sleep [of "reported q MLocking" 2] by (simp add: app_event_def)

lemma take_step: "sp_step (phase [7] p WLoop NIdle [] 0) Take (phase [] p WTrace NNotify [] 0)"
  using sp_step.sp_take [of "phase [7] p WLoop NIdle [] 0" 7 "\<lparr>que = []\<rparr>"]
  by (simp add: front_pop_def zq_new_def)

lemma finish_run:
  "lrun sp_step (phase [] MLocking WTrace NNotify [] 0) [Notify None, Traced, NPopped, Join]
     (phase [] MLocking WDone NDone [] 1)"
proof -
  have "mstep (reported [] MLocking) (MNotify 1 False None) (reported [] MLocking)"
    using mstep.m_notify [of "reported [] MLocking" 1 None False]
    by (simp add: signal_choice_def notify_def)
  then have 1: "sp_step (phase [] MLocking WTrace NNotify [] 0) (Notify None) (phase [] MLocking WTrace NPop [] 0)"
    using sp_step.sp_notify [of "phase [] MLocking WTrace NNotify [] 0" None "reported [] MLocking"] by simp
  have 2: "sp_step (phase [] MLocking WTrace NPop [] 0) Traced (phase [] MLocking WJoin NPop [1] 1)"
    using sp_step.sp_traced [of "phase [] MLocking WTrace NPop [] 0"] by (simp add: push_def)
  have 3: "sp_step (phase [] MLocking WJoin NPop [1] 1) NPopped (phase [] MLocking WJoin NDone [] 1)"
    using sp_step.sp_popped [of "phase [] MLocking WJoin NPop [1] 1" 1 "\<lparr>que = []\<rparr>"]
    by (simp add: front_pop_def)
  have 4: "sp_step (phase [] MLocking WJoin NDone [] 1) Join (phase [] MLocking WDone NDone [] 1)"
    using sp_step.sp_join [of "phase [] MLocking WJoin NDone [] 1"] by simp
  show ?thesis
    by (rule lrun_Cons [of sp_step, OF 1 lrun_Cons [of sp_step, OF 2 lrun_Cons [of sp_step, OF 3
          lrun_Cons [of sp_step, OF 4]]]]) (rule lrun.lrun_nil)
qed

section \<open>Properties\<close>

text \<open>
  C30. The agent loads exactly if the environment is of the right version and every call of the
  tool interface succeeds; the calls made are the capabilities, the callbacks and the events in
  order up to the first one that fails, and none without an environment.
\<close>

theorem Agent_OnLoad_result:
  "Agent_OnLoad monitor o1 v a =
     (if getenv_ret o1 = 0 \<and> getenv_env o1 \<noteq> NULL \<and> list_all (\<lambda>c. answer o1 c = 0) (startup_calls monitor)
      then 0 else -1,
      \<lparr>vm = v,
       jvmti_ptr = (if getenv_ret o1 = 0 then getenv_env o1 else NULL),
       made = made a @ (if getenv_ret o1 = 0 \<and> getenv_env o1 \<noteq> NULL
                        then called_until (answer o1) (startup_calls monitor) else []),
       signals = snd (InstallExternalHandler (sigrtmin o1) (sig_ext o1) (ext_state o1)
                  (snd (InstallInternalHandler (sigrtmin o1) (sig_int o1) (signals a))))\<rparr>)"
proof (cases "getenv_ret o1 = 0 \<and> getenv_env o1 \<noteq> NULL")
  case False
  then show ?thesis by (auto simp: Agent_OnLoad_def init_def trace_agent_new_def Let_def)
next
  case True
  define cs where "cs = SetEventCallbacks (callbacks_set monitor)
    # map SetEventNotificationMode (events_enabled monitor)"
  have cs: "startup_calls monitor = AddCapabilities (caps monitor) # cs"
    "reg_event monitor ans a = checked_calls ans cs a" for ans a
    by (simp_all add: startup_calls_def reg_event_def cs_def)
  have all: "list_all (\<lambda>c. answer o1 c = 0) cs \<longleftrightarrow> dropWhile (\<lambda>c. answer o1 c = 0) cs = []"
    by (simp add: list_all_iff)
  show ?thesis using True
    by (cases "dropWhile (\<lambda>c. answer o1 c = 0) cs"; cases a)
      (simp_all add: Agent_OnLoad_def init_def trace_agent_new_def Let_def add_cap_def cs all
        checked_calls_spec called_until_def del: dropWhile_eq_Nil_conv)
qed

text \<open>
  C31. When the calls of the tool interface succeed, the dump lists every stack with its thread and
  every frame with its class and method, in order. The buffers of the frames are given back,
  but the array of the stacks and one name per thread are not.
\<close>

theorem java_stack_trace_lists_all:
  assumes "all_ok j"
  shows "java_stack_trace j True s =
    (None, s\<lparr>lines := lines s @ [BegGetAll, EndGetAll (int (length (snd (GetAllStackTraces j))))
                                              (fst (GetAllStackTraces j))]
                     @ listing j 0 (snd (GetAllStackTraces j)),
             held := held s + (if fst (GetAllStackTraces j) = 0 then 1 else 0)
                     + length (snd (GetAllStackTraces j))\<rparr>)"
  using print_stacks_ok [OF assms] by (simp add: java_stack_trace_def Let_def dump_defs split: prod.splits)

lemma java_stack_trace_lists_all_witness:
  "held (snd (java_stack_trace
      \<lparr>GetAllStackTraces = (0, [\<lparr>thread = 8, frame_buffer = Some [4]\<rparr>, \<lparr>thread = 16, frame_buffer = None\<rparr>]),
       GetThreadInfo = (\<lambda>t. ''main''), get_jtid = (\<lambda>t. 1), GetMethodDeclaringClass = (\<lambda>m. (0, m)),
       GetClassSignature = (\<lambda>c. (0, ''LA;'')), GetMethodName = (\<lambda>m. (0, ''run'')), Deallocate = (\<lambda>b. 0)\<rparr>
      True \<lparr>lines = [], held = 0\<rparr>)) = 3"
proof -
  let ?j = "\<lparr>GetAllStackTraces = (0, [\<lparr>thread = 8, frame_buffer = Some [4]\<rparr>, \<lparr>thread = 16, frame_buffer = None\<rparr>]),
       GetThreadInfo = (\<lambda>t. ''main''), get_jtid = (\<lambda>t. 1), GetMethodDeclaringClass = (\<lambda>m. (0, m)),
       GetClassSignature = (\<lambda>c. (0, ''LA;'')), GetMethodName = (\<lambda>m. (0, ''run'')), Deallocate = (\<lambda>b. 0)\<rparr> :: jvmti"
  have "all_ok ?j" by (simp add: all_ok_def)
  from java_stack_trace_lists_all [OF this, of "\<lparr>lines = [], held = 0\<rparr>"] show ?thesis by simp
qed

text \<open>
  C12. While the Java stacks are dumped, no parked thread is stuck: from every reachable state of
  that phase the notifier and the thread alone can take the steps by which it returns from
  \<open>pending\<close>.
\<close>

theorem safepoint_releases_parked:
  assumes "lrun sp_step sp_start es s" and "wpc s = WTrace" and "mpcs (mf s) t = MAsleep" and "2 \<le> t"
  shows "\<exists>es' s'. lrun sp_step s es' s' \<and> mpcs (mf s') t = MOutside
    \<and> set es' \<subseteq> {Retry, Notify (Some t), App (MReturn t)}"
proof -
  have ok: "sp_ok s" by (rule sp.run_invariant [OF assms(1)])
  then consider "npc s = NNotify" | "npc s = NPop" using assms(2) by (auto simp: sp_ok_def)
  then show ?thesis
  proof cases
    case 1
    from release_run [OF ok this assms(3,4)]
    obtain s' where "lrun sp_step s [Notify (Some t), App (MReturn t)] s'" "mpcs (mf s') t = MOutside"
      by blast
    then show ?thesis by (intro exI conjI) (assumption+, simp)
  next
    case 2
    have r: "sp_step s Retry (s\<lparr>npc := NNotify\<rparr>)" using 2 by (rule sp_step.sp_retry)
    obtain s' where "lrun sp_step (s\<lparr>npc := NNotify\<rparr>) [Notify (Some t), App (MReturn t)] s'"
        "mpcs (mf s') t = MOutside"
      using release_run [OF sp_ok_step [OF ok r], of t] assms(3,4) by auto
    with lrun_Cons [of sp_step, OF r] show ?thesis
      by (intro exI [of _ "[Retry, Notify (Some t), App (MReturn t)]"] exI [of _ s']) simp
  qed
qed

lemma safepoint_releases_parked_witness:
  "\<exists>es' s'. lrun sp_step (phase [] MAsleep WTrace NNotify [] 0) es' s' \<and> mpcs (mf s') 2 = MOutside"
proof -
  have run: "lrun sp_step sp_start [App (MPend 2 7), App (MSleep 2), Take] (phase [] MAsleep WTrace NNotify [] 0)"
    by (rule lrun_Cons [of sp_step, OF report_step lrun_Cons [of sp_step, OF sleep_step
          lrun_Cons [of sp_step, OF take_step]]]) (rule lrun.lrun_nil)
  from safepoint_releases_parked [OF run, of 2] show ?thesis by auto
qed

text \<open>
  C13. The safepoint worker serves one request: it dumps the stacks at most once, and when it has
  finished, a thread that is parked in \<open>pending\<close> then or later never returns except by a
  spurious wake-up.
\<close>

theorem safepoint_worker_single_shot:
  assumes "lrun sp_step sp_start es s" and "wpc s = WDone" and "parked s t"
    and "lrun sp_step s es' s'" and "App (MSpurious t) \<notin> set es'"
  shows "dumps s' \<le> 1 \<and> parked s' t \<and> App (MReturn t) \<notin> set es'"
proof -
  have "sp_ok s" by (rule sp.run_invariant [OF assms(1)])
  from parked_run [OF assms(4) this assms(2,3,5)]
  have "sp_ok s' \<and> wpc s' = WDone \<and> parked s' t \<and> App (MReturn t) \<notin> set es'" .
  then show ?thesis by (auto simp: sp_ok_def)
qed

lemma safepoint_worker_single_shot_witness:
  "lrun sp_step (phase [] MLocking WDone NDone [] 1) [App (MSleep 2)] (phase [] MAsleep WDone NDone [] 1)
   \<and> parked (phase [] MAsleep WDone NDone [] 1) 2"
proof -
  have run: "lrun sp_step sp_start (App (MPend 2 7) # Take # [Notify None, Traced, NPopped, Join])
      (phase [] MLocking WDone NDone [] 1)"
    by (rule lrun_Cons [of sp_step, OF report_step lrun_Cons [of sp_step, OF take_step]]) (rule finish_run)
  have run': "lrun sp_step (phase [] MLocking WDone NDone [] 1) [App (MSleep 2)]
      (phase [] MAsleep WDone NDone [] 1)"
    by (rule lrun_Cons [of sp_step, OF sleep_step]) (rule lrun.lrun_nil)
  have "parked (phase [] MLocking WDone NDone [] 1) 2" by (simp add: parked_def)
  from safepoint_worker_single_shot [OF run _ this run'] run' show ?thesis by simp
qed

end
