(* ===== verification/Ptrace_Elf.thy ===== *)
theory Ptrace_Elf
  imports Jvm_Base
begin

text \<open>
  \<^verbatim>\<open>src/src/tt.cpp\<close>: the tool that stops another process, finds a function in its memory and calls it.
  The program is for a 32-bit target: an \<open>unsigned long\<close> is a 32-bit word. The other process is
  its memory, where unmapped addresses hold nothing, and its registers. A read of unmapped
  memory gives the word -1, as \<open>ptrace\<close> does, and the callers do not look at \<open>errno\<close>.
  What never returns is \<open>None\<close>.
\<close>

section \<open>Memory and registers of the other process\<close>

type_synonym mem32 = "u32 \<Rightarrow> byte option"

record user_regs =
  eax :: u32
  ecx :: u32
  edx :: u32
  esp :: u32
  eip :: u32

record tracee =
  tmem :: mem32
  tregs :: user_regs

text \<open>\<open>PTRACE_PEEKTEXT\<close> and \<open>PTRACE_POKETEXT\<close> of one word, as its bytes.\<close>

definition word_addrs :: "u32 \<Rightarrow> u32 list" where
  "word_addrs a = [a, a + 1, a + 2, a + 3]"

definition peek :: "mem32 \<Rightarrow> u32 \<Rightarrow> byte list" where
  "peek m a =
     (if list_all (\<lambda>x. m x \<noteq> None) (word_addrs a) then List.map_filter m (word_addrs a)
      else [255, 255, 255, 255])"

definition poke :: "u32 \<Rightarrow> byte list \<Rightarrow> mem32 \<Rightarrow> mem32" where
  "poke a bs m =
     (if list_all (\<lambda>x. m x \<noteq> None) (word_addrs a)
      then m(a \<mapsto> bs ! 0, a + 1 \<mapsto> bs ! 1, a + 2 \<mapsto> bs ! 2, a + 3 \<mapsto> bs ! 3)
      else m)"

function ptrace_read_from :: "nat \<Rightarrow> mem32 \<Rightarrow> u32 \<Rightarrow> nat \<Rightarrow> byte list" where
  "ptrace_read_from count m addr len =
     (if count < len then peek m (addr + of_nat count) @ ptrace_read_from (count + 4) m addr len
      else [])"
  by pat_completeness auto
termination by (relation "measure (\<lambda>(count, m, addr, len). len - count)") auto

definition ptrace_read :: "mem32 \<Rightarrow> u32 \<Rightarrow> nat \<Rightarrow> byte list" where
  "ptrace_read m addr len = ptrace_read_from 0 m addr len"

text \<open>
  \<open>ptrace_write\<close> copies whole words: \<open>vptr\<close> are the bytes from the source's address on, also the
  up to three that lie behind the \<open>len\<close> bytes to be written.
\<close>

function ptrace_write_from :: "nat \<Rightarrow> u32 \<Rightarrow> byte list \<Rightarrow> nat \<Rightarrow> mem32 \<Rightarrow> mem32" where
  "ptrace_write_from count addr vptr len m =
     (if count < len
      then ptrace_write_from (count + 4) addr vptr len
             (poke (addr + of_nat count) (take 4 (drop count vptr)) m)
      else m)"
  by pat_completeness auto
termination by (relation "measure (\<lambda>(count, addr, vptr, len, m). len - count)") auto

definition ptrace_write :: "u32 \<Rightarrow> byte list \<Rightarrow> nat \<Rightarrow> mem32 \<Rightarrow> mem32" where
  "ptrace_write addr vptr len m = ptrace_write_from 0 addr vptr len m"

declare ptrace_read_from.simps [simp del] ptrace_write_from.simps [simp del]

text \<open>
  \<open>ptrace_readstr\<close>: the characters stored in the buffer of 64 bytes, and whether a terminating
  NUL was stored.
\<close>

fun take_chars :: "byte list \<Rightarrow> byte list \<Rightarrow> byte list \<times> bool" where
  "take_chars [] str = (str, False)"
| "take_chars (b # bs) str = (if b = 0 then (str, True) else take_chars bs (str @ [b]))"

lemma take_chars_len:
  "take_chars bs str = (str', False) \<Longrightarrow> length str' = length str + length bs"
  by (induction bs str rule: take_chars.induct) (auto split: if_splits)

lemma length_peek [simp]: "length (peek m a) = 4"
  by (auto simp: peek_def word_addrs_def List.map_filter_simps)

function readstr_loop :: "mem32 \<Rightarrow> u32 \<Rightarrow> nat \<Rightarrow> byte list \<Rightarrow> byte list \<times> bool" where
  "readstr_loop m addr count str =
     (if length str \<le> 60
      then (case take_chars (peek m (addr + of_nat count)) str of
              (str', ended) \<Rightarrow> if ended then (str', True) else readstr_loop m addr (count + 4) str')
      else (str, False))"
  by pat_completeness auto
termination
  by (relation "measure (\<lambda>(m, addr, count, str). 64 - length str)") (auto dest!: take_chars_len [OF sym])

declare readstr_loop.simps [simp del]

definition ptrace_readstr :: "mem32 \<Rightarrow> u32 \<Rightarrow> byte list \<times> bool" where
  "ptrace_readstr m addr = readstr_loop m addr 0 []"

section \<open>Calling a function in the other process\<close>

text \<open>\<open>vptr\<close> as for \<open>ptrace_write\<close>.\<close>

definition ptrace_push :: "byte list \<Rightarrow> nat \<Rightarrow> tracee \<Rightarrow> u32 \<times> tracee" where
  "ptrace_push vptr sz p =
     (let e1 = esp (tregs p) - of_nat sz; e2 = e1 - e1 mod 4 in
      (e2, p\<lparr>tregs := (tregs p)\<lparr>esp := e2\<rparr>, tmem := ptrace_write e2 vptr sz (tmem p)\<rparr>))"

text \<open>The macros of \<open>sys/wait.h\<close> on a status word.\<close>

definition WIFSTOPPED :: "u32 \<Rightarrow> bool" where
  "WIFSTOPPED stat \<longleftrightarrow> stat mod 256 = 127"

definition WIFSIGNALED :: "u32 \<Rightarrow> bool" where
  "WIFSIGNALED stat \<longleftrightarrow> 0 < stat mod 128 \<and> stat mod 128 < 127"

text \<open>
  The polling loops \<open>while(!W...(stat)) waitpid(pid, &stat, WNOHANG)\<close>: \<open>polls n\<close> is what the \<open>n\<close>th
  call stores in \<open>stat\<close>, if anything. The number of calls made, or \<open>None\<close> for ever.
\<close>

partial_function (option) poll_until :: "(u32 \<Rightarrow> bool) \<Rightarrow> (nat \<Rightarrow> u32 option) \<Rightarrow> nat \<Rightarrow> u32 \<Rightarrow> nat option" where
  "poll_until ended polls n stat =
     (if ended stat then Some n
      else poll_until ended polls (n + 1) (case polls n of None \<Rightarrow> stat | Some st \<Rightarrow> st))"

definition ptrace_cont :: "(nat \<Rightarrow> u32 option) \<Rightarrow> u32 \<Rightarrow> nat option" where
  "ptrace_cont polls stat0 = poll_until WIFSTOPPED polls 0 stat0"

text \<open>
  \<open>ptrace_call\<close>: pushes the return address, sets the instruction pointer, continues the process
  and polls; \<open>run\<close> is what the process does to itself meanwhile. The two uninitialised status
  variables are \<open>stat0\<close> and \<open>stat1\<close>.
\<close>

definition call_pc :: "byte list" where
  "call_pc = le_bytes 4 0x41414140"

definition call_setup :: "u32 \<Rightarrow> tracee \<Rightarrow> tracee" where
  "call_setup addr p =
     (let p1 = snd (ptrace_push call_pc 4 p) in p1\<lparr>tregs := (tregs p1)\<lparr>eip := addr\<rparr>\<rparr>)"

definition ptrace_call ::
    "(tracee \<Rightarrow> tracee) \<Rightarrow> (nat \<Rightarrow> u32 option) \<Rightarrow> u32 \<Rightarrow> u32 \<Rightarrow> u32 \<Rightarrow> tracee \<Rightarrow> tracee option" where
  "ptrace_call run polls stat0 stat1 addr p =
     (case ptrace_cont polls stat0 of
        None \<Rightarrow> None
      | Some n \<Rightarrow>
          (case poll_until WIFSIGNALED (\<lambda>k. polls (n + k)) 0 stat1 of
             None \<Rightarrow> None
           | Some k \<Rightarrow> Some (run (call_setup addr p))))"

text \<open>
  The two wrappers for registers: a request that fails is only reported, so the caller's copy or
  the process stays as it was.
\<close>

definition ptrace_readreg :: "int \<Rightarrow> tracee \<Rightarrow> user_regs \<Rightarrow> user_regs" where
  "ptrace_readreg ret p regs = (if ret \<noteq> 0 then regs else tregs p)"

definition ptrace_writereg :: "int \<Rightarrow> user_regs \<Rightarrow> tracee \<Rightarrow> tracee" where
  "ptrace_writereg ret regs p = (if ret \<noteq> 0 then p else p\<lparr>tregs := regs\<rparr>)"

text \<open>The start and the end of a session; \<open>None\<close> is \<open>exit(-1)\<close>. \<open>oldregs\<close> is a global.\<close>

definition ptrace_attach32 :: "int \<Rightarrow> int \<Rightarrow> tracee \<Rightarrow> user_regs \<Rightarrow> user_regs option" where
  "ptrace_attach32 ret ret_regs p oldregs =
     (if ret < 0 then None else Some (ptrace_readreg ret_regs p oldregs))"

definition ptrace_detach :: "int \<Rightarrow> int \<Rightarrow> user_regs \<Rightarrow> tracee \<Rightarrow> tracee option" where
  "ptrace_detach ret_regs ret oldregs p =
     (let p1 = ptrace_writereg ret_regs oldregs p in if ret < 0 then None else Some p1)"

text \<open>
  \<open>call_dl_open\<close> pushes the name of the library and passes its address in \<open>eax\<close>; \<open>behind\<close> are the
  bytes after the name. \<open>RTLD_LAZY\<close> is 1.
\<close>

definition call_dl_open ::
    "(tracee \<Rightarrow> tracee) \<Rightarrow> (nat \<Rightarrow> u32 option) \<Rightarrow> u32 \<Rightarrow> u32 \<Rightarrow> u32 \<Rightarrow> byte list \<Rightarrow> byte list \<Rightarrow> tracee \<Rightarrow> tracee option" where
  "call_dl_open run polls stat0 stat1 addr libname behind p =
     (case ptrace_push (libname @ 0 # behind) (length libname + 1) p of (pRLibName, p1) \<Rightarrow>
        ptrace_call run polls stat0 stat1 addr
          (p1\<lparr>tregs := (tregs p1)\<lparr>eax := pRLibName, ecx := 0, edx := 1\<rparr>\<rparr>))"

definition call_mtrace ::
    "(tracee \<Rightarrow> tracee) \<Rightarrow> (nat \<Rightarrow> u32 option) \<Rightarrow> u32 \<Rightarrow> u32 \<Rightarrow> u32 \<Rightarrow> tracee \<Rightarrow> tracee option" where
  "call_mtrace run polls stat0 stat1 addr p = ptrace_call run polls stat0 stat1 addr p"

section \<open>ELF data\<close>

definition u32_at :: "nat \<Rightarrow> byte list \<Rightarrow> u32" where
  "u32_at off bs = of_nat (le_nat (take 4 (drop off bs)))"

text \<open>The fields the program uses of \<open>Elf32_Dyn\<close>, \<open>Elf32_Sym\<close>, \<open>Elf32_Rel\<close> and \<open>struct link_map\<close>.\<close>

record elf32_dyn =
  d_tag :: u32
  d_un :: u32

record elf32_sym =
  st_name :: u32
  st_value :: u32
  st_size :: u32

record elf32_rel =
  r_offset :: u32
  r_info :: u32

record link_map =
  l_addr :: u32
  l_name :: u32
  l_ld :: u32
  l_next :: u32

definition read_dyn :: "mem32 \<Rightarrow> u32 \<Rightarrow> elf32_dyn" where
  "read_dyn m a = (let bs = ptrace_read m a 8 in \<lparr>d_tag = u32_at 0 bs, d_un = u32_at 4 bs\<rparr>)"

definition read_sym :: "mem32 \<Rightarrow> u32 \<Rightarrow> elf32_sym" where
  "read_sym m a =
     (let bs = ptrace_read m a 16 in \<lparr>st_name = u32_at 0 bs, st_value = u32_at 4 bs, st_size = u32_at 8 bs\<rparr>)"

definition read_rel :: "mem32 \<Rightarrow> u32 \<Rightarrow> elf32_rel" where
  "read_rel m a = (let bs = ptrace_read m a 8 in \<lparr>r_offset = u32_at 0 bs, r_info = u32_at 4 bs\<rparr>)"

definition read_link_map :: "mem32 \<Rightarrow> u32 \<Rightarrow> link_map" where
  "read_link_map m a =
     (let bs = ptrace_read m a 20 in
      \<lparr>l_addr = u32_at 0 bs, l_name = u32_at 4 bs, l_ld = u32_at 8 bs, l_next = u32_at 12 bs\<rparr>)"

section \<open>The list of libraries\<close>

definition IMAGE_ADDR :: u32 where
  "IMAGE_ADDR = 0x08048000"

text \<open>The two loops of \<open>get_linkmap\<close>, which end only when they find what they look for.\<close>

partial_function (option) find_dynamic :: "mem32 \<Rightarrow> u32 \<Rightarrow> u32 option" where
  "find_dynamic m phdr_addr =
     (let bs = ptrace_read m phdr_addr 32 in
      if u32_at 0 bs = 2 then Some (u32_at 8 bs) else find_dynamic m (phdr_addr + 32))"

partial_function (option) find_pltgot :: "mem32 \<Rightarrow> u32 \<Rightarrow> u32 \<Rightarrow> elf32_dyn \<Rightarrow> u32 option" where
  "find_pltgot m dyn_addr i dyn =
     (if d_tag dyn = 3 then Some (d_un dyn)
      else find_pltgot m dyn_addr (i + 1) (read_dyn m (dyn_addr + i * 8)))"

definition get_linkmap :: "mem32 \<Rightarrow> link_map option" where
  "get_linkmap m =
     (let phdr_addr = IMAGE_ADDR + u32_at 28 (ptrace_read m IMAGE_ADDR 52) in
      case find_dynamic m phdr_addr of
        None \<Rightarrow> None
      | Some dyn_addr \<Rightarrow>
          (case find_pltgot m dyn_addr 0 (read_dyn m dyn_addr) of
             None \<Rightarrow> None
           | Some plt \<Rightarrow> Some (read_link_map m (u32_at 0 (ptrace_read m (plt + 4) 4)))))"

section \<open>Symbols of one library\<close>

text \<open>The global variables; \<open>dyn_addr\<close> is never assigned, since \<open>get_linkmap\<close> has a local of that name.\<close>

record elf_globals =
  nchains :: int
  symtab :: u32
  strtab :: u32
  jmprel :: u32
  totalrelsize :: u32
  relsize :: u32
  nrels :: u32
  dyn_addr :: u32

definition globals_start :: elf_globals where
  "globals_start = \<lparr>nchains = 0, symtab = 0, strtab = 0, jmprel = 0, totalrelsize = 0, relsize = 0,
     nrels = 0, dyn_addr = 0\<rparr>"

datatype tt_error = DivisionByZero | ReadsPastBuffer

definition apply_dyn :: "mem32 \<Rightarrow> elf32_dyn \<Rightarrow> elf_globals \<Rightarrow> elf_globals" where
  "apply_dyn m d g =
     (if d_tag d = 6 then g\<lparr>symtab := d_un d\<rparr>
      else if d_tag d = 5 then g\<lparr>strtab := d_un d\<rparr>
      else if d_tag d = 4 then g\<lparr>nchains := sint (u32_at 0 (ptrace_read m (d_un d + 4) 4))\<rparr>
      else if d_tag d = 23 then g\<lparr>jmprel := d_un d\<rparr>
      else if d_tag d = 2 then g\<lparr>totalrelsize := d_un d\<rparr>
      else if d_tag d = 9 then g\<lparr>relsize := d_un d\<rparr>
      else if d_tag d = 19 then g\<lparr>relsize := d_un d\<rparr>
      else g)"

partial_function (option) sym_info_loop :: "mem32 \<Rightarrow> u32 \<Rightarrow> elf32_dyn \<Rightarrow> elf_globals \<Rightarrow> elf_globals option" where
  "sym_info_loop m a d g =
     (if d_tag d = 0 then Some g
      else sym_info_loop m (a + 8) (read_dyn m (a + 8)) (apply_dyn m d g))"

definition divide_rels :: "elf_globals \<Rightarrow> tt_error + elf_globals" where
  "divide_rels g =
     (if relsize g = 0 then Inl DivisionByZero else Inr (g\<lparr>nrels := totalrelsize g div relsize g\<rparr>))"

definition get_sym_info :: "mem32 \<Rightarrow> link_map \<Rightarrow> elf_globals \<Rightarrow> (tt_error + elf_globals) option" where
  "get_sym_info m lm g =
     (case sym_info_loop m (l_ld lm) (read_dyn m (l_ld lm)) g of
        None \<Rightarrow> None
      | Some g' \<Rightarrow> Some (divide_rels g'))"

text \<open>
  \<open>strcmp(str, sym_name) == 0\<close> on a buffer of \<open>ptrace_readstr\<close>; without a terminator the comparison
  leaves the buffer when all of it agrees with the name.
\<close>

definition name_matches :: "byte list \<times> bool \<Rightarrow> byte list \<Rightarrow> tt_error + bool" where
  "name_matches s name =
     (case s of (str, ended) \<Rightarrow>
        if ended then Inr (str = name)
        else if take (length str) name = str then Inl ReadsPastBuffer else Inr False)"

text \<open>The loop: the index and the symbol in the buffer when it ends.\<close>

function sym_loop :: "mem32 \<Rightarrow> elf_globals \<Rightarrow> byte list \<Rightarrow> nat \<Rightarrow> nat \<Rightarrow> elf32_sym \<Rightarrow> tt_error + nat \<times> elf32_sym" where
  "sym_loop m g name i n sym0 =
     (if i < n then
        (let sym1 = read_sym m (symtab g + of_nat i * 16) in
         if st_name sym1 = 0 \<or> st_size sym1 = 0 \<or> st_value sym1 = 0 then sym_loop m g name (i + 1) n sym1
         else case name_matches (ptrace_readstr m (strtab g + st_name sym1)) name of
           Inl e \<Rightarrow> Inl e
         | Inr eq \<Rightarrow> if eq then Inr (i, sym1) else sym_loop m g name (i + 1) n sym1)
      else Inr (i, sym0))"
  by pat_completeness auto
termination by (relation "measure (\<lambda>(m, g, name, i, n, sym0). n - i)") auto

declare sym_loop.simps [simp del]

text \<open>
  The address of the symbol, 0 if there is none, and the globals. \<open>sym0\<close> is the uninitialised
  buffer, which is used when \<open>nchains\<close> is negative.
\<close>

definition find_symbol_in_linkmap ::
    "elf32_sym \<Rightarrow> mem32 \<Rightarrow> byte list \<Rightarrow> link_map \<Rightarrow> elf_globals \<Rightarrow> (tt_error + u32 \<times> elf_globals) option" where
  "find_symbol_in_linkmap sym0 m name lm g =
     (case get_sym_info m lm g of
        None \<Rightarrow> None
      | Some (Inl e) \<Rightarrow> Some (Inl e)
      | Some (Inr g') \<Rightarrow>
          (case sym_loop m g' name 0 (nat (nchains g')) sym0 of
             Inl e \<Rightarrow> Some (Inl e)
           | Inr (i, sym1) \<Rightarrow>
               Some (Inr (if int i = nchains g' then 0 else l_addr lm + st_value sym1, g'))))"

section \<open>The search over all libraries\<close>

text \<open>
  The loop of \<open>find_symbol\<close> from the second library on: \<open>addr\<close> is the result so far. A library
  with an empty name is passed over.
\<close>

partial_function (option) search_loop ::
    "elf32_sym \<Rightarrow> mem32 \<Rightarrow> byte list \<Rightarrow> link_map \<Rightarrow> u32 \<Rightarrow> elf_globals \<Rightarrow> (tt_error + u32 \<times> elf_globals) option" where
  "search_loop sym0 m name lm addr g =
     (if addr = 0 \<and> l_next lm \<noteq> 0 then
        (let lm' = read_link_map m (l_next lm) in
         if fst (ptrace_readstr m (l_name lm')) = [] then search_loop sym0 m name lm' addr g
         else case find_symbol_in_linkmap sym0 m name lm' g of
           None \<Rightarrow> None
         | Some r \<Rightarrow> (case r of Inl e \<Rightarrow> Some (Inl e) | Inr ag \<Rightarrow> search_loop sym0 m name lm' (fst ag) (snd ag)))
      else Some (Inr (addr, g)))"

definition find_symbol ::
    "elf32_sym \<Rightarrow> mem32 \<Rightarrow> byte list \<Rightarrow> link_map \<Rightarrow> elf_globals \<Rightarrow> (tt_error + u32 \<times> elf_globals) option" where
  "find_symbol sym0 m name map0 g =
     (case find_symbol_in_linkmap sym0 m name map0 g of
        None \<Rightarrow> None
      | Some (Inl e) \<Rightarrow> Some (Inl e)
      | Some (Inr (addr, g1)) \<Rightarrow>
          if addr \<noteq> 0 then Some (Inr (addr, g1))
          else if l_next map0 = 0 then Some (Inr (0, g1))
          else
            (let lm = read_link_map m (l_next map0) in
             case find_symbol_in_linkmap sym0 m name lm g1 of
               None \<Rightarrow> None
             | Some (Inl e) \<Rightarrow> Some (Inl e)
             | Some (Inr (addr2, g2)) \<Rightarrow> search_loop sym0 m name lm addr2 g2))"

section \<open>Relocations\<close>

definition apply_dyn_rel :: "elf32_dyn \<Rightarrow> elf_globals \<Rightarrow> elf_globals" where
  "apply_dyn_rel d g =
     (if d_tag d = 6 then g\<lparr>symtab := d_un d\<rparr>
      else if d_tag d = 5 then g\<lparr>strtab := d_un d\<rparr>
      else if d_tag d = 23 then g\<lparr>jmprel := d_un d\<rparr>
      else if d_tag d = 2 then g\<lparr>totalrelsize := d_un d\<rparr>
      else if d_tag d = 9 then g\<lparr>relsize := d_un d\<rparr>
      else if d_tag d = 19 then g\<lparr>relsize := d_un d\<rparr>
      else g)"

partial_function (option) dyn_info_loop :: "mem32 \<Rightarrow> u32 \<Rightarrow> elf32_dyn \<Rightarrow> elf_globals \<Rightarrow> elf_globals option" where
  "dyn_info_loop m i d g =
     (if d_tag d = 0 then Some g
      else dyn_info_loop m (i + 1) (read_dyn m (dyn_addr g + i * 8)) (apply_dyn_rel d g))"

definition get_dyn_info :: "mem32 \<Rightarrow> elf_globals \<Rightarrow> (tt_error + elf_globals) option" where
  "get_dyn_info m g =
     (case dyn_info_loop m 1 (read_dyn m (dyn_addr g)) g of
        None \<Rightarrow> None
      | Some g' \<Rightarrow> Some (divide_rels g'))"

definition ELF32_R_SYM :: "u32 \<Rightarrow> u32" where
  "ELF32_R_SYM info = drop_bit 8 info"

function rel_loop :: "mem32 \<Rightarrow> elf_globals \<Rightarrow> byte list \<Rightarrow> nat \<Rightarrow> nat \<Rightarrow> tt_error + u32" where
  "rel_loop m g name i n =
     (if i < n then
        (let rel = read_rel m (jmprel g + of_nat i * 8) in
         if ELF32_R_SYM (r_info rel) = 0 then rel_loop m g name (i + 1) n
         else
           (let sym1 = read_sym m (symtab g + ELF32_R_SYM (r_info rel) * 16) in
            case name_matches (ptrace_readstr m (strtab g + st_name sym1)) name of
              Inl e \<Rightarrow> Inl e
            | Inr eq \<Rightarrow> if eq then Inr (r_offset rel) else rel_loop m g name (i + 1) n))
      else Inr 0)"
  by pat_completeness auto
termination by (relation "measure (\<lambda>(m, g, name, i, n). n - i)") auto

declare rel_loop.simps [simp del]

definition find_sym_in_rel :: "mem32 \<Rightarrow> byte list \<Rightarrow> elf_globals \<Rightarrow> (tt_error + u32) option" where
  "find_sym_in_rel m name g =
     (case get_dyn_info m g of
        None \<Rightarrow> None
      | Some (Inl e) \<Rightarrow> Some (Inl e)
      | Some (Inr g') \<Rightarrow> Some (rel_loop m g' name 0 (unat (nrels g'))))"

section \<open>The program\<close>

text \<open>
  \<open>main\<close> with the results of the requests that attach and detach; the exit code and the process.
  The address found is used without a look at it.
\<close>

definition tt_main ::
    "elf32_sym \<Rightarrow> (tracee \<Rightarrow> tracee) \<Rightarrow> (nat \<Rightarrow> u32 option) \<Rightarrow> u32 \<Rightarrow> u32 \<Rightarrow> int \<Rightarrow> int \<Rightarrow> user_regs \<Rightarrow> tracee
     \<Rightarrow> (tt_error + int \<times> tracee) option" where
  "tt_main sym0 run polls stat0 stat1 att det oldregs0 p =
     (case ptrace_attach32 att 0 p oldregs0 of
        None \<Rightarrow> Some (Inr (-1, p))
      | Some oldregs \<Rightarrow>
     (case get_linkmap (tmem p) of
        None \<Rightarrow> None
      | Some map0 \<Rightarrow>
          (case find_symbol sym0 (tmem p) (str_bytes ''mtrace'') map0 globals_start of
             None \<Rightarrow> None
           | Some (Inl e) \<Rightarrow> Some (Inl e)
           | Some (Inr (addr, g)) \<Rightarrow>
               (case call_mtrace run polls stat0 stat1 addr p of
                  None \<Rightarrow> None
                | Some p' \<Rightarrow>
                    (case ptrace_detach 0 det oldregs p' of
                       None \<Rightarrow> Some (Inr (-1, ptrace_writereg 0 oldregs p'))
                     | Some p'' \<Rightarrow> Some (Inr (0, p'')))))))"

text \<open>A session that ends normally gives the process its registers back.\<close>

lemma tt_main_restores_registers:
  "tt_main sym0 run polls stat0 stat1 att det r0 p = Some (Inr (0, p')) \<Longrightarrow> tregs p' = tregs p"
  by (auto simp: tt_main_def ptrace_attach32_def ptrace_detach_def ptrace_readreg_def ptrace_writereg_def Let_def
      split: option.splits sum.splits if_splits prod.splits)

section \<open>Lemmas on strings\<close>

text \<open>The bytes at an address.\<close>

definition holds :: "mem32 \<Rightarrow> u32 \<Rightarrow> byte list \<Rightarrow> bool" where
  "holds m a bs \<longleftrightarrow> (\<forall>i < length bs. m (a + of_nat i) = Some (bs ! i))"

lemma peek_holds:
  assumes "holds m a bs" and "count + 4 \<le> length bs"
  shows "peek m (a + of_nat count) = take 4 (drop count bs)"
proof -
  have h: "m (a + of_nat count + of_nat j) = Some (bs ! (count + j))" if "j < 4" for j
  proof -
    have "m (a + of_nat (count + j)) = Some (bs ! (count + j))"
      using assms that unfolding holds_def by (meson add_less_cancel_left less_le_trans)
    then show ?thesis by (simp add: add.assoc)
  qed
  have "take 4 (drop count bs) = [bs ! count, bs ! (count + 1), bs ! (count + 2), bs ! (count + 3)]"
    using assms(2) by (auto intro!: nth_equalityI simp: less_Suc_eq numeral_eq_Suc)
  then show ?thesis using h [of 0] h [of 1] h [of 2] h [of 3]
    by (simp add: peek_def word_addrs_def List.map_filter_simps)
qed

lemma take_chars_no_nul: "0 \<notin> set bs \<Longrightarrow> take_chars bs str = (str @ bs, False)"
  by (induction bs str rule: take_chars.induct) auto

lemma take_chars_nul: "0 \<notin> set xs \<Longrightarrow> take_chars (xs @ 0 # ys) str = (str @ xs, True)"
  by (induction xs arbitrary: str) auto

lemma readstr_loop_holds:
  assumes "holds m a (s @ 0 # pad)" and "3 \<le> length pad" and "0 \<notin> set s"
    and "4 * k \<le> length s" and "k \<le> 16"
  shows "readstr_loop m a (4 * k) (take (4 * k) s) =
    (if length s < 64 then (s, True) else (take 64 s, False))"
  using assms(4,5)
proof (induction "16 - k" arbitrary: k)
  case 0
  then have "k = 16" by simp
  then show ?case using 0 by (simp add: readstr_loop.simps [of m a])
next
  case (Suc d)
  then have k: "k < 16" by simp
  have p: "peek m (a + 4 * of_nat k) = take 4 (drop (4 * k) (s @ 0 # pad))"
    using peek_holds [OF assms(1), of "4 * k"] Suc.prems(1) assms(2) by simp
  show ?case
  proof (cases "4 * k + 4 \<le> length s")
    case True
    let ?ws = "take 4 (drop (4 * k) s)"
    have w: "peek m (a + 4 * of_nat k) = ?ws" using True p by simp
    have "0 \<notin> set ?ws" using assms(3) by (meson in_set_dropD in_set_takeD)
    then have t: "take_chars ?ws (take (4 * k) s) = (take (4 * Suc k) s, False)"
      by (simp add: take_chars_no_nul) (metis add.commute take_add)
    have "readstr_loop m a (4 * k) (take (4 * k) s) = readstr_loop m a (4 * Suc k) (take (4 * Suc k) s)"
      using k t Suc.prems by (subst readstr_loop.simps) (simp add: w add.commute)
    then show ?thesis using Suc.hyps(1) [of "Suc k"] Suc.hyps(2) k True by simp
  next
    case False
    let ?xs = "drop (4 * k) s"
    have w: "peek m (a + 4 * of_nat k) = ?xs @ 0 # take (3 - length ?xs) pad"
      unfolding p using False Suc.prems(1) by (simp add: take_Cons')
    have "0 \<notin> set ?xs" using assms(3) by (meson in_set_dropD)
    then have "take_chars (?xs @ 0 # take (3 - length ?xs) pad) (take (4 * k) s) = (s, True)"
      by (simp add: take_chars_nul)
    then show ?thesis using k False Suc.prems by (subst readstr_loop.simps) (simp add: w)
  qed
qed

section \<open>Lemmas on the stack\<close>

text \<open>The number of bytes in whole words, and the distance of an address from a base.\<close>

definition round_up :: "nat \<Rightarrow> nat" where
  "round_up n = 4 * ((n + 3) div 4)"

lemma round_up_props: "n \<le> round_up n" "round_up n < n + 4" "4 dvd round_up n"
  unfolding round_up_def by presburger+

lemma offset_eq:
  assumes "k < 2 ^ 32"
  shows "x = a + of_nat k \<longleftrightarrow> unat (x - a :: u32) = k"
proof
  assume "x = a + of_nat k"
  then show "unat (x - a) = k" using assms by (simp add: unat_of_nat take_bit_nat_eq_self)
next
  assume "unat (x - a) = k"
  then have "of_nat k = x - a" by auto
  then show "x = a + of_nat k" by simp
qed

lemma poke_at:
  assumes "\<forall>j < 4. m (a + of_nat (count + j)) \<noteq> None" and "count + 4 \<le> length vptr" and "count + 4 \<le> 2 ^ 32"
  shows "poke (a + of_nat count) (take 4 (drop count vptr)) m =
    (\<lambda>x. if count \<le> unat (x - a) \<and> unat (x - a) < count + 4 then Some (vptr ! unat (x - a)) else m x)"
proof
  fix x
  have mapped: "list_all (\<lambda>x. m x \<noteq> None) (word_addrs (a + of_nat count))"
    using assms(1)[rule_format, of 0] assms(1)[rule_format, of 1] assms(1)[rule_format, of 2]
      assms(1)[rule_format, of 3]
    by (simp add: word_addrs_def ac_simps)
  have x: "x = a + of_nat count + of_nat j \<longleftrightarrow> unat (x - a) = count + j" if "j < 4" for j
    using offset_eq [of "count + j" x a] assms(3) that by (simp add: add.assoc)
  have nth: "take 4 (drop count vptr) ! j = vptr ! (count + j)" if "j < 4" for j
    using assms(2) that by simp
  consider j where "j < 4" "unat (x - a) = count + j" | "\<not> (count \<le> unat (x - a) \<and> unat (x - a) < count + 4)"
    by (metis add_less_cancel_left le_add_diff_inverse)
  then show "poke (a + of_nat count) (take 4 (drop count vptr)) m x =
      (if count \<le> unat (x - a) \<and> unat (x - a) < count + 4 then Some (vptr ! unat (x - a)) else m x)"
  proof cases
    case 1
    then have "j = 0 \<or> j = 1 \<or> j = 2 \<or> j = 3" by auto
    then show ?thesis using 1 mapped x [of 0] x [of 1] x [of 2] x [of 3] nth [of 0] nth [of 1] nth [of 2] nth [of 3]
      by (auto simp: poke_def)
  next
    case 2
    then show ?thesis using mapped x [of 0] x [of 1] x [of 2] x [of 3] by (auto simp: poke_def)
  qed
qed

lemma ptrace_write_from_at:
  assumes "\<forall>k < round_up len. m (a + of_nat k) \<noteq> None" and "round_up len \<le> length vptr"
    and "round_up len \<le> 2 ^ 32" and "4 dvd count" and "count \<le> round_up len"
  shows "ptrace_write_from count a vptr len m =
    (\<lambda>x. if count \<le> unat (x - a) \<and> unat (x - a) < round_up len then Some (vptr ! unat (x - a)) else m x)"
  using assms(1,4,5)
proof (induction "round_up len - count" arbitrary: count m rule: less_induct)
  case less
  show ?case
  proof (cases "count < len")
    case False
    then have "count = round_up len"
      using less.prems(2,3) round_up_props [of len] by (auto simp: dvd_def)
    then show ?thesis using False by (subst ptrace_write_from.simps) (auto simp: fun_eq_iff)
  next
    case True
    then have c4: "count + 4 \<le> round_up len"
      using less.prems(2) round_up_props [of len] by presburger
    let ?m1 = "\<lambda>x. if count \<le> unat (x - a) \<and> unat (x - a) < count + 4 then Some (vptr ! unat (x - a)) else m x"
    have "poke (a + of_nat count) (take 4 (drop count vptr)) m = ?m1"
    proof (rule poke_at)
      show "\<forall>j < 4. m (a + of_nat (count + j)) \<noteq> None"
        using less.prems(1) c4 by (meson add_less_cancel_left less_le_trans)
    qed (use c4 assms(2,3) in auto)
    then have "ptrace_write_from count a vptr len m = ptrace_write_from (count + 4) a vptr len ?m1"
      using True by (subst ptrace_write_from.simps) simp
    also have "\<dots> = (\<lambda>x. if count + 4 \<le> unat (x - a) \<and> unat (x - a) < round_up len
        then Some (vptr ! unat (x - a)) else ?m1 x)"
      using less.prems(1,2) c4 by (intro less.hyps) auto
    finally show ?thesis using c4 by (auto simp: fun_eq_iff)
  qed
qed

lemma unat_mod4_add:
  assumes "4 dvd N"
  shows "unat ((w :: u32) + of_nat N) mod 4 = unat w mod 4"
proof -
  have "unat (w + of_nat N) = (unat w + N mod 2 ^ 32) mod 2 ^ 32"
    by (simp add: unat_word_ariths unat_of_nat take_bit_eq_mod)
  then have "unat (w + of_nat N) = (unat w + N) mod 2 ^ 32" by (simp add: mod_simps)
  moreover have "(unat w + N) mod 2 ^ 32 mod 4 = (unat w + N) mod 4" by (rule mod_mod_cancel) simp
  moreover have "(unat w + N) mod 4 = unat w mod 4" using assms by presburger
  ultimately show ?thesis by simp
qed

lemma push_address:
  assumes "(e :: u32) mod 4 = 0"
  shows "e - of_nat n - (e - of_nat n) mod 4 = e - of_nat (round_up n)"
proof -
  define r where "r = round_up n - n"
  define w where "w = e - of_nat (round_up n)"
  have r: "r < 4" "round_up n = n + r" using round_up_props [of n] by (simp_all add: r_def)
  then have e: "e - of_nat n = w + of_nat r" by (simp add: w_def)
  have "unat (e mod 4) = 0" using assms by simp
  then have "unat e mod 4 = 0" using unat_mod_distrib [of e 4] by simp
  then have w4: "unat w mod 4 = 0"
    using unat_mod4_add [OF round_up_props(3), of w n] by (simp add: w_def)
  moreover have "unat w < 2 ^ LENGTH(32)" by (rule unsigned_less)
  ultimately have "unat w + r < 2 ^ 32" using r(1) by simp presburger
  then have "unat (w + of_nat r) = unat w + r"
    using r(1) by (simp add: unat_word_ariths unat_of_nat take_bit_nat_eq_self)
  then have "unat ((w + of_nat r) mod 4) = r"
    using unat_mod_distrib [of "w + of_nat r" 4] w4 r(1) by simp presburger
  moreover have "of_nat (unat ((w + of_nat r) mod 4)) = (w + of_nat r) mod 4" by simp
  ultimately have "(w + of_nat r) mod 4 = of_nat r" by simp
  then show ?thesis by (simp add: e w_def)
qed

lemma push_stores:
  assumes "esp (tregs p) mod 4 = 0" and "round_up sz \<le> length vptr" and "round_up sz < 2 ^ 32"
    and "\<forall>k < round_up sz. tmem p (esp (tregs p) - of_nat (round_up sz) + of_nat k) \<noteq> None"
  shows "ptrace_push vptr sz p =
    (esp (tregs p) - of_nat (round_up sz),
     p\<lparr>tregs := (tregs p)\<lparr>esp := esp (tregs p) - of_nat (round_up sz)\<rparr>,
       tmem := (\<lambda>x. if unat (x - (esp (tregs p) - of_nat (round_up sz))) < round_up sz
                    then Some (vptr ! unat (x - (esp (tregs p) - of_nat (round_up sz))))
                    else tmem p x)\<rparr>)"
  unfolding ptrace_push_def Let_def push_address [OF assms(1)] ptrace_write_def
  using assms ptrace_write_from_at [of sz "tmem p" "esp (tregs p) - of_nat (round_up sz)" vptr 0]
  by simp

section \<open>Lemmas on polling and searching\<close>



lemma readstr_unended:
  "readstr_loop m a count str = (str', False) \<Longrightarrow> length str mod 4 = 0 \<Longrightarrow> length str \<le> 64 \<Longrightarrow> length str' = 64"
proof (induction m a count str rule: readstr_loop.induct)
  case (1 m addr count str)
  show ?case
  proof (cases "length str \<le> 60")
    case False
    then show ?thesis using 1(2-4) by (subst (asm) readstr_loop.simps) (simp, presburger)
  next
    case True
    obtain s1 e where t: "take_chars (peek m (addr + of_nat count)) str = (s1, e)" by fastforce
    then have "\<not> e" using 1(2) True by (subst (asm) readstr_loop.simps) (auto split: if_splits)
    then have "length s1 = length str + 4" using t take_chars_len by fastforce
    moreover have "readstr_loop m addr (count + 4) s1 = (str', False)"
      using 1(2) True t \<open>\<not> e\<close> by (subst (asm) readstr_loop.simps) simp
    ultimately show ?thesis using 1(1) [OF True t [symmetric]] \<open>\<not> e\<close> True 1(3) by simp
  qed
qed

lemma name_matches_short:
  assumes "length name < 64"
  shows "name_matches (ptrace_readstr m a) name = Inr (ptrace_readstr m a = (name, True))"
proof (cases "ptrace_readstr m a")
  case (Pair str ended)
  have "\<not> ended \<Longrightarrow> length str = 64"
    using readstr_unended [of m a 0 "[]" str] Pair by (simp add: ptrace_readstr_def)
  then have "\<not> ended \<Longrightarrow> take (length str) name \<noteq> str" using assms by auto
  then show ?thesis by (auto simp: name_matches_def Pair)
qed

lemma name_matches_same: "name_matches (name, True) name = Inr True"
  by (simp add: name_matches_def)

text \<open>The symbol \<open>i\<close> is defined and has the name.\<close>

definition sym_at :: "mem32 \<Rightarrow> elf_globals \<Rightarrow> nat \<Rightarrow> elf32_sym" where
  "sym_at m g i = read_sym m (symtab g + of_nat i * 16)"

definition defines_name :: "mem32 \<Rightarrow> elf_globals \<Rightarrow> byte list \<Rightarrow> nat \<Rightarrow> bool" where
  "defines_name m g name i \<longleftrightarrow>
     st_name (sym_at m g i) \<noteq> 0 \<and> st_size (sym_at m g i) \<noteq> 0 \<and> st_value (sym_at m g i) \<noteq> 0
     \<and> ptrace_readstr m (strtab g + st_name (sym_at m g i)) = (name, True)"

lemma sym_loop_finds:
  assumes "length name < 64" and "i \<le> n"
  shows "\<exists>sym1. sym_loop m g name i n sym0 =
    Inr (case find (defines_name m g name) [i..<n] of None \<Rightarrow> (n, sym1) | Some k \<Rightarrow> (k, sym_at m g k))"
  using assms(2)
proof (induction "n - i" arbitrary: i sym0)
  case 0
  then show ?case by (subst sym_loop.simps) simp
next
  case (Suc d)
  then have i: "i < n" by simp
  have step: "sym_loop m g name i n sym0 =
      (if defines_name m g name i then Inr (i, sym_at m g i) else sym_loop m g name (i + 1) n (sym_at m g i))"
    using i by (subst sym_loop.simps)
      (simp add: Let_def defines_name_def sym_at_def name_matches_short [OF assms(1)] name_matches_same)
  show ?case
  proof (cases "defines_name m g name i")
    case True
    then show ?thesis using step i by (simp add: upt_conv_Cons)
  next
    case False
    then show ?thesis using step i Suc.hyps(1) [of "i + 1" "sym_at m g i"] Suc.hyps(2)
      by (simp add: upt_conv_Cons)
  qed
qed

section \<open>Lists of libraries\<close>

text \<open>The link maps reached from an address, when the list ends.\<close>

fun chain :: "mem32 \<Rightarrow> u32 \<Rightarrow> link_map list \<Rightarrow> bool" where
  "chain m a [] \<longleftrightarrow> a = 0"
| "chain m a (lm # lms) \<longleftrightarrow> a \<noteq> 0 \<and> read_link_map m a = lm \<and> chain m (l_next lm) lms"

text \<open>The first library of a list that has the symbol, each read with the globals left by the last.\<close>

fun first_hit ::
    "elf32_sym \<Rightarrow> mem32 \<Rightarrow> byte list \<Rightarrow> link_map list \<Rightarrow> elf_globals \<Rightarrow> (tt_error + u32 \<times> elf_globals) option" where
  "first_hit sym0 m name [] g = Some (Inr (0, g))"
| "first_hit sym0 m name (lm # lms) g =
     (case find_symbol_in_linkmap sym0 m name lm g of
        None \<Rightarrow> None
      | Some (Inl e) \<Rightarrow> Some (Inl e)
      | Some (Inr (addr, g')) \<Rightarrow> if addr \<noteq> 0 then Some (Inr (addr, g')) else first_hit sym0 m name lms g')"

definition named :: "mem32 \<Rightarrow> link_map \<Rightarrow> bool" where
  "named m lm \<longleftrightarrow> fst (ptrace_readstr m (l_name lm)) \<noteq> []"

lemma search_loop_hit: "addr \<noteq> 0 \<Longrightarrow> search_loop sym0 m name lm addr g = Some (Inr (addr, g))"
  by (subst search_loop.simps) simp

lemma search_loop_chain:
  "chain m (l_next lm) lms \<Longrightarrow>
    search_loop sym0 m name lm 0 g = first_hit sym0 m name (filter (named m) lms) g"
proof (induction lms arbitrary: lm g)
  case Nil
  then show ?case by (subst search_loop.simps) simp
next
  case (Cons l lms)
  then have l: "l_next lm \<noteq> 0" "read_link_map m (l_next lm) = l" "chain m (l_next l) lms" by auto
  note IH = Cons.IH [OF l(3)]
  have n: "fst (ptrace_readstr m (l_name l)) = [] \<longleftrightarrow> \<not> named m l" by (simp add: named_def)
  show ?case
  proof (cases "named m l")
    case False
    then show ?thesis using l IH by (subst search_loop.simps) (simp add: n)
  next
    case True
    show ?thesis
    proof (cases "find_symbol_in_linkmap sym0 m name l g")
      case None
      then show ?thesis using True l by (subst search_loop.simps) (simp add: n)
    next
      case (Some r)
      then show ?thesis using True l IH search_loop_hit
        by (subst search_loop.simps) (auto simp: n split: sum.splits)
    qed
  qed
qed

text \<open>The dynamic section of a library ends.\<close>

definition dynamic_ends :: "mem32 \<Rightarrow> u32 \<Rightarrow> nat \<Rightarrow> bool" where
  "dynamic_ends m a n \<longleftrightarrow> d_tag (read_dyn m (a + of_nat (8 * n))) = 0"

lemma sym_info_loop_ends:
  "dynamic_ends m a n \<Longrightarrow> \<exists>g'. sym_info_loop m a (read_dyn m a) g = Some g'"
proof (induction n arbitrary: a g)
  case 0
  then show ?case by (subst sym_info_loop.simps) (simp add: dynamic_ends_def)
next
  case (Suc n)
  then have "dynamic_ends m (a + 8) n" by (simp add: dynamic_ends_def add.assoc)
  then show ?case using Suc.IH by (subst sym_info_loop.simps) auto
qed

lemma find_in_linkmap_returns:
  assumes "dynamic_ends m (l_ld lm) n"
  shows "find_symbol_in_linkmap sym0 m name lm g \<noteq> None"
proof -
  obtain g' where "sym_info_loop m (l_ld lm) (read_dyn m (l_ld lm)) g = Some g'"
    using sym_info_loop_ends [OF assms] by blast
  then show ?thesis
    by (auto simp: find_symbol_in_linkmap_def get_sym_info_def divide_rels_def split: sum.splits)
qed

lemma first_hit_returns:
  "\<forall>lm \<in> set lms. \<exists>n. dynamic_ends m (l_ld lm) n \<Longrightarrow> first_hit sym0 m name lms g \<noteq> None"
proof (induction lms arbitrary: g)
  case (Cons lm lms)
  then have "find_symbol_in_linkmap sym0 m name lm g \<noteq> None" using find_in_linkmap_returns by auto
  then show ?case using Cons by (auto split: sum.splits)
qed simp

section \<open>A small process for the examples\<close>

definition flat_process :: "u32 \<Rightarrow> tracee" where
  "flat_process sp = \<lparr>tmem = (\<lambda>_. Some 0), tregs = \<lparr>eax = 0, ecx = 0, edx = 0, esp = sp, eip = 0\<rparr>\<rparr>"

lemma flat_process_simps [simp]:
  "tmem (flat_process sp) = (\<lambda>_. Some 0)" "esp (tregs (flat_process sp)) = sp"
  by (simp_all add: flat_process_def)

text \<open>
  A dynamic section at 0x100 (\<open>DT_RELENT\<close> 8), one symbol at 0x200 with its name at 0x301, and a
  link map at 0x400.
\<close>

definition sample_mem :: mem32 where
  "sample_mem x = Some (if x = 0x100 then 19 else if x = 0x104 then 8 else if x = 0x200 then 1
     else if x = 0x204 then 0x40 else if x = 0x208 then 4 else if x = 0x301 then 109
     else if x = 0x409 then 1 else 0)"

abbreviation sample_map :: link_map where
  "sample_map \<equiv> \<lparr>l_addr = 0x1000, l_name = 0, l_ld = 0x100, l_next = 0x400\<rparr>"

abbreviation sample_sym :: elf32_sym where
  "sample_sym \<equiv> \<lparr>st_name = 0, st_value = 0, st_size = 0\<rparr>"

abbreviation sample_globals :: elf_globals where
  "sample_globals \<equiv> \<lparr>nchains = 1, symtab = 0x200, strtab = 0x300, jmprel = 0, totalrelsize = 0,
     relsize = 8, nrels = 0, dyn_addr = 0\<rparr>"

lemma sample_reads:
  "read_dyn sample_mem 0x100 = \<lparr>d_tag = 19, d_un = 8\<rparr>"
  "read_dyn sample_mem 0x108 = \<lparr>d_tag = 0, d_un = 0\<rparr>"
  "read_sym sample_mem 0x200 = \<lparr>st_name = 1, st_value = 0x40, st_size = 4\<rparr>"
  "ptrace_readstr sample_mem 0x301 = ([109], True)"
  "read_link_map sample_mem 0x400 = \<lparr>l_addr = 0, l_name = 0, l_ld = 0x100, l_next = 0\<rparr>"
  by code_simp+

lemma sample_sym_info: "get_sym_info sample_mem sample_map sample_globals = Some (Inr sample_globals)"
  by (simp add: get_sym_info_def sym_info_loop.simps [of _ "0x100"] sym_info_loop.simps [of _ "0x108"]
      sample_reads apply_dyn_def divide_rels_def)

section \<open>Passing a string\<close>

text \<open>A pushed string with its terminator is read back.\<close>

lemma push_readstr:
  assumes "esp (tregs p) mod 4 = 0" and "0 \<notin> set s" and "length s < 64" and "3 \<le> length behind"
    and "\<forall>k < round_up (length s + 1) + 4. tmem p (esp (tregs p) - of_nat (round_up (length s + 1)) + of_nat k) \<noteq> None"
    and "ptrace_push (s @ 0 # behind) (length s + 1) p = (a, p1)"
  shows "ptrace_readstr (tmem p1) a = (s, True) \<and> a = esp (tregs p1)"
proof -
  let ?n = "length s + 1" and ?v = "s @ 0 # behind"
  let ?R = "round_up ?n"
  note R = round_up_props [of ?n]
  have "?R \<le> length ?v" "?R < 2 ^ 32" using R(2) assms(3,4) by simp_all
  from push_stores [OF assms(1) this] assms(5,6)
  have a: "a = esp (tregs p) - of_nat ?R" "esp (tregs p1) = a"
    and m: "tmem p1 x = (if unat (x - a) < ?R then Some (?v ! unat (x - a)) else tmem p x)" for x
    by auto
  have off: "unat (of_nat k :: u32) = k" if "k < ?R + 4" for k
    using that R(2) assms(3) by (simp add: unat_of_nat take_bit_eq_mod)
  have mapped: "tmem p1 (a + of_nat k) \<noteq> None" if "k < ?R + 4" for k
    using assms(5) that a(1) m by auto
  let ?pad = "map (\<lambda>k. the (tmem p1 (a + of_nat (?n + k)))) [0, 1, 2]"
  have "holds (tmem p1) a (s @ 0 # ?pad)"
    unfolding holds_def
  proof (intro allI impI)
    fix i assume i: "i < length (s @ 0 # ?pad)"
    show "tmem p1 (a + of_nat i) = Some ((s @ 0 # ?pad) ! i)"
    proof (cases "i < ?n")
      case True
      then have "i < ?R" "unat (of_nat i :: u32) = i" using R(1) off [of i] by simp_all
      with True show ?thesis by (auto simp: m nth_append less_Suc_eq)
    next
      case False
      then have k: "i - ?n < 3" using i by simp
      have "i < ?R + 4" using i R(1) by simp
      moreover have "(s @ 0 # ?pad) ! i = ?pad ! (i - ?n)" using False by (simp add: nth_append)
      moreover have "?pad ! (i - ?n) = the (tmem p1 (a + of_nat (?n + (i - ?n))))"
        using k by (auto simp: less_Suc_eq numeral_eq_Suc)
      ultimately show ?thesis using mapped [of i] False by simp
    qed
  qed
  then have "readstr_loop (tmem p1) a (4 * 0) (take (4 * 0) s) = (s, True)"
    using readstr_loop_holds [of "tmem p1" a s ?pad 0] assms(2,3) by simp
  then show ?thesis using a(2) by (simp add: ptrace_readstr_def)
qed

section \<open>Properties\<close>

text \<open>
  \<open>ptrace_readstr\<close> returns the string at the address if it is shorter than its buffer; from 64
  characters on, it fills the buffer and stores no terminator.
\<close>

theorem ptrace_readstr_exact:
  assumes "holds m a (s @ 0 # pad)" and "3 \<le> length pad" and "0 \<notin> set s"
  shows "ptrace_readstr m a = (if length s < 64 then (s, True) else (take 64 s, False))"
  using readstr_loop_holds [OF assms, of 0] by (simp add: ptrace_readstr_def)

lemma ptrace_readstr_exact_witness:
  "ptrace_readstr (\<lambda>x. if x = 100 then Some 109 else Some 0) 100 = ([109], True)"
proof -
  have "holds (\<lambda>x. if x = 100 then Some 109 else Some 0) 100 ([109] @ 0 # [0, 0, 0])"
    unfolding holds_def
  proof (intro allI impI)
    fix i :: nat
    assume "i < length ([109] @ 0 # [0, 0, 0 :: byte])"
    then have "i = 0 \<or> i = 1 \<or> i = 2 \<or> i = 3 \<or> i = 4" by auto
    then show "(if (100 :: u32) + of_nat i = 100 then Some 109 else Some 0) = Some (([109] @ 0 # [0, 0, 0]) ! i)"
      by (elim disjE) simp_all
  qed
  from ptrace_readstr_exact [OF this] show ?thesis by simp
qed

text \<open>
  On an aligned stack \<open>ptrace_push\<close> makes room in whole words below the stack pointer, stores
  the bytes there, and changes nothing else of the memory.
\<close>

theorem ptrace_push_stores:
  assumes "esp (tregs p) mod 4 = 0" and "round_up sz \<le> length vptr" and "round_up sz < 2 ^ 32"
    and "\<forall>k < round_up sz. tmem p (esp (tregs p) - of_nat (round_up sz) + of_nat k) \<noteq> None"
  shows "ptrace_push vptr sz p =
    (esp (tregs p) - of_nat (round_up sz),
     p\<lparr>tregs := (tregs p)\<lparr>esp := esp (tregs p) - of_nat (round_up sz)\<rparr>,
       tmem := (\<lambda>x. if unat (x - (esp (tregs p) - of_nat (round_up sz))) < round_up sz
                    then Some (vptr ! unat (x - (esp (tregs p) - of_nat (round_up sz))))
                    else tmem p x)\<rparr>)"
  by (rule push_stores [OF assms])

lemma ptrace_push_stores_witness:
  "fst (ptrace_push [1, 2, 3, 4] 4 (flat_process 1000)) = 996
   \<and> tmem (snd (ptrace_push [1, 2, 3, 4] 4 (flat_process 1000))) 997 = Some 2"
  using ptrace_push_stores [of "flat_process 1000" 4 "[1, 2, 3, 4]"] by (simp add: round_up_def)

text \<open>
  C38. The name that \<open>call_dl_open\<close> passes arrives: on an aligned stack with room for it, a name of
  fewer than 64 characters that is pushed with its terminator is what \<open>ptrace_readstr\<close> then reads at
  the address pushed, and the argument registers hold that address and the mode. The state in
  which the call is made does not depend on what the process does in it or on the polls.
\<close>

theorem call_dl_open_passes_name:
  assumes "esp (tregs p) mod 4 = 0" and "0 \<notin> set libname" and "length libname < 64" and "3 \<le> length behind"
    and "\<forall>k < round_up (length libname + 1) + 4.
      tmem p (esp (tregs p) - of_nat (round_up (length libname + 1)) + of_nat k) \<noteq> None"
  shows "\<exists>q. (\<forall>run polls stat0 stat1 addr.
        call_dl_open run polls stat0 stat1 addr libname behind p = ptrace_call run polls stat0 stat1 addr q)
    \<and> ptrace_readstr (tmem q) (eax (tregs q)) = (libname, True)
    \<and> eax (tregs q) = esp (tregs q) \<and> ecx (tregs q) = 0 \<and> edx (tregs q) = 1"
proof -
  obtain a p1 where push: "ptrace_push (libname @ 0 # behind) (length libname + 1) p = (a, p1)" by fastforce
  let ?q = "p1\<lparr>tregs := (tregs p1)\<lparr>eax := a, ecx := 0, edx := 1\<rparr>\<rparr>"
  have "ptrace_readstr (tmem p1) a = (libname, True) \<and> a = esp (tregs p1)"
    by (rule push_readstr [OF assms(1-5) push])
  moreover have "call_dl_open run polls stat0 stat1 addr libname behind p = ptrace_call run polls stat0 stat1 addr ?q"
    for run polls stat0 stat1 addr using push by (simp add: call_dl_open_def)
  ultimately show ?thesis by (intro exI [of _ ?q]) auto
qed

text \<open>An instance in which the call comes back, the process having been stopped and then killed.\<close>

lemma call_dl_open_passes_name_witness:
  "\<exists>q. call_dl_open (\<lambda>p. p) (\<lambda>_. Some 9) 0x57F 0 0x1000 (str_bytes ''a.so'') [0, 0, 0] (flat_process 1000)
       = Some (call_setup 0x1000 q)
    \<and> ptrace_readstr (tmem q) (eax (tregs q)) = (str_bytes ''a.so'', True)"
proof -
  have "ptrace_call (\<lambda>p. p) (\<lambda>_. Some 9) 0x57F 0 0x1000 q = Some (call_setup 0x1000 q)" for q
    by (simp add: ptrace_call_def ptrace_cont_def poll_until.simps [of _ _ 0] poll_until.simps [of _ _ "Suc 0"]
        WIFSTOPPED_def WIFSIGNALED_def)
  then show ?thesis
    using call_dl_open_passes_name [of "flat_process 1000" "str_bytes ''a.so''" "[0, 0, 0]"]
    by (auto simp: str_bytes_def)
qed



text \<open>
  C29. For a name that fits the buffer, the search in one library is exact: it gives the address of
  the first symbol of the table that is defined and has the name, and 0 if there is none.
\<close>

theorem find_symbol_in_linkmap_exact:
  assumes "get_sym_info m lm g = Some (Inr g')" and "0 \<le> nchains g'" and "length name < 64"
  shows "find_symbol_in_linkmap sym0 m name lm g =
    Some (Inr (case find (defines_name m g' name) [0..<nat (nchains g')] of
                 None \<Rightarrow> 0
               | Some i \<Rightarrow> l_addr lm + st_value (sym_at m g' i), g'))"
proof -
  obtain sym1 where s: "sym_loop m g' name 0 (nat (nchains g')) sym0 =
      Inr (case find (defines_name m g' name) [0..<nat (nchains g')] of
             None \<Rightarrow> (nat (nchains g'), sym1) | Some k \<Rightarrow> (k, sym_at m g' k))"
    using sym_loop_finds [OF assms(3), of 0 "nat (nchains g')" m g' sym0] by auto
  show ?thesis
  proof (cases "find (defines_name m g' name) [0..<nat (nchains g')]")
    case None
    then show ?thesis using assms(1,2) s by (simp add: find_symbol_in_linkmap_def)
  next
    case (Some k)
    then have "int k \<noteq> nchains g'" by (auto simp: find_Some_iff)
    then show ?thesis using assms(1) s Some by (simp add: find_symbol_in_linkmap_def)
  qed
qed

lemma find_symbol_in_linkmap_exact_witness:
  "find_symbol_in_linkmap sample_sym sample_mem [109] sample_map sample_globals
   = Some (Inr (0x1040, sample_globals))"
proof -
  have "find (defines_name sample_mem sample_globals [109]) [0..<nat (nchains sample_globals)] = Some 0"
    by (simp add: defines_name_def sym_at_def sample_reads)
  then show ?thesis
    using find_symbol_in_linkmap_exact [OF sample_sym_info, of "[109]" sample_sym]
    by (simp add: sym_at_def sample_reads)
qed

text \<open>
  C28. The search over the libraries ends on every list that ends and whose dynamic sections end.
  It asks the executable and the first library, and of the others those with a name, in the
  order of the list, and stops at the first that has the symbol.
\<close>

theorem find_symbol_order:
  assumes "chain m (l_next map0) lms" and "\<forall>lm \<in> set (map0 # lms). \<exists>n. dynamic_ends m (l_ld lm) n"
  shows "find_symbol sym0 m name map0 g =
      first_hit sym0 m name (map0 # take 1 lms @ filter (named m) (drop 1 lms)) g
    \<and> (\<exists>r. find_symbol sym0 m name map0 g = Some r)"
proof -
  have eq: "find_symbol sym0 m name map0 g =
      first_hit sym0 m name (map0 # take 1 lms @ filter (named m) (drop 1 lms)) g"
  proof (cases lms)
    case Nil
    then show ?thesis using assms(1) by (auto simp: find_symbol_def split: option.splits sum.splits)
  next
    case (Cons l ls)
    then have l: "l_next map0 \<noteq> 0" "read_link_map m (l_next map0) = l" "chain m (l_next l) ls"
      using assms(1) by auto
    have tail: "search_loop sym0 m name l addr g2 = (if addr \<noteq> 0 then Some (Inr (addr, g2))
        else first_hit sym0 m name (filter (named m) ls) g2)" for addr g2
      using search_loop_chain [OF l(3)] search_loop_hit by simp
    show ?thesis
      unfolding find_symbol_def Let_def l(2) Cons tail
      by (simp add: l(1) split: option.split sum.split prod.split)
  qed
  have "set (map0 # take 1 lms @ filter (named m) (drop 1 lms)) \<subseteq> set (map0 # lms)"
    by (auto dest: in_set_takeD in_set_dropD)
  then have "first_hit sym0 m name (map0 # take 1 lms @ filter (named m) (drop 1 lms)) g \<noteq> None"
    using assms(2) by (intro first_hit_returns) blast
  then show ?thesis using eq by auto
qed

lemma find_symbol_order_witness:
  "\<exists>r. find_symbol sample_sym sample_mem [120] sample_map sample_globals = Some r"
proof -
  have 1: "chain sample_mem (l_next sample_map) [\<lparr>l_addr = 0, l_name = 0, l_ld = 0x100, l_next = 0\<rparr>]"
    by (simp add: sample_reads)
  have "dynamic_ends sample_mem 0x100 1" by (simp add: dynamic_ends_def sample_reads)
  then have 2: "\<forall>lm \<in> set [sample_map, \<lparr>l_addr = 0, l_name = 0, l_ld = 0x100, l_next = 0\<rparr>].
      \<exists>n. dynamic_ends sample_mem (l_ld lm) n" by auto
  show ?thesis using find_symbol_order [OF 1 2] by blast
qed

end
