(* ===== verification/Gc_Agent.thy ===== *)
theory Gc_Agent
  imports Agent_Base Sysutil
begin

text \<open>
  \<^verbatim>\<open>src/agent.cpp\<close>: the stand-alone agent that prints the time of every start and end of a garbage
  collection. Its printing of time stamps, and its start-up with every exit. What the machine
  answers (\<open>GetEnv\<close>, the two \<open>calloc\<close> calls, the tool interface, the local time) is a parameter;
  blocks of the heap are the addresses \<open>calloc\<close> gave.
\<close>

section \<open>Time stamps\<close>

text \<open>The fields of \<open>struct tm\<close> that the format reads.\<close>

record tm =
  tm_sec :: nat
  tm_min :: nat
  tm_hour :: nat
  tm_mday :: nat
  tm_mon :: nat
  tm_year :: int
  tm_wday :: nat

text \<open>
  The locale's abbreviated names of the days and months (\<open>LC_TIME\<close>): whatever the process has set,
  so a parameter.
\<close>

record lc_time =
  day_abbr :: "nat \<Rightarrow> string"
  mon_abbr :: "nat \<Rightarrow> string"

text \<open>A number with leading zeros up to a width, as \<open>%02d\<close> and \<open>%06d\<close> print it.\<close>

definition pad0 :: "nat \<Rightarrow> nat \<Rightarrow> string" where
  "pad0 w n = replicate (w - length (decimal n)) CHR ''0'' @ decimal n"

definition show_year :: "int \<Rightarrow> string" where
  "show_year y = (if y < 0 then CHR ''-'' # decimal (nat (- y)) else decimal (nat y))"

text \<open>\<open>strftime\<close> with \<open>%a %b %d %Y %H:%M:%S\<close>, before the limit of the buffer.\<close>

definition formatted :: "lc_time \<Rightarrow> tm \<Rightarrow> string" where
  "formatted lc t = day_abbr lc (tm_wday t) @ '' '' @ mon_abbr lc (tm_mon t) @ '' '' @ pad0 2 (tm_mday t)
     @ '' '' @ show_year (tm_year t + 1900) @ '' '' @ pad0 2 (tm_hour t) @ '':'' @ pad0 2 (tm_min t)
     @ '':'' @ pad0 2 (tm_sec t)"

text \<open>
  The text with its terminator must fit; otherwise the contents of the buffer are unspecified.
\<close>

definition strftime :: "lc_time \<Rightarrow> nat \<Rightarrow> tm \<Rightarrow> string option" where
  "strftime lc maxsize t = (if length (formatted lc t) < maxsize then Some (formatted lc t) else None)"

datatype gc_line =
    GcTime string
  | VersionNotSupported
  | UnableToAllocate
  | NoCapabilities int
  | ErrorSettingCallbacks int
  | NoEvent vm_event int

text \<open>What was written to the error stream, the calls made, and the blocks held.\<close>

record gc_state =
  printed :: "gc_line list"
  vm_calls :: "vm_call list"
  blocks :: "ptr list"

definition print_err :: "gc_line \<Rightarrow> gc_state \<Rightarrow> gc_state" where
  "print_err l s = s\<lparr>printed := printed s @ [l]\<rparr>"

text \<open>\<open>calloc\<close> answers \<open>p\<close>; a null pointer is no block.\<close>

definition calloc :: "ptr \<Rightarrow> gc_state \<Rightarrow> gc_state" where
  "calloc p s = (if p = NULL then s else s\<lparr>blocks := p # blocks s\<rparr>)"

definition free :: "ptr \<Rightarrow> gc_state \<Rightarrow> gc_state" where
  "free p s = s\<lparr>blocks := remove1 p (blocks s)\<rparr>"

text \<open>
  \<open>tv\<close> is the time of \<open>gettimeofday\<close> and \<open>p\<close> the answer of \<open>calloc\<close>; \<open>strftime\<close> writes to the
  block without a check, so without one the result is \<open>None\<close>.
\<close>

definition printGCTime ::
    "lc_time \<Rightarrow> (int \<Rightarrow> tm) \<Rightarrow> int \<times> nat \<Rightarrow> ptr \<Rightarrow> string \<Rightarrow> gc_state \<Rightarrow> gc_state option" where
  "printGCTime lc localtime tv p type s =
     (let localTime = localtime (fst tv); s1 = calloc p s in
      if p = NULL then None
      else case strftime lc 128 localTime of
        None \<Rightarrow> None
      | Some startTime \<Rightarrow>
          Some (free p (print_err
            (GcTime (''GC '' @ type @ '': '' @ startTime @ ''.'' @ pad0 6 (snd tv) @ [CHR 0x0A])) s1)))"

definition garbageCollectionStart ::
    "lc_time \<Rightarrow> (int \<Rightarrow> tm) \<Rightarrow> int \<times> nat \<Rightarrow> ptr \<Rightarrow> gc_state \<Rightarrow> gc_state option" where
  "garbageCollectionStart lc localtime tv p s = printGCTime lc localtime tv p ''Start '' s"

definition garbageCollectionFinish ::
    "lc_time \<Rightarrow> (int \<Rightarrow> tm) \<Rightarrow> int \<times> nat \<Rightarrow> ptr \<Rightarrow> gc_state \<Rightarrow> gc_state option" where
  "garbageCollectionFinish lc localtime tv p s = printGCTime lc localtime tv p ''Finish'' s"

section \<open>Start-up\<close>

text \<open>How \<open>Agent_OnLoad\<close> ends: it returns a code, or the process exits.\<close>

datatype onload_end = Returned int | Exited int

text \<open>The answers: \<open>GetEnv\<close>, the two calls of \<open>calloc\<close>, and the tool interface.\<close>

record gc_env =
  env_ret :: int
  caps_block :: ptr
  callbacks_block :: ptr
  vm_answer :: "vm_call \<Rightarrow> int"

abbreviation JVMTI_ERROR_UNSUPPORTED_VERSION :: int where
  "JVMTI_ERROR_UNSUPPORTED_VERSION \<equiv> 68"

abbreviation JVMTI_ERROR_OUT_OF_MEMORY :: int where
  "JVMTI_ERROR_OUT_OF_MEMORY \<equiv> 110"

definition do_call :: "vm_call \<Rightarrow> gc_state \<Rightarrow> gc_state" where
  "do_call c s = s\<lparr>vm_calls := vm_calls s @ [c]\<rparr>"

text \<open>The three checked calls of the second half, each with its message; then the clean-up.\<close>

definition gc_set_callbacks :: vm_call where
  "gc_set_callbacks = SetEventCallbacks [GARBAGE_COLLECTION_START, GARBAGE_COLLECTION_FINISH]"

definition gc_register :: "gc_env \<Rightarrow> gc_state \<Rightarrow> onload_end \<times> gc_state" where
  "gc_register env s =
     (let s1 = do_call gc_set_callbacks s; returnCode = vm_answer env gc_set_callbacks in
      if returnCode \<noteq> 0 then (Exited (-1), print_err (ErrorSettingCallbacks returnCode) s1)
      else
        (let s2 = do_call (SetEventNotificationMode GARBAGE_COLLECTION_START) s1;
             returnCode = vm_answer env (SetEventNotificationMode GARBAGE_COLLECTION_START) in
         if returnCode \<noteq> 0 then (Exited (-1), print_err (NoEvent GARBAGE_COLLECTION_START returnCode) s2)
         else
           (let s3 = do_call (SetEventNotificationMode GARBAGE_COLLECTION_FINISH) s2;
                returnCode = vm_answer env (SetEventNotificationMode GARBAGE_COLLECTION_FINISH) in
            if returnCode \<noteq> 0
            then (Exited (-1), print_err (NoEvent GARBAGE_COLLECTION_FINISH returnCode) s3)
            else (Returned 0, free (callbacks_block env) (free (caps_block env) s3)))))"

text \<open>
  The code after the first \<open>calloc\<close> tests \<open>returnCode\<close> again, which is still that of \<open>GetEnv\<close>;
  the answer of \<open>AddCapabilities\<close> is stored and overwritten.
\<close>

definition Agent_OnLoad_gc :: "gc_env \<Rightarrow> gc_state \<Rightarrow> onload_end \<times> gc_state" where
  "Agent_OnLoad_gc env s =
     (let returnCode = env_ret env in
      if returnCode \<noteq> 0
      then (Returned JVMTI_ERROR_UNSUPPORTED_VERSION, print_err VersionNotSupported s)
      else if caps_block env = NULL
      then (Returned JVMTI_ERROR_OUT_OF_MEMORY, print_err UnableToAllocate s)
      else
        (let s1 = calloc (caps_block env) s in
         if returnCode \<noteq> 0 then (Exited (-1), print_err (NoCapabilities returnCode) s1)
         else
           (let s2 = do_call (AddCapabilities [generate_garbage_collection_events]) s1 in
            if callbacks_block env = NULL
            then (Returned JVMTI_ERROR_OUT_OF_MEMORY, print_err UnableToAllocate s2)
            else gc_register env (calloc (callbacks_block env) s2))))"

section \<open>Lemmas\<close>

lemma length_decimal: "n < 10 ^ Suc k \<Longrightarrow> length (decimal n) \<le> Suc k"
proof (induction k arbitrary: n)
  case 0
  then show ?case by (simp add: decimal.simps [of n])
next
  case (Suc k)
  then have "n div 10 < 10 ^ Suc k" by (simp add: less_mult_imp_div_less)
  from Suc.IH [OF this] show ?case by (simp add: decimal.simps [of n])
qed

lemma digits_val_zeros: "digits_val 0 (replicate k CHR ''0'' @ ds) = digits_val 0 ds"
  by (induction k) (simp_all add: digit_val_def)

text \<open>A number below the bound of the width is printed in exactly that width and can be read back.\<close>

lemma pad0_exact:
  assumes "n < 10 ^ w" and "0 < w"
  shows "length (pad0 w n) = w" and "digits_val 0 (pad0 w n) = n"
proof -
  obtain k where "w = Suc k" using assms(2) by (cases w) auto
  with assms(1) have "length (decimal n) \<le> w" using length_decimal [of n k] by simp
  then show "length (pad0 w n) = w" by (simp add: pad0_def)
  show "digits_val 0 (pad0 w n) = n"
    using decimal_digits [of n] by (simp add: pad0_def digits_val_zeros)
qed

text \<open>The ranges that \<open>localtime_r\<close> promises, and a year that is printed with four digits.\<close>

definition tm_ok :: "tm \<Rightarrow> bool" where
  "tm_ok t \<longleftrightarrow> tm_sec t \<le> 60 \<and> tm_min t < 60 \<and> tm_hour t < 24 \<and> 1 \<le> tm_mday t \<and> tm_mday t \<le> 31
     \<and> tm_mon t < 12 \<and> tm_wday t < 7 \<and> -900 \<le> tm_year t \<and> tm_year t < 8100"

lemma length_show_year:
  assumes "1000 \<le> y" and "y < 10000"
  shows "length (show_year y) = 4"
proof -
  let ?n = "nat y"
  have n: "1000 \<le> ?n" "?n < 10000" using assms by auto
  then have "\<not> ?n div 10 < 10" "\<not> ?n div 10 div 10 < 10" "?n div 10 div 10 div 10 < 10" by auto
  then show ?thesis using n assms
    by (simp add: show_year_def decimal.simps [of ?n] decimal.simps [of "?n div 10"]
        decimal.simps [of "?n div 10 div 10"] decimal.simps [of "?n div 10 div 10 div 10"])
qed

lemma year_digits:
  assumes "1000 \<le> y" and "y < 10000"
  shows "digits_val 0 (show_year y) = nat y"
  using assms decimal_digits [of "nat y"] by (simp add: show_year_def)

text \<open>The part of a line after the names of the day and the month, and its fields.\<close>

definition numbers :: "tm \<Rightarrow> nat \<Rightarrow> string" where
  "numbers t usec = pad0 2 (tm_mday t) @ '' '' @ show_year (tm_year t + 1900) @ '' '' @ pad0 2 (tm_hour t)
     @ '':'' @ pad0 2 (tm_min t) @ '':'' @ pad0 2 (tm_sec t) @ ''.'' @ pad0 6 usec @ [CHR 0x0A]"

lemma numbers_fields:
  assumes "tm_ok t" and "usec < 10 ^ 6"
  shows "length (numbers t usec) = 24"
    and "map (\<lambda>c. digits_val 0 (take 2 (drop c (numbers t usec)))) [0, 8, 11, 14]
      = map (\<lambda>f. f t) [tm_mday, tm_hour, tm_min, tm_sec]"
    and "digits_val 0 (take 4 (drop 3 (numbers t usec))) = nat (tm_year t + 1900)"
    and "digits_val 0 (take 6 (drop 17 (numbers t usec))) = usec"
proof -
  have two: "length (pad0 2 (f t)) = 2" "digits_val 0 (pad0 2 (f t)) = f t"
    if "f \<in> {tm_mday, tm_hour, tm_min, tm_sec}" for f
    using that assms(1) by (auto simp: tm_ok_def intro!: pad0_exact)
  have y: "1000 \<le> tm_year t + 1900" "tm_year t + 1900 < 10000" using assms(1) by (auto simp: tm_ok_def)
  note l = two(1) [of tm_mday] two(1) [of tm_hour] two(1) [of tm_min] two(1) [of tm_sec]
    length_show_year [OF y] pad0_exact(1) [OF assms(2)]
  show "length (numbers t usec) = 24" using l by (simp add: numbers_def)
  show "map (\<lambda>c. digits_val 0 (take 2 (drop c (numbers t usec)))) [0, 8, 11, 14]
      = map (\<lambda>f. f t) [tm_mday, tm_hour, tm_min, tm_sec]"
    using l two(2) by (simp add: numbers_def)
  show "digits_val 0 (take 4 (drop 3 (numbers t usec))) = nat (tm_year t + 1900)"
    using l year_digits [OF y] by (simp add: numbers_def)
  show "digits_val 0 (take 6 (drop 17 (numbers t usec))) = usec"
    using l pad0_exact(2) [OF assms(2)] by (simp add: numbers_def)
qed

definition gc_checked :: "vm_call list" where
  "gc_checked = [gc_set_callbacks, SetEventNotificationMode GARBAGE_COLLECTION_START,
     SetEventNotificationMode GARBAGE_COLLECTION_FINISH]"

lemmas gc_defs = print_err_def calloc_def free_def do_call_def

lemma gc_register_result:
  "fst (gc_register env s) = (if list_all (\<lambda>c. vm_answer env c = 0) gc_checked then Returned 0 else Exited (-1))"
  "vm_calls (snd (gc_register env s)) = vm_calls s @ called_until (vm_answer env) gc_checked"
  "blocks (snd (gc_register env s)) = (if list_all (\<lambda>c. vm_answer env c = 0) gc_checked
     then remove1 (callbacks_block env) (remove1 (caps_block env) (blocks s)) else blocks s)"
  by (simp_all add: gc_register_def gc_checked_def called_until_def gc_defs Let_def)

section \<open>Properties\<close>

text \<open>
  C40. A time stamp is printed whole. For a local time in the promised ranges and any locale, the line
  is \<open>GC\<close>, the kind of event, the locale's names of the day of the week and of the month, and 24
  characters from which the day, the year, the hour, the minute, the second and the microseconds
  are read back; no block stays allocated. This holds exactly if the two names have less than 110
  characters together; otherwise the buffer of 128 bytes is too small.
\<close>

theorem printGCTime_line:
  assumes "tm_ok (localtime (fst tv))" and "snd tv < 10 ^ 6" and "p \<noteq> NULL"
  shows "if length (day_abbr lc (tm_wday (localtime (fst tv)))) + length (mon_abbr lc (tm_mon (localtime (fst tv)))) < 110
    then \<exists>rest. printGCTime lc localtime tv p type s = Some (s\<lparr>printed := printed s @ [GcTime
        (''GC '' @ type @ '': '' @ day_abbr lc (tm_wday (localtime (fst tv))) @ '' ''
         @ mon_abbr lc (tm_mon (localtime (fst tv))) @ '' '' @ rest)]\<rparr>)
      \<and> length rest = 24
      \<and> map (\<lambda>c. digits_val 0 (take 2 (drop c rest))) [0, 8, 11, 14]
        = map (\<lambda>f. f (localtime (fst tv))) [tm_mday, tm_hour, tm_min, tm_sec]
      \<and> digits_val 0 (take 4 (drop 3 rest)) = nat (tm_year (localtime (fst tv)) + 1900)
      \<and> digits_val 0 (take 6 (drop 17 rest)) = snd tv
    else printGCTime lc localtime tv p type s = None"
proof -
  let ?t = "localtime (fst tv)"
  let ?names = "day_abbr lc (tm_wday ?t) @ '' '' @ mon_abbr lc (tm_mon ?t) @ '' ''"
  note f = numbers_fields [OF assms(1,2)]
  have split: "formatted lc ?t @ ''.'' @ pad0 6 (snd tv) @ [CHR 0x0A] = ?names @ numbers ?t (snd tv)"
    by (simp add: formatted_def numbers_def)
  have "length (formatted lc ?t @ ''.'' @ pad0 6 (snd tv) @ [CHR 0x0A]) = length (?names @ numbers ?t (snd tv))"
    by (simp only: split)
  then have "length (formatted lc ?t) + 8 = length ?names + 24"
    using f(1) pad0_exact(1) [OF assms(2)] by simp
  then have fits: "length (formatted lc ?t) < 128
      \<longleftrightarrow> length (day_abbr lc (tm_wday ?t)) + length (mon_abbr lc (tm_mon ?t)) < 110" by simp
  have "printGCTime lc localtime tv p type s = (if length (formatted lc ?t) < 128
      then Some (s\<lparr>printed := printed s @ [GcTime (''GC '' @ type @ '': '' @ ?names @ numbers ?t (snd tv))]\<rparr>)
      else None)"
    unfolding split [symmetric] using assms(3) by (simp add: printGCTime_def strftime_def gc_defs Let_def)
  then show ?thesis using fits f by (auto intro: exI [of _ "numbers ?t (snd tv)"])
qed

definition sample_tm :: tm where
  "sample_tm = \<lparr>tm_sec = 5, tm_min = 4, tm_hour = 3, tm_mday = 2, tm_mon = 0, tm_year = 70, tm_wday = 5\<rparr>"

definition c_locale :: lc_time where
  "c_locale = \<lparr>day_abbr = (\<lambda>i. [''Sun'', ''Mon'', ''Tue'', ''Wed'', ''Thu'', ''Fri'', ''Sat''] ! i),
     mon_abbr = (\<lambda>i. [''Jan'', ''Feb'', ''Mar'', ''Apr'', ''May'', ''Jun'', ''Jul'', ''Aug'', ''Sep'',
       ''Oct'', ''Nov'', ''Dec''] ! i)\<rparr>"

lemma printGCTime_line_witness:
  "\<exists>rest. printGCTime c_locale (\<lambda>_. sample_tm) (97445, 123) 4096 ''Start '' \<lparr>printed = [], vm_calls = [], blocks = []\<rparr>
    = Some \<lparr>printed = [GcTime (''GC Start : Fri Jan '' @ rest)], vm_calls = [], blocks = []\<rparr>
    \<and> digits_val 0 (take 4 (drop 3 rest)) = 1970 \<and> digits_val 0 (take 6 (drop 17 rest)) = 123"
proof -
  have ok: "tm_ok ((\<lambda>_. sample_tm) (fst (97445 :: int, 123 :: nat)))" "snd (97445 :: int, 123 :: nat) < 10 ^ 6"
    by (simp_all add: tm_ok_def sample_tm_def)
  have n: "day_abbr c_locale (tm_wday sample_tm) = ''Fri''" "mon_abbr c_locale (tm_mon sample_tm) = ''Jan''"
    "nat (tm_year sample_tm + 1900) = 1970"
    by (simp_all add: c_locale_def sample_tm_def)
  have "(4096 :: ptr) \<noteq> NULL" by simp
  from printGCTime_line [OF ok this, of c_locale "''Start ''" "\<lparr>printed = [], vm_calls = [], blocks = []\<rparr>"]
  show ?thesis by (auto simp: n)
qed

text \<open>
  How the start-up ends: the version error without an environment, the memory error when a
  block is missing, an exit of the process at the first of the three checked calls that fails,
  and otherwise success. The answer of \<open>AddCapabilities\<close> plays no role. After success nothing is
  allocated; when the second block is missing the first one is never freed.
\<close>

theorem Agent_OnLoad_gc_result:
  "fst (Agent_OnLoad_gc env s) =
     (if env_ret env \<noteq> 0 then Returned 68
      else if caps_block env = NULL \<or> callbacks_block env = NULL then Returned 110
      else if list_all (\<lambda>c. vm_answer env c = 0) gc_checked then Returned 0 else Exited (-1))
   \<and> vm_calls (snd (Agent_OnLoad_gc env s)) = vm_calls s
       @ (if env_ret env \<noteq> 0 \<or> caps_block env = NULL then []
          else AddCapabilities [generate_garbage_collection_events]
            # (if callbacks_block env = NULL then [] else called_until (vm_answer env) gc_checked))
   \<and> blocks (snd (Agent_OnLoad_gc env s)) =
       (if env_ret env \<noteq> 0 \<or> caps_block env = NULL then blocks s
        else if callbacks_block env = NULL then caps_block env # blocks s
        else if list_all (\<lambda>c. vm_answer env c = 0) gc_checked then blocks s
        else callbacks_block env # caps_block env # blocks s)"
  by (simp add: Agent_OnLoad_gc_def gc_register_result Let_def)
    (auto simp: gc_defs)

end
