(* ===== verification/Old_Agent.thy ===== *)
theory Old_Agent
  imports Agent_Base
begin

text \<open>
  \<^verbatim>\<open>src/src/__trace_agent.h\<close>: the earlier version of the agent, which reports method entries,
  allocations and class loading, and dumps the Java stacks on a signal or after a garbage
  collection. Its callbacks, start-up and dump; the two threads that share the raw monitor are in
  the theory of the monitor. The exceptions, \<open>init\<close>, \<open>alloc_thread\<close> and the printing of a frame
  are the same text as in the current version and are shared with it.
\<close>

section \<open>The dump\<close>

fun old_print_stacks :: "jvmti \<Rightarrow> nat \<Rightarrow> stack_info list \<Rightarrow> dump_state \<Rightarrow> dump_out" where
  "old_print_stacks j i [] s = (None, s)"
| "old_print_stacks j i (st # sts) s =
     (case frame_buffer st of
        None \<Rightarrow> old_print_stacks j (i + 1) sts s
      | Some info \<Rightarrow>
          (case print_frames j info (print_line (StackNumber i) s) of
             (Some e, s1) \<Rightarrow> (Some e, s1)
           | (None, s1) \<Rightarrow> old_print_stacks j (i + 1) sts s1))"

definition old_stack_trace :: "jvmti \<Rightarrow> dump_state \<Rightarrow> dump_out" where
  "old_stack_trace j s =
     (case GetAllStackTraces j of (rc, stacks) \<Rightarrow>
        old_print_stacks j 0 stacks
          (print_line (EndGetAll (int (length stacks)) rc) (if rc = 0 then obtain_buffer s else s)))"

section \<open>State of the callbacks\<close>

datatype old_line =
    OnStderr string
  | OnStdout string
  | EntryError int
  | AllocOf string int
  | LoadOf string
  | CaughtIn string
  | GcMark bool string

text \<open>\<open>st_\<close>, the dump and the other lines.\<close>

record old_state =
  st :: bool
  dump :: dump_state
  said :: "old_line list"

definition say :: "old_line \<Rightarrow> old_state \<Rightarrow> old_state" where
  "say l s = s\<lparr>said := said s @ [l]\<rparr>"

definition obtain_text :: "old_state \<Rightarrow> old_state" where
  "obtain_text s = s\<lparr>dump := obtain_buffer (dump s)\<rparr>"

definition release_text :: "old_state \<Rightarrow> old_state" where
  "release_text s = s\<lparr>dump := release_buffer (dump s)\<rparr>"

definition sighandler :: "old_state \<Rightarrow> old_state" where
  "sighandler s = s\<lparr>st := True\<rparr>"

section \<open>Callbacks\<close>

text \<open>The body of the \<open>try\<close> block, and the callback that catches its exception.\<close>

definition method_entry_try :: "jvmti \<Rightarrow> ptr \<Rightarrow> old_state \<Rightarrow> agent_exception option \<times> old_state" where
  "method_entry_try j meth s =
     (case GetMethodDeclaringClass j meth of (error, clazz) \<Rightarrow>
      case CHECK_ERR error of Some e \<Rightarrow> (Some e, s) | None \<Rightarrow>
      case GetClassSignature j clazz of (error, signature) \<Rightarrow>
      case CHECK_ERR error of Some e \<Rightarrow> (Some e, s) | None \<Rightarrow>
      case GetMethodName j meth of (error, name) \<Rightarrow>
      case CHECK_ERR error of Some e \<Rightarrow> (Some e, obtain_text s) | None \<Rightarrow>
        (let s1 = say (if strncmp_eq ''DictBasePO'' name then OnStderr name else OnStdout name)
               (obtain_text (obtain_text s)) in
         case CHECK_ERR (Deallocate j name) of Some e \<Rightarrow> (Some e, s1) | None \<Rightarrow>
         case CHECK_ERR (Deallocate j signature) of Some e \<Rightarrow> (Some e, release_text s1) | None \<Rightarrow>
           (None, release_text (release_text s1))))"

definition method_entry :: "jvmti \<Rightarrow> ptr \<Rightarrow> old_state \<Rightarrow> old_state" where
  "method_entry j meth s =
     (case method_entry_try j meth s of
        (Some (Agent_Exception e), s1) \<Rightarrow> say (EntryError e) s1
      | (None, s1) \<Rightarrow> s1)"

definition filter_class :: "string \<Rightarrow> int \<Rightarrow> old_state \<Rightarrow> old_state" where
  "filter_class signature n s =
     (if \<not> strncmp_eq ''[Lcom/zoe'' signature \<and> \<not> strncmp_eq ''Lcom/zoe'' signature then s
      else say (AllocOf signature n) s)"

text \<open>
  \<open>vm_object_alloc\<close> up to the test of \<open>st_\<close>, its dump, and the whole callback. Signals and other
  threads come in between; the steps are put together below.
\<close>

definition alloc_head :: "jvmti \<Rightarrow> ptr \<Rightarrow> int \<Rightarrow> old_state \<Rightarrow> agent_exception option \<times> old_state" where
  "alloc_head j object_klass n s =
     (case GetClassSignature j object_klass of (error, signature) \<Rightarrow>
      case CHECK_ERR error of Some e \<Rightarrow> (Some e, s) | None \<Rightarrow>
        (let s1 = filter_class signature n (obtain_text s) in
         case CHECK_ERR (Deallocate j signature) of Some e \<Rightarrow> (Some e, s1) | None \<Rightarrow> (None, release_text s1)))"

definition alloc_dump :: "jvmti \<Rightarrow> old_state \<Rightarrow> agent_exception option \<times> old_state" where
  "alloc_dump j s = (case old_stack_trace j (dump s) of (e, d) \<Rightarrow> (e, s\<lparr>dump := d\<rparr>))"

definition vm_object_alloc :: "jvmti \<Rightarrow> ptr \<Rightarrow> int \<Rightarrow> old_state \<Rightarrow> agent_exception option \<times> old_state" where
  "vm_object_alloc j object_klass n s =
     (case alloc_head j object_klass n s of
        (Some e, s1) \<Rightarrow> (Some e, s1)
      | (None, s1) \<Rightarrow>
          if st s1
          then case alloc_dump j s1 of
                 (Some e, s2) \<Rightarrow> (Some e, s2)
               | (None, s2) \<Rightarrow> (None, s2\<lparr>st := False\<rparr>)
          else (None, s1))"

definition class_file_load_hook :: "string option \<Rightarrow> old_state \<Rightarrow> old_state" where
  "class_file_load_hook nm s =
     (case nm of
        None \<Rightarrow> s
      | Some name \<Rightarrow>
          if \<not> strncmp_eq ''[com/zoe'' name \<and> \<not> strncmp_eq ''com/zoe'' name then s
          else say (LoadOf name) s)"

definition exception_cb :: "jvmti \<Rightarrow> ptr \<Rightarrow> old_state \<Rightarrow> agent_exception option \<times> old_state" where
  "exception_cb j meth s =
     (case GetMethodName j meth of (error, name) \<Rightarrow>
      case CHECK_ERR error of Some e \<Rightarrow> (Some e, s) | None \<Rightarrow>
        (let s1 = say (CaughtIn name) (obtain_text s) in
         case CHECK_ERR (Deallocate j name) of Some e \<Rightarrow> (Some e, s1) | None \<Rightarrow>
           (None, release_text s1)))"

text \<open>\<open>GetCurrentThread\<close> and \<open>GetThreadInfo\<close> answer with an error code here.\<close>

definition tname2 :: "int \<times> ptr \<Rightarrow> (ptr \<Rightarrow> int \<times> string) \<Rightarrow> string" where
  "tname2 current info =
     (if fst current \<noteq> 0 then ''error tname_a''
      else if fst (info (snd current)) \<noteq> 0 then ''error tname_b''
      else snd (info (snd current)))"

definition old_gc_finish :: "int \<times> ptr \<Rightarrow> (ptr \<Rightarrow> int \<times> string) \<Rightarrow> old_state \<Rightarrow> old_state" where
  "old_gc_finish current info s = say (GcMark False (tname2 current info)) s"

section \<open>Start-up\<close>

text \<open>
  \<open>vm_init\<close> starts the worker and then installs the handler of \<open>SIGUSR1\<close>: the exception, and
  whether the worker was started and the handler installed.
\<close>

definition old_vm_init :: "jni \<Rightarrow> (ptr \<Rightarrow> int) \<Rightarrow> agent_exception option \<times> bool \<times> bool" where
  "old_vm_init env run_ret =
     (case CHECK_ERR (run_ret (fst (alloc_thread env))) of
        Some e \<Rightarrow> (Some e, False, False)
      | None \<Rightarrow> (None, True, True))"

definition old_caps :: "capability list" where
  "old_caps = [generate_method_entry_events, generate_vm_object_alloc_events,
     generate_garbage_collection_events]"

definition old_add_cap :: "(vm_call \<Rightarrow> int) \<Rightarrow> agent \<Rightarrow> agent_exception option \<times> agent" where
  "old_add_cap ans a = checked_calls ans [AddCapabilities old_caps] a"

definition old_callbacks :: "vm_event list" where
  "old_callbacks = [VM_INIT, GARBAGE_COLLECTION_START, GARBAGE_COLLECTION_FINISH]"

definition old_events :: "vm_event list" where
  "old_events = [VM_INIT, VM_OBJECT_ALLOC, CLASS_FILE_LOAD_HOOK, GARBAGE_COLLECTION_START,
     GARBAGE_COLLECTION_FINISH]"

definition old_reg_event :: "(vm_call \<Rightarrow> int) \<Rightarrow> agent \<Rightarrow> agent_exception option \<times> agent" where
  "old_reg_event ans a =
     checked_calls ans
       (SetEventCallbacks old_callbacks # map SetEventNotificationMode old_events
        @ [CreateRawMonitor ''lock'']) a"

section \<open>Lemmas\<close>

lemmas old_defs = say_def obtain_text_def release_text_def obtain_buffer_def release_buffer_def

fun old_listing :: "jvmti \<Rightarrow> nat \<Rightarrow> stack_info list \<Rightarrow> dump_line list" where
  "old_listing j i [] = []"
| "old_listing j i (s # ss) =
     (case frame_buffer s of None \<Rightarrow> [] | Some ms \<Rightarrow> StackNumber i # map (frame_line j) ms)
     @ old_listing j (i + 1) ss"

lemma old_print_stacks_ok:
  "all_ok j \<Longrightarrow> old_print_stacks j i sts s = (None, s\<lparr>lines := lines s @ old_listing j i sts\<rparr>)"
  by (induction sts arbitrary: i s) (simp_all add: print_frames_ok dump_defs split: option.splits)

lemma old_stack_trace_ok:
  "all_ok j \<Longrightarrow> old_stack_trace j s =
    (None, s\<lparr>lines := lines s @ EndGetAll (int (length (snd (GetAllStackTraces j)))) (fst (GetAllStackTraces j))
                      # old_listing j 0 (snd (GetAllStackTraces j)),
             held := held s + (if fst (GetAllStackTraces j) = 0 then 1 else 0)\<rparr>)"
  by (simp add: old_stack_trace_def old_print_stacks_ok dump_defs split: prod.splits)

text \<open>
  Run without a signal in between, the callback makes a requested dump once: the dump clears the flag, and
  an allocation without it prints no stack.
\<close>

lemma vm_object_alloc_ok:
  assumes "all_ok j"
  shows "vm_object_alloc j k n s =
    (None, (filter_class (snd (GetClassSignature j k)) n s)
       \<lparr>st := False, dump := (if st s then snd (old_stack_trace j (dump s)) else dump s)\<rparr>)"
proof -
  obtain sg where sg: "GetClassSignature j k = (0, sg)" using assms by (metis all_ok_def prod.collapse)
  show ?thesis using assms
    by (cases s) (simp add: vm_object_alloc_def alloc_head_def alloc_dump_def sg CHECK_ERR_def all_ok_def filter_class_def old_defs
        Let_def old_stack_trace_ok)
qed

lemma method_entry_ok:
  assumes "all_ok j"
  shows "method_entry j m s =
    say (if strncmp_eq ''DictBasePO'' (snd (GetMethodName j m)) then OnStderr (snd (GetMethodName j m))
         else OnStdout (snd (GetMethodName j m))) s"
proof -
  obtain c where c: "GetMethodDeclaringClass j m = (0, c)" using assms by (metis all_ok_def prod.collapse)
  obtain sg where sg: "GetClassSignature j c = (0, sg)" using assms by (metis all_ok_def prod.collapse)
  obtain nm where nm: "GetMethodName j m = (0, nm)" using assms by (metis all_ok_def prod.collapse)
  show ?thesis using assms
    by (cases s) (simp add: method_entry_def method_entry_try_def c sg nm CHECK_ERR_def all_ok_def
        old_defs Let_def)
qed

text \<open>An exception of the dump leaves the callback and keeps the request.\<close>

lemma vm_object_alloc_throws:
  assumes "GetClassSignature j k = (0, sg)" and "Deallocate j sg = 0" and "st s"
    and "old_stack_trace j (dump s) = (Some e, d)"
  shows "fst (vm_object_alloc j k n s) = Some e \<and> st (snd (vm_object_alloc j k n s))"
  using assms by (cases s)
    (auto simp: vm_object_alloc_def alloc_head_def alloc_dump_def CHECK_ERR_def filter_class_def old_defs Let_def)

section \<open>Signals and allocations interleaved\<close>

text \<open>
  Where a thread stands in \<open>vm_object_alloc\<close>: outside, before the test of \<open>st_\<close>, before the dump,
  between the dump and \<open>st_ = false\<close>. The handler of \<open>SIGUSR1\<close> may run at any moment. Nothing in
  the dump looks at \<open>st_\<close>, so a signal during the dump is one before or after it.
\<close>

datatype vpc = VOut | VTest | VDump | VClear

record old_run =
  shared :: old_state
  vpcs :: "nat \<Rightarrow> vpc"

datatype old_event = OSig | OEnter nat ptr int | OTest nat bool | ODump nat | OClear nat

definition old_run_start :: "old_state \<Rightarrow> old_run" where
  "old_run_start s = \<lparr>shared = s, vpcs = (\<lambda>_. VOut)\<rparr>"

inductive old_step :: "jvmti \<Rightarrow> old_run \<Rightarrow> old_event \<Rightarrow> old_run \<Rightarrow> bool" for j where
  o_signal: "old_step j r OSig (r\<lparr>shared := sighandler (shared r)\<rparr>)"
| o_enter: "vpcs r t = VOut \<Longrightarrow> alloc_head j k n (shared r) = (e, s) \<Longrightarrow>
     old_step j r (OEnter t k n) \<lparr>shared = s, vpcs = (vpcs r)(t := if e = None then VTest else VOut)\<rparr>"
| o_test: "vpcs r t = VTest \<Longrightarrow>
     old_step j r (OTest t (st (shared r))) (r\<lparr>vpcs := (vpcs r)(t := if st (shared r) then VDump else VOut)\<rparr>)"
| o_dump: "vpcs r t = VDump \<Longrightarrow> alloc_dump j (shared r) = (e, s) \<Longrightarrow>
     old_step j r (ODump t) \<lparr>shared = s, vpcs = (vpcs r)(t := if e = None then VClear else VOut)\<rparr>"
| o_clear: "vpcs r t = VClear \<Longrightarrow>
     old_step j r (OClear t) \<lparr>shared = (shared r)\<lparr>st := False\<rparr>, vpcs = (vpcs r)(t := VOut)\<rparr>"

fun is_dump_head :: "dump_line \<Rightarrow> bool" where
  "is_dump_head (EndGetAll c rc) = True"
| "is_dump_head _ = False"

definition dumps_in :: "old_state \<Rightarrow> nat" where
  "dumps_in s = length (filter is_dump_head (lines (dump s)))"

definition is_dump :: "old_event \<Rightarrow> bool" where
  "is_dump e \<longleftrightarrow> (\<exists>t. e = ODump t)"

definition found_flag :: "old_event \<Rightarrow> bool" where
  "found_flag e \<longleftrightarrow> (\<exists>t. e = OTest t True)"

text \<open>A callback that nobody interrupts takes these steps.\<close>

lemma vm_object_alloc_steps:
  assumes "vpcs r t = VOut"
  shows "\<exists>es r'. lrun (old_step j) r (OEnter t k n # es) r' \<and> OSig \<notin> set es
    \<and> shared r' = snd (vm_object_alloc j k n (shared r)) \<and> vpcs r' = vpcs r"
proof -
  obtain e s1 where h: "alloc_head j k n (shared r) = (e, s1)" by fastforce
  let ?r1 = "\<lparr>shared = s1, vpcs = (vpcs r)(t := if e = None then VTest else VOut)\<rparr>"
  have enter: "old_step j r (OEnter t k n) ?r1" by (rule o_enter [OF assms h])
  have undo: "(vpcs r)(t := p, t := VOut) = vpcs r" "(vpcs r)(t := VOut) = vpcs r" for p
    using assms by (simp_all add: fun_upd_idem)
  show ?thesis
  proof (cases "e = None \<and> st s1")
    case False
    then consider "e \<noteq> None" | "e = None" "\<not> st s1" by auto
    then show ?thesis
    proof cases
      case 1
      then show ?thesis using lrun_single [of "old_step j", OF enter] h undo
        by (intro exI [of _ "[]"] exI [of _ ?r1]) (auto simp: vm_object_alloc_def)
    next
      case 2
      have "old_step j ?r1 (OTest t False) \<lparr>shared = s1, vpcs = vpcs r\<rparr>"
        using o_test [of ?r1 t j] 2 undo by simp
      then show ?thesis using lrun_Cons [of "old_step j", OF enter lrun_single] h 2
        by (intro exI [of _ "[OTest t False]"] exI [of _ "\<lparr>shared = s1, vpcs = vpcs r\<rparr>"])
          (auto simp: vm_object_alloc_def)
    qed
  next
    case True
    obtain e2 s2 where d: "alloc_dump j s1 = (e2, s2)" by fastforce
    let ?r2 = "\<lparr>shared = s1, vpcs = (vpcs r)(t := VDump)\<rparr>"
    let ?r3 = "\<lparr>shared = s2, vpcs = (vpcs r)(t := if e2 = None then VClear else VOut)\<rparr>"
    have test: "old_step j ?r1 (OTest t True) ?r2" using o_test [of ?r1 t j] True by simp
    have dumped: "old_step j ?r2 (ODump t) ?r3" using o_dump [of ?r2 t j e2 s2] d by simp
    show ?thesis
    proof (cases e2)
      case None
      have "old_step j ?r3 (OClear t) \<lparr>shared = s2\<lparr>st := False\<rparr>, vpcs = vpcs r\<rparr>"
        using o_clear [of ?r3 t j] None undo by simp
      then show ?thesis
        using lrun_Cons [of "old_step j", OF enter lrun_Cons [of "old_step j", OF test lrun_Cons [of "old_step j", OF dumped lrun_single]]]
          h d None True
        by (intro exI [of _ "[OTest t True, ODump t, OClear t]"]
            exI [of _ "\<lparr>shared = s2\<lparr>st := False\<rparr>, vpcs = vpcs r\<rparr>"]) (auto simp: vm_object_alloc_def)
    next
      case (Some x)
      then show ?thesis
        using lrun_Cons [of "old_step j", OF enter lrun_Cons [of "old_step j", OF test lrun_single [of "old_step j", OF dumped]]] h d True undo
        by (intro exI [of _ "[OTest t True, ODump t]"] exI [of _ ?r3]) (auto simp: vm_object_alloc_def)
    qed
  qed
qed

section \<open>Lemmas on interleaved runs\<close>

lemma print_frame_heads: "filter is_dump_head (lines (snd (print_frame j m s))) = filter is_dump_head (lines s)"
  by (auto simp: print_frame_def dump_defs Let_def split: prod.splits option.splits)

lemma print_frames_heads: "filter is_dump_head (lines (snd (print_frames j ms s))) = filter is_dump_head (lines s)"
proof (induction ms arbitrary: s)
  case (Cons m ms)
  then show ?case using print_frame_heads [of j m s] by (auto split: prod.splits option.splits)
qed simp

lemma old_print_stacks_heads:
  "filter is_dump_head (lines (snd (old_print_stacks j i sts s))) = filter is_dump_head (lines s)"
proof (induction sts arbitrary: i s)
  case (Cons x sts)
  show ?case
  proof (cases "frame_buffer x")
    case (Some info)
    obtain e s1 where p: "print_frames j info (print_line (StackNumber i) s) = (e, s1)" by fastforce
    have "filter is_dump_head (lines s1) = filter is_dump_head (lines s)"
      using print_frames_heads [of j info "print_line (StackNumber i) s"] p by (simp add: print_line_def)
    then show ?thesis using Some p Cons by (cases e) simp_all
  qed (use Cons in simp)
qed simp

lemma alloc_dump_once: "dumps_in (snd (alloc_dump j s)) = dumps_in s + 1 \<and> st (snd (alloc_dump j s)) = st s"
proof -
  have "length (filter is_dump_head (lines (snd (old_stack_trace j d)))) = length (filter is_dump_head (lines d)) + 1" for d
    by (auto simp: old_stack_trace_def old_print_stacks_heads dump_defs split: prod.splits)
  then show ?thesis by (simp add: alloc_dump_def dumps_in_def split_def)
qed

lemma alloc_head_quiet:
  "alloc_head j k n s = (e, s1) \<Longrightarrow> dumps_in s1 = dumps_in s \<and> st s1 = st s"
  by (auto simp: alloc_head_def filter_class_def dumps_in_def old_defs Let_def split: prod.splits option.splits if_splits)

lemma flag_until_clear:
  assumes "lrun (old_step j) r es r'" and "OSig \<notin> set es" and "st (shared r)"
  shows "st (shared r') \<longleftrightarrow> (\<forall>u. OClear u \<notin> set es)"
  using assms
proof (induction rule: lrun.induct)
  case (lrun_snoc es r1 e r2)
  then have IH: "st (shared r1) \<longleftrightarrow> (\<forall>u. OClear u \<notin> set es)" by simp
  from lrun_snoc(2) show ?case
  proof cases
    case (o_enter t k n e' s)
    then show ?thesis using IH alloc_head_quiet [OF o_enter(4)] by auto
  next
    case (o_dump t e' s)
    then show ?thesis using IH alloc_dump_once [of j "shared r1"] by auto
  qed (use IH lrun_snoc.prems in auto)
qed simp

definition dumping :: "old_run \<Rightarrow> nat set" where
  "dumping r = {t. vpcs r t = VDump}"

lemma dumping_upd:
  "dumping \<lparr>shared = s, vpcs = (vpcs r)(t := p)\<rparr> = (if p = VDump then insert t (dumping r) else dumping r - {t})"
  "dumping (r\<lparr>vpcs := (vpcs r)(t := p)\<rparr>) = (if p = VDump then insert t (dumping r) else dumping r - {t})"
  by (auto simp: dumping_def)

definition dumps_counted :: "old_state \<Rightarrow> old_event list \<Rightarrow> old_run \<Rightarrow> bool" where
  "dumps_counted s0 es r \<longleftrightarrow> finite (dumping r)
     \<and> dumps_in (shared r) = dumps_in s0 + length (filter is_dump es)
     \<and> length (filter found_flag es) = length (filter is_dump es) + card (dumping r)"

interpretation old_dumps: labelled_invariant "old_run_start s0" "old_step j" "dumps_counted s0" for s0 j
proof unfold_locales
  show "dumps_counted s0 [] (old_run_start s0)"
    by (simp add: dumps_counted_def old_run_start_def dumping_def)
next
  fix es r e r'
  assume inv: "dumps_counted s0 es r" and step: "old_step j r e r'"
  from step show "dumps_counted s0 (es @ [e]) r'"
  proof cases
    case o_signal
    then have "dumping r' = dumping r" "dumps_in (shared r') = dumps_in (shared r)"
      by (simp_all add: dumping_def sighandler_def dumps_in_def)
    then show ?thesis using inv o_signal by (simp add: dumps_counted_def is_dump_def found_flag_def)
  next
    case (o_enter t k n e' s)
    then have "dumping r' = dumping r" by (auto simp: dumping_def)
    then show ?thesis using inv o_enter alloc_head_quiet [OF o_enter(4)]
      by (simp add: dumps_counted_def is_dump_def found_flag_def)
  next
    case (o_test t)
    then have t: "t \<notin> dumping r" by (simp add: dumping_def)
    have d: "dumping r' = (if st (shared r) then insert t (dumping r) else dumping r)"
      unfolding o_test(2) dumping_upd using t by simp
    have "shared r' = shared r" using o_test by simp
    then show ?thesis using inv o_test(1) t
      by (cases "st (shared r)") (simp_all add: dumps_counted_def is_dump_def found_flag_def d)
  next
    case (o_dump t e' s)
    then have t: "t \<in> dumping r" and d: "dumping r' = dumping r - {t}" by (auto simp: dumping_def)
    have "card (dumping r) = Suc (card (dumping r - {t}))" using inv t card_Suc_Diff1 [of "dumping r" t] by (auto simp: dumps_counted_def)
    then show ?thesis using inv o_dump alloc_dump_once [of j "shared r"] d
      by (simp add: dumps_counted_def is_dump_def found_flag_def)
  next
    case (o_clear t)
    then have "dumping r' = dumping r" by (auto simp: dumping_def)
    then show ?thesis using inv o_clear by (simp add: dumps_counted_def is_dump_def found_flag_def dumps_in_def)
  qed
qed

section \<open>Properties\<close>

text \<open>
  C39. What becomes of a signal, with any number of threads in the callback and the signal at any
  moment. After it, until the next signal, a callback that tests \<open>st_\<close> finds it set exactly if no
  callback has cleared it since: so the request is answered by the next test, or erased by the
  \<open>st_ = false\<close> of a dump that had begun before it. The dumps made are as many as the tests that
  found the flag set, but for those under way.
\<close>

theorem old_signal_dumps:
  assumes "lrun (old_step j) (old_run_start s0) (es1 @ OSig # es2) r" and "OSig \<notin> set es2"
  shows "(\<forall>pre t b post. es2 = pre @ OTest t b # post \<longrightarrow> (b \<longleftrightarrow> (\<forall>u. OClear u \<notin> set pre)))
    \<and> (st (shared r) \<longleftrightarrow> (\<forall>u. OClear u \<notin> set es2))
    \<and> length (filter found_flag (es1 @ OSig # es2)) = dumps_in (shared r) - dumps_in s0 + card (dumping r)"
proof (intro conjI allI impI)
  obtain r1 where "lrun (old_step j) (old_run_start s0) (es1 @ [OSig]) r1" and r1: "lrun (old_step j) r1 es2 r"
    using lrun_split [of "old_step j" "old_run_start s0" "es1 @ [OSig]" es2 r] assms(1) by auto
  then obtain r0 where "old_step j r0 OSig r1" by (auto elim: lrun_snocE)
  then have flag: "st (shared r1)" by (cases rule: old_step.cases) (simp_all add: sighandler_def)
  show "st (shared r) \<longleftrightarrow> (\<forall>u. OClear u \<notin> set es2)" by (rule flag_until_clear [OF r1 assms(2) flag])
  show "length (filter found_flag (es1 @ OSig # es2)) = dumps_in (shared r) - dumps_in s0 + card (dumping r)"
    using old_dumps.run_invariant [OF assms(1)] by (simp add: dumps_counted_def)
  fix pre t b post
  assume e: "es2 = pre @ OTest t b # post"
  then obtain r2 where r2: "lrun (old_step j) r1 (pre @ [OTest t b]) r2"
    using lrun_split [of "old_step j" r1 "pre @ [OTest t b]" post r] r1 by auto
  then obtain r3 where r3: "lrun (old_step j) r1 pre r3" "old_step j r3 (OTest t b) r2" by (auto elim: lrun_snocE)
  from r3(2) have "b = st (shared r3)" by (cases rule: old_step.cases) simp_all
  then show "b \<longleftrightarrow> (\<forall>u. OClear u \<notin> set pre)" using flag_until_clear [OF r3(1) _ flag] assms(2) e by simp
qed

text \<open>
  An instance: a signal that arrives while thread 0 makes its dump is lost, and the callback of
  thread 1 that comes next makes none.
\<close>

definition old_sample :: jvmti where
  "old_sample = \<lparr>GetAllStackTraces = (0, []), GetThreadInfo = (\<lambda>t. ''main''), get_jtid = (\<lambda>t. 1),
     GetMethodDeclaringClass = (\<lambda>m. (0, m)), GetClassSignature = (\<lambda>c. (0, ''LA;'')),
     GetMethodName = (\<lambda>m. (0, ''run'')), Deallocate = (\<lambda>b. 0)\<rparr>"

lemma old_sample_head: "alloc_head old_sample k n s = (None, s)"
  by (simp add: alloc_head_def old_sample_def CHECK_ERR_def filter_class_def old_defs strncmp_eq_def)

lemma old_sample_dump:
  "alloc_dump old_sample s =
     (None, s\<lparr>dump := \<lparr>lines = lines (dump s) @ [EndGetAll 0 0], held = held (dump s) + 1\<rparr>\<rparr>)"
  by (cases "dump s") (simp add: alloc_dump_def old_stack_trace_def old_sample_def dump_defs)

abbreviation old_fresh :: old_state where
  "old_fresh \<equiv> \<lparr>st = False, dump = \<lparr>lines = [], held = 0\<rparr>, said = []\<rparr>"

abbreviation lost_after :: "old_event list" where
  "lost_after \<equiv> [ODump 0, OClear 0, OEnter 1 4 16, OTest 1 False]"

lemma old_signal_dumps_witness:
  "\<exists>r. lrun (old_step old_sample) (old_run_start old_fresh)
        ([OSig, OEnter 0 4 16, OTest 0 True] @ OSig # lost_after) r
    \<and> \<not> st (shared r) \<and> dumps_in (shared r) = 1 \<and> dumping r = {}"
proof -
  let ?d0 = "\<lparr>lines = [], held = 0\<rparr> :: dump_state" and ?d1 = "\<lparr>lines = [EndGetAll 0 0], held = 1\<rparr> :: dump_state"
  let ?r = "\<lambda>f d p q. \<lparr>shared = \<lparr>st = f, dump = d, said = []\<rparr>, vpcs = (\<lambda>_. VOut)(0 := p, 1 := q)\<rparr>"
  let ?S = "old_step old_sample"
  note upd = fun_upd_twist [of "0 :: nat" 1] and simps = old_run_start_def sighandler_def fun_upd_idem
  have 1: "?S (old_run_start old_fresh) OSig (?r True ?d0 VOut VOut)"
    using o_signal [of old_sample "old_run_start old_fresh"] by (simp add: simps)
  have 2: "?S (?r True ?d0 VOut VOut) (OEnter 0 4 16) (?r True ?d0 VTest VOut)"
    using o_enter [of "?r True ?d0 VOut VOut" 0 old_sample 4 16, OF _ old_sample_head] by (simp add: fun_upd_idem)
  have 3: "?S (?r True ?d0 VTest VOut) (OTest 0 True) (?r True ?d0 VDump VOut)"
    using o_test [of "?r True ?d0 VTest VOut" 0 old_sample] by (simp add: fun_upd_idem)
  have 4: "?S (?r True ?d0 VDump VOut) OSig (?r True ?d0 VDump VOut)"
    using o_signal [of old_sample "?r True ?d0 VDump VOut"] by (simp add: sighandler_def)
  have 5: "?S (?r True ?d0 VDump VOut) (ODump 0) (?r True ?d1 VClear VOut)"
    using o_dump [of "?r True ?d0 VDump VOut" 0 old_sample, OF _ old_sample_dump] by (simp add: fun_upd_idem)
  have 6: "?S (?r True ?d1 VClear VOut) (OClear 0) (?r False ?d1 VOut VOut)"
    using o_clear [of "?r True ?d1 VClear VOut" 0 old_sample] by (simp add: fun_upd_idem)
  have 7: "?S (?r False ?d1 VOut VOut) (OEnter 1 4 16) (?r False ?d1 VOut VTest)"
    using o_enter [of "?r False ?d1 VOut VOut" 1 old_sample 4 16, OF _ old_sample_head] by simp
  have 8: "?S (?r False ?d1 VOut VTest) (OTest 1 False) (?r False ?d1 VOut VOut)"
    using o_test [of "?r False ?d1 VOut VTest" 1 old_sample] by simp
  have "lrun ?S (old_run_start old_fresh) [OSig, OEnter 0 4 16, OTest 0 True, OSig, ODump 0, OClear 0, OEnter 1 4 16, OTest 1 False]
      (?r False ?d1 VOut VOut)"
    by (rule lrun_Cons [of ?S, OF 1 lrun_Cons [of ?S, OF 2 lrun_Cons [of ?S, OF 3 lrun_Cons [of ?S, OF 4
          lrun_Cons [of ?S, OF 5 lrun_Cons [of ?S, OF 6 lrun_Cons [of ?S, OF 7 lrun_Cons [of ?S, OF 8]]]]]]]])
      (rule lrun.lrun_nil)
  then have run: "lrun ?S (old_run_start old_fresh) ([OSig, OEnter 0 4 16, OTest 0 True] @ OSig # lost_after)
      (?r False ?d1 VOut VOut)" by simp
  have "\<not> st (shared (?r False ?d1 VOut VOut))" "dumping (?r False ?d1 VOut VOut) = {}"
    using old_signal_dumps [OF run] by (auto simp: dumping_def split: if_splits)
  then show ?thesis using run by (intro exI [of _ "?r False ?d1 VOut VOut"]) (simp add: dumps_in_def)
qed

end
