(* ===== verification/Gc_Monitor.thy ===== *)
theory Gc_Monitor
  imports Old_Agent
begin

text \<open>
  The raw monitor of \<^verbatim>\<open>src/src/__trace_agent.h\<close>: \<open>gc_start\<close> counts a collection and notifies, \<open>worker\<close> waits
  for a count and dumps the Java stacks while it holds the monitor. The monitor belongs to the
  tool interface and is a parameter: a record of relations, one per function, with the laws of
  its documentation as a predicate. A function that blocks has no outcome in that state. Thread
  0 is the worker and thread 1 the thread of the JVM that sends the collection events.
\<close>

section \<open>Raw monitors\<close>

text \<open>
  For a state of the monitor: who has entered it and how often, and who waits and has not been
  notified. \<open>RawMonitorWait\<close> is a call and a return, with the error code.
\<close>

record 'm raw_monitor =
  mon_new :: 'm
  hold :: "'m \<Rightarrow> (nat \<times> nat) option"
  asleep :: "'m \<Rightarrow> nat \<Rightarrow> bool"
  RawMonitorEnter :: "'m \<Rightarrow> nat \<Rightarrow> int \<Rightarrow> 'm \<Rightarrow> bool"
  RawMonitorExit :: "'m \<Rightarrow> nat \<Rightarrow> int \<Rightarrow> 'm \<Rightarrow> bool"
  RawMonitorNotify :: "'m \<Rightarrow> nat \<Rightarrow> int \<Rightarrow> 'm \<Rightarrow> bool"
  wait_call :: "'m \<Rightarrow> nat \<Rightarrow> 'm \<Rightarrow> bool"
  wait_return :: "'m \<Rightarrow> nat \<Rightarrow> int \<Rightarrow> 'm \<Rightarrow> bool"

text \<open>
  The documented behaviour for a thread that has not entered the monitor (it may enter once it is
  free, and sleeping threads stay asleep), for its owner (it may leave, wake one sleeper if there
  is one, or wait, which frees the monitor), and for a wait that returns (the monitor is entered
  again).
\<close>

definition enter_law :: "'m raw_monitor \<Rightarrow> bool" where
  "enter_law M \<longleftrightarrow> (\<forall>m t err m'. RawMonitorEnter M m t err m' \<longrightarrow> (\<forall>n. hold M m \<noteq> Some (t, n)) \<longrightarrow>
     hold M m = None \<and> err = 0 \<and> hold M m' = Some (t, 1) \<and> asleep M m' = asleep M m)"

definition exit_law :: "'m raw_monitor \<Rightarrow> bool" where
  "exit_law M \<longleftrightarrow> (\<forall>m t err m'. RawMonitorExit M m t err m' \<longrightarrow> hold M m = Some (t, 1) \<longrightarrow>
     err = 0 \<and> hold M m' = None \<and> asleep M m' = asleep M m)"

definition notify_law :: "'m raw_monitor \<Rightarrow> bool" where
  "notify_law M \<longleftrightarrow> (\<forall>m t err m'. RawMonitorNotify M m t err m' \<longrightarrow> hold M m = Some (t, 1) \<longrightarrow>
     err = 0 \<and> hold M m' = hold M m
     \<and> (if \<exists>u. asleep M m u then \<exists>u. asleep M m u \<and> asleep M m' = (asleep M m)(u := False)
        else asleep M m' = asleep M m))"

definition wait_law :: "'m raw_monitor \<Rightarrow> bool" where
  "wait_law M \<longleftrightarrow>
     (\<forall>m t m'. wait_call M m t m' \<longrightarrow> hold M m = Some (t, 1) \<longrightarrow>
        hold M m' = None \<and> asleep M m' = (asleep M m)(t := True))
   \<and> (\<forall>m t err m'. wait_return M m t err m' \<longrightarrow> (\<forall>n. hold M m \<noteq> Some (t, n)) \<longrightarrow>
        hold M m = None \<and> hold M m' = Some (t, 1) \<and> asleep M m' = (asleep M m)(t := False))"

definition raw_monitor_ok :: "'m raw_monitor \<Rightarrow> bool" where
  "raw_monitor_ok M \<longleftrightarrow> hold M (mon_new M) = None \<and> asleep M (mon_new M) = (\<lambda>_. False)
     \<and> enter_law M \<and> exit_law M \<and> notify_law M \<and> wait_law M"

section \<open>The worker and the collector\<close>

text \<open>
  Where the worker stands: about to enter; at the test of \<open>gc_count\<close>; inside the wait; in
  \<open>stack_trace\<close>; about to leave; after a failed wait; returned; ended by an exception.
\<close>

datatype worker_pc = OEnter | OTest | OWait | OTrace | OExit | OFailed | OReturned | OThrown

text \<open>
  Where the JVM stands: running; in \<open>gc_start\<close> before \<open>RawMonitorEnter\<close>, before the increment,
  before \<open>RawMonitorNotify\<close> and before \<open>RawMonitorExit\<close>; collecting until the end of the
  collection; ended by an exception of \<open>gc_start\<close>.
\<close>

datatype vm_pc = GRunning | GEnter | GCount | GNotify | GExit | GCollecting | GThrown int

text \<open>
  \<open>starts\<close>, \<open>taken\<close> and \<open>dumped\<close> are not variables of the code: the collections counted so far, and how
  many of them the last reset of \<open>gc_count\<close> and the last finished dump cover.
\<close>

record 'm gcm =
  mon :: 'm
  gc_count :: "32 word"
  opc :: worker_pc
  gpc :: vm_pc
  starts :: nat
  taken :: nat
  dumped :: nat

definition gcm_start :: "'m raw_monitor \<Rightarrow> 'm gcm" where
  "gcm_start M = \<lparr>mon = mon_new M, gc_count = 0, opc = OEnter, gpc = GRunning, starts = 0, taken = 0,
     dumped = 0\<rparr>"

datatype gcm_event =
    WorkerEnter | WorkerWait | WorkerWoken int | WorkerReset | WorkerTraced | WorkerThrew | WorkerExit
  | WorkerGiveUp | GcStart | GcEnter | GcCount | GcNotify | GcReturn | GcThrow int | GcFinish

definition vm_stopped :: "'m gcm \<Rightarrow> bool" where
  "vm_stopped s \<longleftrightarrow> gpc s \<noteq> GRunning"

text \<open>
  \<open>while_stopped\<close> says whether \<open>GetAllStackTraces\<close> can return to the worker while the JVM is stopped for
  a collection. The dump is one step, at its end: the printing of the stacks, which comes after
  \<open>GetAllStackTraces\<close> and asks the tool interface for names, is part of it and is held up in the same
  way.
\<close>

inductive gcm_step :: "'m raw_monitor \<Rightarrow> bool \<Rightarrow> 'm gcm \<Rightarrow> gcm_event \<Rightarrow> 'm gcm \<Rightarrow> bool"
  for M while_stopped where
  o_enter: "opc s = OEnter \<Longrightarrow> RawMonitorEnter M (mon s) 0 err m \<Longrightarrow>
     gcm_step M while_stopped s WorkerEnter (s\<lparr>mon := m, opc := OTest\<rparr>)"
| o_wait: "opc s = OTest \<Longrightarrow> gc_count s = 0 \<Longrightarrow> wait_call M (mon s) 0 m \<Longrightarrow>
     gcm_step M while_stopped s WorkerWait (s\<lparr>mon := m, opc := OWait\<rparr>)"
| o_woken: "opc s = OWait \<Longrightarrow> wait_return M (mon s) 0 err m \<Longrightarrow>
     gcm_step M while_stopped s (WorkerWoken err) (s\<lparr>mon := m, opc := (if err \<noteq> 0 then OFailed else OTest)\<rparr>)"
| o_give_up: "opc s = OFailed \<Longrightarrow> RawMonitorExit M (mon s) 0 err m \<Longrightarrow>
     gcm_step M while_stopped s WorkerGiveUp (s\<lparr>mon := m, opc := OReturned\<rparr>)"
| o_reset: "opc s = OTest \<Longrightarrow> gc_count s \<noteq> 0 \<Longrightarrow>
     gcm_step M while_stopped s WorkerReset (s\<lparr>gc_count := 0, opc := OTrace, taken := starts s\<rparr>)"
| o_traced: "opc s = OTrace \<Longrightarrow> while_stopped \<or> \<not> vm_stopped s \<Longrightarrow>
     gcm_step M while_stopped s WorkerTraced (s\<lparr>opc := OExit, dumped := taken s\<rparr>)"
| o_threw: "opc s = OTrace \<Longrightarrow> while_stopped \<or> \<not> vm_stopped s \<Longrightarrow>
     gcm_step M while_stopped s WorkerThrew (s\<lparr>opc := OThrown\<rparr>)"
| o_exit: "opc s = OExit \<Longrightarrow> RawMonitorExit M (mon s) 0 err m \<Longrightarrow>
     gcm_step M while_stopped s WorkerExit (s\<lparr>mon := m, opc := OEnter\<rparr>)"
| g_start: "gpc s = GRunning \<Longrightarrow> gcm_step M while_stopped s GcStart (s\<lparr>gpc := GEnter\<rparr>)"
| g_enter: "gpc s = GEnter \<Longrightarrow> RawMonitorEnter M (mon s) 1 err m \<Longrightarrow> CHECK_ERR err = None \<Longrightarrow>
     gcm_step M while_stopped s GcEnter (s\<lparr>mon := m, gpc := GCount\<rparr>)"
| g_enter_throw: "gpc s = GEnter \<Longrightarrow> RawMonitorEnter M (mon s) 1 err m \<Longrightarrow> CHECK_ERR err \<noteq> None \<Longrightarrow>
     gcm_step M while_stopped s (GcThrow err) (s\<lparr>mon := m, gpc := GThrown err\<rparr>)"
| g_count: "gpc s = GCount \<Longrightarrow>
     gcm_step M while_stopped s GcCount (s\<lparr>gc_count := gc_count s + 1, gpc := GNotify, starts := starts s + 1\<rparr>)"
| g_notify: "gpc s = GNotify \<Longrightarrow> RawMonitorNotify M (mon s) 1 err m \<Longrightarrow> CHECK_ERR err = None \<Longrightarrow>
     gcm_step M while_stopped s GcNotify (s\<lparr>mon := m, gpc := GExit\<rparr>)"
| g_notify_throw: "gpc s = GNotify \<Longrightarrow> RawMonitorNotify M (mon s) 1 err m \<Longrightarrow> CHECK_ERR err \<noteq> None \<Longrightarrow>
     gcm_step M while_stopped s (GcThrow err) (s\<lparr>mon := m, gpc := GThrown err\<rparr>)"
| g_exit: "gpc s = GExit \<Longrightarrow> RawMonitorExit M (mon s) 1 err m \<Longrightarrow> CHECK_ERR err = None \<Longrightarrow>
     gcm_step M while_stopped s GcReturn (s\<lparr>mon := m, gpc := GCollecting\<rparr>)"
| g_exit_throw: "gpc s = GExit \<Longrightarrow> RawMonitorExit M (mon s) 1 err m \<Longrightarrow> CHECK_ERR err \<noteq> None \<Longrightarrow>
     gcm_step M while_stopped s (GcThrow err) (s\<lparr>mon := m, gpc := GThrown err\<rparr>)"
| g_finish: "gpc s = GCollecting \<Longrightarrow> gcm_step M while_stopped s GcFinish (s\<lparr>gpc := GRunning\<rparr>)"

section \<open>The invariant\<close>

definition worker_holds :: "worker_pc \<Rightarrow> bool" where
  "worker_holds p \<longleftrightarrow> p \<in> {OTest, OTrace, OExit, OFailed, OThrown}"

definition vm_holds :: "vm_pc \<Rightarrow> bool" where
  "vm_holds p \<longleftrightarrow> p \<in> {GCount, GNotify, GExit}"

text \<open>
  The monitor is held exactly by the thread whose position says so, only the worker sleeps and
  only in its wait, \<open>gc_start\<close> has not thrown, \<open>gc_count\<close> is the number of collections since the last
  reset, and, as long as that number cannot have wrapped round, a sleeping worker that has not been
  notified has nothing to do, or \<open>gc_start\<close> is about to notify it.
\<close>

definition gcm_ok :: "'m raw_monitor \<Rightarrow> 'm gcm \<Rightarrow> bool" where
  "gcm_ok M s \<longleftrightarrow>
     hold M (mon s) = (if worker_holds (opc s) then Some (0, 1) else if vm_holds (gpc s) then Some (1, 1) else None)
   \<and> \<not> (worker_holds (opc s) \<and> vm_holds (gpc s))
   \<and> (\<forall>u. asleep M (mon s) u \<longrightarrow> u = 0 \<and> opc s = OWait)
   \<and> (\<forall>e. gpc s \<noteq> GThrown e)
   \<and> dumped s \<le> taken s \<and> taken s \<le> starts s \<and> gc_count s = word_of_nat (starts s - taken s)
   \<and> (opc s \<notin> {OTrace, OThrown} \<longrightarrow> dumped s = taken s)
   \<and> (asleep M (mon s) 0 \<longrightarrow> starts s < 2 ^ 32 \<longrightarrow> starts s = taken s \<or> gpc s = GNotify)"

lemmas monitor_laws = raw_monitor_ok_def enter_law_def exit_law_def notify_law_def wait_law_def

lemma enter_ok:
  assumes "raw_monitor_ok M" and "RawMonitorEnter M m t err m'" and "\<forall>n. hold M m \<noteq> Some (t, n)"
  shows "hold M m = None" and "err = 0" and "hold M m' = Some (t, 1)" and "asleep M m' = asleep M m"
  using assms unfolding raw_monitor_ok_def enter_law_def by blast+

lemma exit_ok:
  assumes "raw_monitor_ok M" and "RawMonitorExit M m t err m'" and "hold M m = Some (t, 1)"
  shows "err = 0" and "hold M m' = None" and "asleep M m' = asleep M m"
  using assms unfolding raw_monitor_ok_def exit_law_def by blast+

lemma notify_ok:
  assumes "raw_monitor_ok M" and "RawMonitorNotify M m t err m'" and "hold M m = Some (t, 1)"
    and "\<And>u. asleep M m u \<Longrightarrow> u = w"
  shows "err = 0" and "hold M m' = Some (t, 1)" and "\<not> asleep M m' u"
proof -
  have "err = 0 \<and> hold M m' = hold M m
     \<and> (if \<exists>u. asleep M m u then \<exists>u. asleep M m u \<and> asleep M m' = (asleep M m)(u := False)
        else asleep M m' = asleep M m)"
    using assms(1-3) unfolding raw_monitor_ok_def notify_law_def by blast
  then show "err = 0" and "hold M m' = Some (t, 1)" and "\<not> asleep M m' u"
    using assms(3,4) by (auto split: if_splits) (metis assms(4))
qed

lemma wait_call_ok:
  assumes "raw_monitor_ok M" and "wait_call M m t m'" and "hold M m = Some (t, 1)"
  shows "hold M m' = None" and "asleep M m' = (asleep M m)(t := True)"
  using assms unfolding raw_monitor_ok_def wait_law_def by blast+

lemma wait_return_ok:
  assumes "raw_monitor_ok M" and "wait_return M m t err m'" and "\<forall>n. hold M m \<noteq> Some (t, n)"
  shows "hold M m = None" and "hold M m' = Some (t, 1)" and "asleep M m' = (asleep M m)(t := False)"
  using assms unfolding raw_monitor_ok_def wait_law_def by blast+

lemma count_zero:
  assumes "word_of_nat k = (0 :: 32 word)" and "k < 2 ^ 32"
  shows "k = 0"
proof -
  have "k mod 2 ^ 32 = unat (word_of_nat k :: 32 word)" by (simp add: unat_of_nat take_bit_eq_mod)
  with assms show ?thesis by simp
qed

lemmas holds_defs = worker_holds_def vm_holds_def

lemma gcm_ok_start: "raw_monitor_ok M \<Longrightarrow> gcm_ok M (gcm_start M)"
  by (simp add: gcm_ok_def gcm_start_def raw_monitor_ok_def holds_defs)

lemma gcm_ok_step:
  assumes M: "raw_monitor_ok M" and st: "gcm_step M b s e s'" and ok: "gcm_ok M s"
  shows "gcm_ok M s'"
  using st
proof cases
  case (o_enter err m)
  have "\<forall>n. hold M (mon s) \<noteq> Some (0, n)" using ok o_enter by (simp add: gcm_ok_def holds_defs)
  from enter_ok [OF M o_enter(4) this] ok o_enter show ?thesis
    by (auto simp: gcm_ok_def holds_defs split: if_splits)
next
  case (o_wait m)
  have "hold M (mon s) = Some (0, 1)" using ok o_wait by (simp add: gcm_ok_def holds_defs)
  note w = wait_call_ok [OF M o_wait(5) this]
  have "starts s < 2 ^ 32 \<longrightarrow> starts s = taken s"
  proof
    assume b: "starts s < 2 ^ 32"
    have "word_of_nat (starts s - taken s) = (0 :: 32 word)" and le: "taken s \<le> starts s"
      using ok o_wait(4) unfolding gcm_ok_def by metis+
    from count_zero [OF this(1)] b le show "starts s = taken s" by simp
  qed
  with w ok o_wait show ?thesis by (auto simp: gcm_ok_def holds_defs)
next
  case (o_woken err m)
  have "\<forall>n. hold M (mon s) \<noteq> Some (0, n)" using ok o_woken by (simp add: gcm_ok_def holds_defs)
  from wait_return_ok [OF M o_woken(4) this] ok o_woken show ?thesis
    by (auto simp: gcm_ok_def holds_defs split: if_splits)
next
  case (o_give_up err m)
  have "hold M (mon s) = Some (0, 1)" using ok o_give_up by (simp add: gcm_ok_def holds_defs)
  from exit_ok [OF M o_give_up(4) this] ok o_give_up show ?thesis by (auto simp: gcm_ok_def holds_defs)
next
  case (o_exit err m)
  have "hold M (mon s) = Some (0, 1)" using ok o_exit by (simp add: gcm_ok_def holds_defs)
  from exit_ok [OF M o_exit(4) this] ok o_exit show ?thesis by (auto simp: gcm_ok_def holds_defs)
next
  case (g_enter err m)
  have "\<forall>n. hold M (mon s) \<noteq> Some (1, n)" using ok g_enter by (simp add: gcm_ok_def holds_defs)
  from enter_ok [OF M g_enter(4) this] ok g_enter show ?thesis
    by (auto simp: gcm_ok_def holds_defs split: if_splits)
next
  case (g_enter_throw err m)
  have "\<forall>n. hold M (mon s) \<noteq> Some (1, n)" using ok g_enter_throw by (simp add: gcm_ok_def holds_defs)
  from enter_ok(2) [OF M g_enter_throw(4) this] g_enter_throw(5) show ?thesis by (simp add: CHECK_ERR_def)
next
  case (g_notify err m)
  have h: "hold M (mon s) = Some (1, 1)" and sl: "\<And>u. asleep M (mon s) u \<Longrightarrow> u = 0"
    using ok g_notify by (auto simp: gcm_ok_def holds_defs)
  from notify_ok [OF M g_notify(4) h sl] ok g_notify show ?thesis by (auto simp: gcm_ok_def holds_defs)
next
  case (g_notify_throw err m)
  have h: "hold M (mon s) = Some (1, 1)" and sl: "\<And>u. asleep M (mon s) u \<Longrightarrow> u = 0"
    using ok g_notify_throw by (auto simp: gcm_ok_def holds_defs)
  from notify_ok(1) [OF M g_notify_throw(4) h sl] g_notify_throw(5) show ?thesis by (simp add: CHECK_ERR_def)
next
  case (g_exit err m)
  have "hold M (mon s) = Some (1, 1)" using ok g_exit by (auto simp: gcm_ok_def holds_defs)
  from exit_ok [OF M g_exit(4) this] ok g_exit show ?thesis by (auto simp: gcm_ok_def holds_defs)
next
  case (g_exit_throw err m)
  have "hold M (mon s) = Some (1, 1)" using ok g_exit_throw by (auto simp: gcm_ok_def holds_defs)
  from exit_ok(1) [OF M g_exit_throw(4) this] g_exit_throw(5) show ?thesis by (simp add: CHECK_ERR_def)
next
  case g_count
  then show ?thesis using ok by (auto simp: gcm_ok_def holds_defs Suc_diff_le)
qed (use ok in \<open>auto simp: gcm_ok_def holds_defs\<close>)

interpretation gcm: labelled_invariant "gcm_start M" "gcm_step M b" "\<lambda>es s. raw_monitor_ok M \<longrightarrow> gcm_ok M s"
  for M b
  using gcm_ok_start gcm_ok_step by unfold_locales blast+

lemma gcm_run_ok: "raw_monitor_ok M \<Longrightarrow> lrun (gcm_step M b) (gcm_start M) es s \<Longrightarrow> gcm_ok M s"
  using gcm.run_invariant by blast

text \<open>While the worker dumps and the next collection has begun, neither can move.\<close>

lemma stuck_step:
  assumes "raw_monitor_ok M" and "gcm_ok M s" and "opc s = OTrace" and "gpc s = GEnter"
  shows "\<not> gcm_step M False s e s'"
proof
  have h: "hold M (mon s) = Some (0, 1)" using assms(2,3) by (simp add: gcm_ok_def holds_defs)
  have no: "\<not> RawMonitorEnter M (mon s) 1 err m" for err m
    using enter_ok(1) [OF assms(1), of "mon s" 1 err m] h by auto
  assume "gcm_step M False s e s'"
  then show False by cases (use assms(3,4) no in \<open>auto simp: vm_stopped_def\<close>)
qed

section \<open>A monitor\<close>

text \<open>A raw monitor for the examples: its owner with the number of entries, and its sleepers.\<close>

type_synonym plain = "(nat \<times> nat) option \<times> (nat \<Rightarrow> bool)"

definition plain_monitor :: "plain raw_monitor" where
  "plain_monitor = \<lparr>mon_new = (None, \<lambda>_. False), hold = fst, asleep = snd,
     RawMonitorEnter = (\<lambda>m t err m'. err = 0 \<and> (fst m = None \<and> m' = (Some (t, 1), snd m)
       \<or> (\<exists>n. fst m = Some (t, n) \<and> m' = (Some (t, n + 1), snd m)))),
     RawMonitorExit = (\<lambda>m t err m'. err = 0 \<and> fst m = Some (t, 1) \<and> m' = (None, snd m)
       \<or> err = 0 \<and> (\<exists>n. fst m = Some (t, n + 2) \<and> m' = (Some (t, n + 1), snd m))
       \<or> err = 51 \<and> (\<forall>n. fst m \<noteq> Some (t, n)) \<and> m' = m),
     RawMonitorNotify = (\<lambda>m t err m'. err = 0 \<and> (\<exists>n. fst m = Some (t, n))
         \<and> (if \<exists>u. snd m u then \<exists>u. snd m u \<and> m' = (fst m, (snd m)(u := False)) else m' = m)
       \<or> err = 51 \<and> (\<forall>n. fst m \<noteq> Some (t, n)) \<and> m' = m),
     wait_call = (\<lambda>m t m'. fst m = Some (t, 1) \<and> m' = (None, (snd m)(t := True))),
     wait_return = (\<lambda>m t err m'. fst m = None \<and> (snd m t \<longrightarrow> err = 52) \<and> m' = (Some (t, 1), (snd m)(t := False)))\<rparr>"

lemma plain_monitor_ok: "raw_monitor_ok plain_monitor"
  by (auto simp: monitor_laws plain_monitor_def)

abbreviation pstate :: "(nat \<times> nat) option \<Rightarrow> bool \<Rightarrow> 32 word \<Rightarrow> worker_pc \<Rightarrow> vm_pc \<Rightarrow> nat \<Rightarrow> nat \<Rightarrow> nat \<Rightarrow> plain gcm" where
  "pstate h a c o1 g n k d \<equiv> \<lparr>mon = (h, (\<lambda>_. False)(0 := a)), gc_count = c, opc = o1, gpc = g, starts = n,
     taken = k, dumped = d\<rparr>"

lemma plain_start: "gcm_start plain_monitor = pstate None False 0 OEnter GRunning 0 0 0"
  by (simp add: gcm_start_def plain_monitor_def)

abbreviation pstep :: "bool \<Rightarrow> plain gcm \<Rightarrow> gcm_event \<Rightarrow> plain gcm \<Rightarrow> bool" where
  "pstep \<equiv> gcm_step plain_monitor"

lemma p_enter:
  "pstep b (pstate None a c OEnter g n k d) WorkerEnter (pstate (Some (0, 1)) a c OTest g n k d)"
  using o_enter [where M = plain_monitor and while_stopped = b and s = "pstate None a c OEnter g n k d" and err = 0 and m = "(Some (0, 1), (\<lambda>_. False)(0 := a))"]
  by (simp add: plain_monitor_def)

lemma p_wait:
  "pstep b (pstate (Some (0, 1)) a 0 OTest g n k d) WorkerWait (pstate None True 0 OWait g n k d)"
  using o_wait [where M = plain_monitor and while_stopped = b and s = "pstate (Some (0, 1)) a 0 OTest g n k d" and m = "(None, (\<lambda>_. False)(0 := True))"]
  by (simp add: plain_monitor_def)

lemma p_reset:
  "c \<noteq> 0 \<Longrightarrow> pstep b (pstate h a c OTest g n k d) WorkerReset (pstate h a 0 OTrace g n n d)"
  using o_reset [where M = plain_monitor and while_stopped = b and s = "pstate h a c OTest g n k d"]
  by (simp add: plain_monitor_def)

lemma p_traced:
  "pstep b (pstate h a c OTrace GRunning n k d) WorkerTraced (pstate h a c OExit GRunning n k k)"
  using o_traced [where M = plain_monitor and while_stopped = b and s = "pstate h a c OTrace GRunning n k d"]
  by (simp add: vm_stopped_def)

lemma p_exit:
  "pstep b (pstate (Some (0, 1)) a c OExit g n k d) WorkerExit (pstate None a c OEnter g n k d)"
  using o_exit [where M = plain_monitor and while_stopped = b and s = "pstate (Some (0, 1)) a c OExit g n k d" and err = 0 and m = "(None, (\<lambda>_. False)(0 := a))"]
  by (simp add: plain_monitor_def)

lemma p_gc_start:
  "pstep b (pstate h a c w GRunning n k d) GcStart (pstate h a c w GEnter n k d)"
  using g_start [where M = plain_monitor and while_stopped = b and s = "pstate h a c w GRunning n k d"]
  by (simp add: plain_monitor_def)

lemma p_gc_enter:
  "pstep b (pstate None a c w GEnter n k d) GcEnter (pstate (Some (1, 1)) a c w GCount n k d)"
  using g_enter [where M = plain_monitor and while_stopped = b and s = "pstate None a c w GEnter n k d" and err = 0 and m = "(Some (1, 1), (\<lambda>_. False)(0 := a))"]
  by (simp add: plain_monitor_def CHECK_ERR_def)

lemma p_gc_count:
  "pstep b (pstate h a c w GCount n k d) GcCount (pstate h a (c + 1) w GNotify (Suc n) k d)"
  using g_count [where M = plain_monitor and while_stopped = b and s = "pstate h a c w GCount n k d"]
  by (simp add: plain_monitor_def)

lemma plain_notify:
  "RawMonitorNotify plain_monitor (Some (1, 1), (\<lambda>_. False)(0 := a)) 1 0 (Some (1, 1), (\<lambda>_. False)(0 := False))"
  by (cases a) (auto simp: plain_monitor_def intro: exI [of _ "0 :: nat"])

lemma p_gc_notify:
  "pstep b (pstate (Some (1, 1)) a c w GNotify n k d) GcNotify (pstate (Some (1, 1)) False c w GExit n k d)"
  using g_notify [where M = plain_monitor and while_stopped = b and s = "pstate (Some (1, 1)) a c w GNotify n k d"
      and err = 0, simplified, OF plain_notify [simplified]]
  by (simp add: CHECK_ERR_def)

lemma p_gc_return:
  "pstep b (pstate (Some (1, 1)) a c w GExit n k d) GcReturn (pstate None a c w GCollecting n k d)"
  using g_exit [where M = plain_monitor and while_stopped = b and s = "pstate (Some (1, 1)) a c w GExit n k d" and err = 0 and m = "(None, (\<lambda>_. False)(0 := a))"]
  by (simp add: plain_monitor_def CHECK_ERR_def)

lemma p_gc_finish:
  "pstep b (pstate h a c w GCollecting n k d) GcFinish (pstate h a c w GRunning n k d)"
  using g_finish [where M = plain_monitor and while_stopped = b and s = "pstate h a c w GCollecting n k d"]
  by (simp add: plain_monitor_def)

lemma plain_collection:
  "lrun (pstep b) (pstate None a c w GRunning n k d) [GcStart, GcEnter, GcCount, GcNotify, GcReturn, GcFinish]
     (pstate None False (c + 1) w GRunning (Suc n) k d)"
  by (rule lrun_Cons [of "pstep b", OF p_gc_start lrun_Cons [of "pstep b", OF p_gc_enter
        lrun_Cons [of "pstep b", OF p_gc_count lrun_Cons [of "pstep b", OF p_gc_notify
        lrun_Cons [of "pstep b", OF p_gc_return lrun_Cons [of "pstep b", OF p_gc_finish]]]]]])
    (rule lrun.lrun_nil)

section \<open>Properties\<close>

text \<open>
  C16. No collection is lost: whenever the worker sleeps without having been notified and
  \<open>gc_start\<close> does not hold the monitor, a dump of the stacks has been finished for every collection
  counted so far, as long as the counter has not run over its range.
\<close>

theorem gc_monitor_no_lost_collection:
  assumes "raw_monitor_ok M" and "lrun (gcm_step M b) (gcm_start M) es s"
    and "asleep M (mon s) 0" and "gpc s \<in> {GRunning, GEnter, GCollecting}" and "starts s < 2 ^ 31"
  shows "gc_count s = 0 \<and> dumped s = starts s"
proof -
  have ok: "gcm_ok M s" by (rule gcm_run_ok [OF assms(1,2)])
  then have "opc s = OWait" and st: "starts s = taken s" using assms(3-5) by (auto simp: gcm_ok_def)
  with ok show ?thesis by (simp add: gcm_ok_def)
qed

lemma gc_monitor_no_lost_collection_witness:
  "\<exists>es s. lrun (pstep False) (gcm_start plain_monitor) es s \<and> asleep plain_monitor (mon s) 0
     \<and> starts s = 1 \<and> dumped s = 1"
proof -
  let ?s = "pstate None True 0 OWait GRunning 1 1 1"
  have w: "lrun (pstep False) (pstate None False (0 + 1) OEnter GRunning (Suc 0) 0 0)
      [WorkerEnter, WorkerReset, WorkerTraced, WorkerExit, WorkerEnter, WorkerWait] ?s"
    by (rule lrun_Cons [of "pstep False", OF p_enter lrun_Cons [of "pstep False", OF p_reset
          lrun_Cons [of "pstep False", OF p_traced lrun_Cons [of "pstep False", OF p_exit
          lrun_Cons [of "pstep False", OF p_enter lrun_Cons [of "pstep False", OF p_wait]]]]]])
      (simp, simp, rule lrun.lrun_nil)
  have run: "lrun (pstep False) (gcm_start plain_monitor) ([GcStart, GcEnter, GcCount, GcNotify, GcReturn, GcFinish]
      @ [WorkerEnter, WorkerReset, WorkerTraced, WorkerExit, WorkerEnter, WorkerWait]) ?s"
    unfolding plain_start by (rule lrun_append [OF plain_collection w])
  have "asleep plain_monitor (mon ?s) 0" by (simp add: plain_monitor_def)
  from gc_monitor_no_lost_collection [OF plain_monitor_ok run this] run this show ?thesis
    by (intro exI [of _ ?s] exI) (auto intro: run)
qed

text \<open>
  C15. The dump can deadlock with the collector: the worker holds the monitor while it asks for the
  stacks. If the JVM does not answer that request while it is stopped for a collection, then once
  \<open>gc_start\<close> has been called during the dump no step of either thread is possible any more.
\<close>

theorem gc_monitor_deadlock:
  assumes "raw_monitor_ok M" and "lrun (gcm_step M False) (gcm_start M) es s"
    and "opc s = OTrace" and "gpc s = GEnter" and "lrun (gcm_step M False) s es' s'"
  shows "es' = [] \<and> s' = s"
  using assms(5)
proof (induction rule: lrun.induct)
  case (lrun_snoc es' t e u)
  then have "gcm_step M False s e u" by simp
  then show ?case using stuck_step [OF assms(1) gcm_run_ok [OF assms(1,2)] assms(3,4)] by blast
qed simp

lemma gc_monitor_deadlock_witness:
  "\<exists>es s. lrun (pstep False) (gcm_start plain_monitor) es s \<and> opc s = OTrace \<and> gpc s = GEnter
     \<and> {(es', s'). lrun (pstep False) s es' s'} = {([], s)}"
proof -
  let ?s = "pstate (Some (0, 1)) False 0 OTrace GEnter (Suc 0) (Suc 0) 0"
  have w: "lrun (pstep False) (pstate None False (0 + 1) OEnter GRunning (Suc 0) 0 0)
      [WorkerEnter, WorkerReset, GcStart] ?s"
    by (rule lrun_Cons [of "pstep False", OF p_enter lrun_Cons [of "pstep False", OF p_reset
          lrun_Cons [of "pstep False", OF p_gc_start]]]) (simp, rule lrun.lrun_nil)
  have run: "lrun (pstep False) (gcm_start plain_monitor) ([GcStart, GcEnter, GcCount, GcNotify, GcReturn, GcFinish]
      @ [WorkerEnter, WorkerReset, GcStart]) ?s"
    unfolding plain_start by (rule lrun_append [OF plain_collection w])
  have "{(es', s'). lrun (pstep False) ?s es' s'} = {([], ?s)}"
    using gc_monitor_deadlock [OF plain_monitor_ok run] by auto
  with run show ?thesis by (intro exI [of _ ?s] exI) auto
qed

text \<open>
  Mutual exclusion and no exception: in every reachable state at most one of the worker and
  \<open>gc_start\<close> is between entering and leaving the monitor, and no call of \<open>gc_start\<close> throws.
\<close>

theorem gc_monitor_exclusion:
  assumes "raw_monitor_ok M" and "lrun (gcm_step M b) (gcm_start M) es s"
  shows "\<not> (worker_holds (opc s) \<and> vm_holds (gpc s)) \<and> (\<forall>e. gpc s \<noteq> GThrown e)
    \<and> hold M (mon s) = (if worker_holds (opc s) then Some (0, 1) else if vm_holds (gpc s) then Some (1, 1) else None)"
  using gcm_run_ok [OF assms] unfolding gcm_ok_def by blast

lemma gc_monitor_exclusion_witness:
  "hold plain_monitor (mon (pstate None False (0 + 1) OEnter GRunning (Suc 0) 0 0)) = None"
  using gc_monitor_exclusion [OF plain_monitor_ok plain_collection
      [of False False 0 OEnter 0 0 0, folded plain_start]]
  by (simp add: holds_defs)

end
