(* ===== verification/Hook_Inject.thy ===== *)
theory Hook_Inject
  imports Jvm_Base
begin

text \<open>
  \<^verbatim>\<open>src/src/trace.h\<close>: the notes from which \<open>tt.cpp\<close> was made, for a 64-bit target. Stopping a process, finding
  a symbol in its libraries, loading a library into it by calling \<open>dlopen\<close>, and replacing an
  entry of its global offset table. The file uses functions and constants that the repository
  does not have (\<open>ptrace_getdata\<close>, \<open>ptrace_getstr\<close>, \<open>ptrace_setdata\<close>, \<open>get_dyn_info\<close>, \<open>error_msg\<close>,
  \<open>STRLEN\<close>, \<open>IMAGE_ADDR\<close>): they are the fields of a record. The only law used of them is
  that \<open>ptrace_getdata\<close> reads, as the comments at its calls say; of what \<open>ptrace_setdata\<close> writes nothing
  is assumed, so nothing is stated of the memory after a write. What a variable holds before it is assigned is an argument; other undefined actions of C
  are error values; \<open>None\<close> is a loop that never ends.
\<close>

section \<open>The process and the functions used\<close>

type_synonym mem64 = "u64 \<Rightarrow> byte"

text \<open>\<open>gprs\<close> are the registers the code does not name.\<close>

record regs64 =
  rsp :: u64
  rdi :: u64
  rsi :: u64
  rip :: u64
  gprs :: "u64 list"

record proc64 =
  pmem :: mem64
  pregs :: regs64

text \<open>What \<open>handle_one_lmap\<close> and \<open>get_dyn_info\<close> give.\<close>

record lmap_result =
  symtab :: u64
  strtab :: u64
  jmprel :: u64
  reldyn :: u64
  link_addr :: u64
  nsymbols :: u64
  nrelplts :: u64
  nreldyns :: u64

text \<open>
  \<open>msg_exits\<close>: whether \<open>error_msg\<close> ends the program; \<open>usable\<close>: the bytes that may be used of a block
  of \<open>malloc\<close>; \<open>get_dyn_info\<close> answers with a null pointer as \<open>None\<close>.
\<close>

record trace_lib =
  ptrace_getdata :: "mem64 \<Rightarrow> u64 \<Rightarrow> nat \<Rightarrow> byte list"
  ptrace_getstr :: "mem64 \<Rightarrow> u64 \<Rightarrow> nat \<Rightarrow> byte list"
  ptrace_setdata :: "u64 \<Rightarrow> byte list \<Rightarrow> mem64 \<Rightarrow> mem64"
  get_dyn_info :: "mem64 \<Rightarrow> lmap_result option"
  msg_exits :: bool
  usable :: "nat \<Rightarrow> nat"
  STRLEN :: nat
  image_addr :: u64

datatype trace_error =
    Message string
  | NullPointer
  | IntOverflow
  | HeapOverflow

text \<open>\<open>error_msg\<close> and then the rest of the function, if it returns.\<close>

definition error_msg :: "trace_lib \<Rightarrow> string \<Rightarrow> trace_error + 'a \<Rightarrow> trace_error + 'a" where
  "error_msg L msg rest = (if msg_exits L then Inl (Message msg) else rest)"

definition ptrace_attach :: "trace_lib \<Rightarrow> int \<Rightarrow> proc64 \<Rightarrow> trace_error + regs64" where
  "ptrace_attach L ret p =
     (if ret < 0 then error_msg L ''ptrace_attach error'' (Inr (pregs p)) else Inr (pregs p))"

section \<open>ELF data\<close>

definition u64_at :: "nat \<Rightarrow> byte list \<Rightarrow> u64" where
  "u64_at off bs = of_nat (le_nat (take 8 (drop off bs)))"

definition nat_at :: "nat \<Rightarrow> nat \<Rightarrow> byte list \<Rightarrow> nat" where
  "nat_at len off bs = le_nat (take len (drop off bs))"

record link_map64 =
  l_addr :: u64
  l_name :: u64
  l_ld :: u64
  l_next :: u64

record elf64_dyn =
  d_tag :: u64
  d_un :: u64

record elf64_sym =
  st_name :: nat
  st_value :: u64
  st_size :: u64

record elf64_phdr =
  p_type :: nat
  p_vaddr :: u64
  p_memsz :: u64

definition get_link_map :: "trace_lib \<Rightarrow> mem64 \<Rightarrow> u64 \<Rightarrow> link_map64" where
  "get_link_map L m a =
     (let bs = ptrace_getdata L m a 40 in
      \<lparr>l_addr = u64_at 0 bs, l_name = u64_at 8 bs, l_ld = u64_at 16 bs, l_next = u64_at 24 bs\<rparr>)"

definition get_dyn :: "trace_lib \<Rightarrow> mem64 \<Rightarrow> u64 \<Rightarrow> elf64_dyn" where
  "get_dyn L m a = (let bs = ptrace_getdata L m a 16 in \<lparr>d_tag = u64_at 0 bs, d_un = u64_at 8 bs\<rparr>)"

definition get_sym :: "trace_lib \<Rightarrow> mem64 \<Rightarrow> u64 \<Rightarrow> elf64_sym" where
  "get_sym L m a =
     (let bs = ptrace_getdata L m a 24 in
      \<lparr>st_name = nat_at 4 0 bs, st_value = u64_at 8 bs, st_size = u64_at 16 bs\<rparr>)"

definition get_phdr :: "trace_lib \<Rightarrow> mem64 \<Rightarrow> u64 \<Rightarrow> elf64_phdr" where
  "get_phdr L m a =
     (let bs = ptrace_getdata L m a 56 in
      \<lparr>p_type = nat_at 4 0 bs, p_vaddr = u64_at 16 bs, p_memsz = u64_at 40 bs\<rparr>)"

section \<open>The list of libraries\<close>

text \<open>
  The first loop of \<open>get_linkmap\<close>, over \<open>e_phnum\<close> program headers from the \<open>i\<close>th on: \<open>dyn_addr\<close>, a
  global that keeps its old value when there is no dynamic section, and the header read last.
\<close>

function phdr_loop ::
    "trace_lib \<Rightarrow> mem64 \<Rightarrow> u64 \<Rightarrow> nat \<Rightarrow> nat \<Rightarrow> u64 \<Rightarrow> elf64_phdr \<Rightarrow> u64 \<times> elf64_phdr" where
  "phdr_loop L m phdr_addr e_phnum i dyn_addr phdr =
     (if i < e_phnum
      then (let ph = get_phdr L m (phdr_addr + of_nat i * 56) in
            if p_type ph = 2 then (p_vaddr ph, ph)
            else phdr_loop L m phdr_addr e_phnum (i + 1) dyn_addr ph)
      else (dyn_addr, phdr))"
  by pat_completeness auto
termination by (relation "measure (\<lambda>(L, m, a, e_phnum, i, d, ph). e_phnum - i)") auto

text \<open>The second loop; its counter is an \<open>int\<close>. \<open>gotplt0\<close> is the value of \<open>gotplt\<close> before it.\<close>

function gotplt_loop :: "trace_lib \<Rightarrow> mem64 \<Rightarrow> u64 \<Rightarrow> nat \<Rightarrow> nat \<Rightarrow> u64 \<Rightarrow> trace_error + u64" where
  "gotplt_loop L m dyn_addr memsz i gotplt0 =
     (if i * 16 \<le> memsz
      then (let dyn = get_dyn L m (dyn_addr + of_nat i * 16) in
            if d_tag dyn = 3 then Inr (d_un dyn)
            else if i = 2 ^ 31 - 1 then Inl IntOverflow
            else gotplt_loop L m dyn_addr memsz (i + 1) gotplt0)
      else Inr gotplt0)"
  by pat_completeness auto
termination by (relation "measure (\<lambda>(L, m, a, memsz, i, g). Suc memsz - i)") auto

declare phdr_loop.simps [simp del] gotplt_loop.simps [simp del]

text \<open>
  \<open>get_linkmap\<close> with the old value of the global \<open>dyn_addr\<close> and the contents of the fresh block
  \<open>phdr\<close> and of \<open>gotplt\<close>; the new value of \<open>dyn_addr\<close> and the address found.
\<close>

definition get_linkmap64 ::
    "trace_lib \<Rightarrow> elf64_phdr \<Rightarrow> u64 \<Rightarrow> mem64 \<Rightarrow> u64 \<Rightarrow> trace_error + u64 \<times> u64" where
  "get_linkmap64 L phdr0 gotplt0 m dyn_addr0 =
     (let ehdr = ptrace_getdata L m (image_addr L) 64;
          phdr_addr = image_addr L + u64_at 32 ehdr in
      case phdr_loop L m phdr_addr (nat_at 2 56 ehdr) 0 dyn_addr0 phdr0 of (dyn_addr, phdr) \<Rightarrow>
        (let rest =
           (case gotplt_loop L m dyn_addr (unat (p_memsz phdr)) 0 gotplt0 of
              Inl e \<Rightarrow> Inl e
            | Inr gotplt \<Rightarrow>
                (let lmap = Inr (dyn_addr, u64_at 0 (ptrace_getdata L m (gotplt + 8) 8)) in
                 if gotplt = 0 then error_msg L ''cannot find the address of .got.plt'' lmap else lmap))
         in if dyn_addr = 0 then error_msg L ''cannot find the address of .dynamin'' rest else rest))"

section \<open>The tables of one library\<close>

text \<open>The local variables of \<open>handle_one_lmap\<close>.\<close>

record lmap_vars =
  v_symtab :: u64
  v_syment :: u64
  v_symsz :: u64
  v_strtab :: u64
  v_jmprel :: u64
  v_relpltsz :: u64
  v_reldyn :: u64
  v_reldynsz :: u64
  v_relent :: u64

text \<open>The \<open>switch\<close>; \<open>DT_SYMINSZ\<close> is \<open>0x6ffffdfe\<close>.\<close>

definition apply_dyn64 :: "elf64_dyn \<Rightarrow> lmap_vars \<Rightarrow> lmap_vars" where
  "apply_dyn64 d v =
     (if d_tag d = 6 then v\<lparr>v_symtab := d_un d\<rparr>
      else if d_tag d = 11 then v\<lparr>v_syment := d_un d\<rparr>
      else if d_tag d = 0x6ffffdfe then v\<lparr>v_symsz := d_un d\<rparr>
      else if d_tag d = 5 then v\<lparr>v_strtab := d_un d\<rparr>
      else if d_tag d = 23 then v\<lparr>v_jmprel := d_un d\<rparr>
      else if d_tag d = 2 then v\<lparr>v_relpltsz := d_un d\<rparr>
      else if d_tag d = 17 \<or> d_tag d = 7 then v\<lparr>v_reldyn := d_un d\<rparr>
      else if d_tag d = 19 \<or> d_tag d = 9 then v\<lparr>v_relent := d_un d\<rparr>
      else if d_tag d = 18 \<or> d_tag d = 8 then v\<lparr>v_reldynsz := d_un d\<rparr>
      else v)"

text \<open>
  The address is an integer, so \<open>dyn_addr += sizeof(Elf_Dyn)/sizeof(Elf_Addr)\<close> moves it by two bytes.
\<close>

definition dyn_stride :: u64 where
  "dyn_stride = of_nat (16 div 8)"

partial_function (option) lmap_loop :: "trace_lib \<Rightarrow> mem64 \<Rightarrow> u64 \<Rightarrow> elf64_dyn \<Rightarrow> lmap_vars \<Rightarrow> lmap_vars option" where
  "lmap_loop L m dyn_addr dyn v =
     (if d_tag dyn = 0 then Some v
      else lmap_loop L m (dyn_addr + dyn_stride) (get_dyn L m (dyn_addr + dyn_stride)) (apply_dyn64 dyn v))"

text \<open>What follows the loop; a null result is \<open>None\<close>.\<close>

definition lmap_of :: "u64 \<Rightarrow> lmap_vars \<Rightarrow> lmap_result option" where
  "lmap_of base v =
     (if v_syment v = 0 \<or> v_relent v = 0 then None
      else Some \<lparr>symtab = v_symtab v, strtab = v_strtab v, jmprel = v_jmprel v, reldyn = v_reldyn v,
             link_addr = base, nsymbols = v_symsz v div v_syment v, nrelplts = v_relpltsz v div v_relent v,
             nreldyns = v_reldynsz v div v_relent v\<rparr>)"

definition handle_one_lmap ::
    "trace_lib \<Rightarrow> lmap_vars \<Rightarrow> mem64 \<Rightarrow> link_map64 \<Rightarrow> lmap_result option option" where
  "handle_one_lmap L vars0 m lm =
     (case lmap_loop L m (l_ld lm) (get_dyn L m (l_ld lm)) vars0 of
        None \<Rightarrow> None
      | Some v \<Rightarrow> Some (lmap_of (l_addr lm) v))"

section \<open>Searching a symbol\<close>

definition is_null_sym :: "elf64_sym \<Rightarrow> bool" where
  "is_null_sym y \<longleftrightarrow> st_name y = 0 \<and> st_size y = 0 \<and> st_value y = 0"

text \<open>
  The test that ends the search: the first character is not printable. A \<open>char\<close> is signed, so
  the bytes from 128 on count as smaller than 32.
\<close>

definition bad_name :: "byte list \<Rightarrow> bool" where
  "bad_name buf \<longleftrightarrow>
     (case buf of [] \<Rightarrow> False | c # _ \<Rightarrow> c \<noteq> 0 \<and> (sint c < 32 \<or> c = 127))"

definition sym64_at :: "trace_lib \<Rightarrow> mem64 \<Rightarrow> lmap_result \<Rightarrow> nat \<Rightarrow> elf64_sym" where
  "sym64_at L m r i = get_sym L m (symtab r + of_nat i * 24)"

definition name_at :: "trace_lib \<Rightarrow> mem64 \<Rightarrow> lmap_result \<Rightarrow> elf64_sym \<Rightarrow> byte list" where
  "name_at L m r y = c_str (ptrace_getstr L m (strtab r + of_nat (st_name y)) 128)"

text \<open>
  The loop \<open>for(i = 0; i >= 0; i++)\<close>. The number of symbols plays no role; the counter overflows
  after \<open>2 ^ 31\<close> turns.
\<close>

function sym_loop64 :: "trace_lib \<Rightarrow> mem64 \<Rightarrow> lmap_result \<Rightarrow> byte list \<Rightarrow> nat \<Rightarrow> trace_error + u64" where
  "sym_loop64 L m r sym_name i =
     (let y = sym64_at L m r i;
          next_turn = (if 2 ^ 31 - 1 \<le> i then Inl IntOverflow else sym_loop64 L m r sym_name (i + 1)) in
      if is_null_sym y then next_turn
      else if bad_name (name_at L m r y) then Inr 0
      else if name_at L m r y = sym_name \<and> st_value y \<noteq> 0 then Inr (link_addr r + st_value y)
      else next_turn)"
  by pat_completeness auto
termination by (relation "measure (\<lambda>(L, m, r, sym_name, i). 2 ^ 31 - i)") auto

declare sym_loop64.simps [simp del]

definition find_symbol_in_linkmap64 ::
    "trace_lib \<Rightarrow> lmap_vars \<Rightarrow> mem64 \<Rightarrow> byte list \<Rightarrow> link_map64 \<Rightarrow> (trace_error + u64) option" where
  "find_symbol_in_linkmap64 L vars0 m sym_name lm =
     (case handle_one_lmap L vars0 m lm of
        None \<Rightarrow> None
      | Some None \<Rightarrow> Some (Inl NullPointer)
      | Some (Some r) \<Rightarrow> Some (sym_loop64 L m r sym_name 0))"

text \<open>The loop over the libraries; \<open>ptrace_getstr\<close> returns the length of what it read.\<close>

partial_function (option) find_symbol64 ::
    "trace_lib \<Rightarrow> lmap_vars \<Rightarrow> mem64 \<Rightarrow> byte list \<Rightarrow> u64 \<Rightarrow> (trace_error + u64) option" where
  "find_symbol64 L vars0 m sym_name lm_addr =
     (if lm_addr = 0 then Some (Inr 0)
      else
        (let lmap = get_link_map L m lm_addr in
         if l_name lmap = 0 then find_symbol64 L vars0 m sym_name (l_next lmap)
         else if c_str (ptrace_getstr L m (l_name lmap) 128) = [] then find_symbol64 L vars0 m sym_name (l_next lmap)
         else case find_symbol_in_linkmap64 L vars0 m sym_name lmap of
           None \<Rightarrow> None
         | Some r \<Rightarrow>
             (case r of
                Inl e \<Rightarrow> Some (Inl e)
              | Inr sym_addr \<Rightarrow>
                  if sym_addr \<noteq> 0 then Some (Inr sym_addr) else find_symbol64 L vars0 m sym_name (l_next lmap))))"

section \<open>Calling dlopen in the process\<close>

text \<open>The results of the two \<open>PTRACE_SETREGS\<close> requests and of \<open>PTRACE_CONT\<close>.\<close>

record inject_rets =
  set1 :: int
  cont :: int
  set2 :: int

abbreviation checked :: "trace_lib \<Rightarrow> int \<Rightarrow> string \<Rightarrow> trace_error + 'a \<Rightarrow> trace_error + 'a" where
  "checked L ret msg rest \<equiv> (if ret < 0 then error_msg L msg rest else rest)"

text \<open>\<open>RTLD_NOW | RTLD_GLOBAL | RTLD_NODELETE\<close>.\<close>

definition dlopen_mode :: u64 where
  "dlopen_mode = 0x2 + 0x100 + 0x1000"

definition inject_setup :: "trace_lib \<Rightarrow> u64 \<Rightarrow> byte list \<Rightarrow> proc64 \<Rightarrow> proc64" where
  "inject_setup L dlopen_addr path p =
     (let r = pregs p;
          m1 = ptrace_setdata L (rsp r) (le_bytes 8 0x666) (pmem p);
          m2 = ptrace_setdata L (rsp r + of_nat (STRLEN L)) (path @ [0]) m1 in
      p\<lparr>pmem := m2, pregs := r\<lparr>rdi := rsp r + of_nat (STRLEN L), rsi := dlopen_mode, rip := dlopen_addr + 2\<rparr>\<rparr>)"

text \<open>
  \<open>run\<close> is what the process does until it stops. A request that fails and whose error message
  returns has no effect.
\<close>

definition inject_code ::
    "trace_lib \<Rightarrow> inject_rets \<Rightarrow> (proc64 \<Rightarrow> proc64) \<Rightarrow> u64 \<Rightarrow> byte list \<Rightarrow> proc64 \<Rightarrow> trace_error + proc64" where
  "inject_code L rets run dlopen_addr path p =
     (let r = pregs p;
          sbuf1 = ptrace_getdata L (pmem p) (rsp r + of_nat (STRLEN L)) (STRLEN L);
          sbuf2 = ptrace_getdata L (pmem p) (rsp r) (STRLEN L);
          p1 = inject_setup L dlopen_addr path p;
          p2 = (if set1 rets < 0 then p1\<lparr>pregs := r\<rparr> else p1) in
      checked L (set1 rets) ''inject_code:PTRACE_SETREGS 1 failed!''
       (let p3 = (if cont rets < 0 then p2 else run p2) in
        checked L (cont rets) ''inject_code:PTRACE_CONT failed!''
         (let p4 = (if set2 rets < 0 then p3 else p3\<lparr>pregs := r\<rparr>) in
          checked L (set2 rets) ''inject_code:PTRACE_SETREGS 2 failed!''
           (Inr (p4\<lparr>pmem := ptrace_setdata L (rsp r) sbuf2
                      (ptrace_setdata L (rsp r + of_nat (STRLEN L)) sbuf1 (pmem p4))\<rparr>)))))"

section \<open>Replacing a function\<close>

definition ELF64_R_SYM :: "u64 \<Rightarrow> u64" where
  "ELF64_R_SYM info = drop_bit 32 info"

text \<open>
  The loop of \<open>find_sym_in_rel\<close>. Each turn reads the 24 bytes of an \<open>Elf_Rela\<close> into the block of an
  \<open>Elf_Rel\<close>, which has 16.
\<close>

function rel_loop64 :: "trace_lib \<Rightarrow> mem64 \<Rightarrow> lmap_result \<Rightarrow> byte list \<Rightarrow> nat \<Rightarrow> trace_error + u64" where
  "rel_loop64 L m r sym_name i =
     (if i < unat (nrelplts r)
      then if usable L 16 < 24 then Inl HeapOverflow
      else
        (let rel = ptrace_getdata L m (jmprel r + of_nat i * 24) 24;
             y = get_sym L m (symtab r + ELF64_R_SYM (u64_at 8 rel) * 24);
             str = c_str (ptrace_getstr L m (strtab r + of_nat (st_name y)) (STRLEN L)) in
         if str = sym_name then Inr (u64_at 0 rel)
         else if 2 ^ 31 - 1 \<le> i then Inl IntOverflow
         else rel_loop64 L m r sym_name (i + 1))
      else Inr 0)"
  by pat_completeness auto
termination by (relation "measure (\<lambda>(L, m, r, sym_name, i). unat (nrelplts r) - i)") auto

declare rel_loop64.simps [simp del]

definition find_sym_in_rel64 :: "trace_lib \<Rightarrow> mem64 \<Rightarrow> byte list \<Rightarrow> trace_error + u64" where
  "find_sym_in_rel64 L m sym_name =
     (case get_dyn_info L m of
        None \<Rightarrow> Inl NullPointer
      | Some r \<Rightarrow> rel_loop64 L m r sym_name 0)"

text \<open>The last statements: the entry of the table is overwritten with the address of the new function.\<close>

definition patch_got :: "trace_lib \<Rightarrow> byte list \<Rightarrow> u64 \<Rightarrow> mem64 \<Rightarrow> trace_error + mem64" where
  "patch_got L oldfunname new_sym_addr m =
     (case find_sym_in_rel64 L m oldfunname of
        Inl e \<Rightarrow> Inl e
      | Inr old_rel_addr \<Rightarrow> Inr (ptrace_setdata L old_rel_addr (le_bytes 8 (unat new_sym_addr)) m))"

text \<open>
  The statements between the functions, in their order: the three searches, then the call of
  \<open>dlopen\<close>, then the replacement. \<open>map\<close> is the head of the list of libraries.
\<close>

definition install_hook ::
    "trace_lib \<Rightarrow> lmap_vars \<Rightarrow> inject_rets \<Rightarrow> (proc64 \<Rightarrow> proc64) \<Rightarrow> u64 \<Rightarrow> byte list \<Rightarrow> byte list \<Rightarrow> byte list
     \<Rightarrow> proc64 \<Rightarrow> (trace_error + proc64) option" where
  "install_hook L vars0 rets run map0 oldfunname newfunname libpath p =
     (case find_symbol64 L vars0 (pmem p) oldfunname map0 of
        None \<Rightarrow> None
      | Some (Inl e) \<Rightarrow> Some (Inl e)
      | Some (Inr old_sym_addr) \<Rightarrow>
     (case find_symbol64 L vars0 (pmem p) newfunname map0 of
        None \<Rightarrow> None
      | Some (Inl e) \<Rightarrow> Some (Inl e)
      | Some (Inr new_sym_addr) \<Rightarrow>
     (case find_symbol64 L vars0 (pmem p) (str_bytes ''__libc_dlopen_mode'') map0 of
        None \<Rightarrow> None
      | Some (Inl e) \<Rightarrow> Some (Inl e)
      | Some (Inr dlopen_addr) \<Rightarrow>
     (case inject_code L rets run dlopen_addr libpath p of
        Inl e \<Rightarrow> Some (Inl e)
      | Inr p1 \<Rightarrow>
     (case patch_got L oldfunname new_sym_addr (pmem p1) of
        Inl e \<Rightarrow> Some (Inl e)
      | Inr m \<Rightarrow> Some (Inr (p1\<lparr>pmem := m\<rparr>)))))))"

section \<open>What the code relies on\<close>

text \<open>
  \<open>ptrace_getdata\<close> reads the bytes from an address on, as the comments at its calls say. Nothing is
  assumed of \<open>ptrace_setdata\<close>.
\<close>

definition getdata_reads :: "trace_lib \<Rightarrow> bool" where
  "getdata_reads L \<longleftrightarrow> (\<forall>m a n. ptrace_getdata L m a n = map (\<lambda>i. m (a + of_nat i)) [0..<n])"

lemma getdata_ok: "getdata_reads L \<Longrightarrow> ptrace_getdata L m a n = map (\<lambda>i. m (a + of_nat i)) [0..<n]"
  by (simp add: getdata_reads_def)

section \<open>Lemmas on the searches\<close>

text \<open>The symbols at which the search of one library ends.\<close>

definition ends_search :: "trace_lib \<Rightarrow> mem64 \<Rightarrow> lmap_result \<Rightarrow> byte list \<Rightarrow> nat \<Rightarrow> bool" where
  "ends_search L m r sym_name i \<longleftrightarrow>
     (let y = sym64_at L m r i in \<not> is_null_sym y
        \<and> (bad_name (name_at L m r y) \<or> name_at L m r y = sym_name \<and> st_value y \<noteq> 0))"

definition search_result :: "trace_lib \<Rightarrow> mem64 \<Rightarrow> lmap_result \<Rightarrow> nat \<Rightarrow> u64" where
  "search_result L m r i =
     (if bad_name (name_at L m r (sym64_at L m r i)) then 0 else link_addr r + st_value (sym64_at L m r i))"

lemma sym_loop64_find:
  assumes "i < N" and "N = 2 ^ 31"
  shows "sym_loop64 L m r sym_name i =
    (case find (ends_search L m r sym_name) [i..<N] of
       None \<Rightarrow> Inl IntOverflow | Some k \<Rightarrow> Inr (search_result L m r k))"
  using assms(1)
proof (induction "N - i" arbitrary: i)
  case (Suc d)
  have up: "[i..<N] = i # [Suc i..<N]" using Suc.prems by (rule upt_conv_Cons)
  show ?case
  proof (cases "ends_search L m r sym_name i")
    case True
    then show ?thesis
      by (auto simp: up sym_loop64.simps [of L m r sym_name i] ends_search_def search_result_def Let_def)
  next
    case no: False
    show ?thesis
    proof (cases "Suc i < N")
      case True
      then have "sym_loop64 L m r sym_name (Suc i) =
          (case find (ends_search L m r sym_name) [Suc i..<N] of
             None \<Rightarrow> Inl IntOverflow | Some k \<Rightarrow> Inr (search_result L m r k))"
        using Suc by (intro Suc.hyps(1)) auto
      moreover have "\<not> 2 ^ 31 - 1 \<le> i" using True assms(2) by simp
      ultimately show ?thesis using no
        by (auto simp: up sym_loop64.simps [of L m r sym_name i] ends_search_def Let_def)
    next
      case False
      then have "[Suc i..<N] = []" "2 ^ 31 - 1 \<le> i" using assms(2) by auto
      then show ?thesis using no
        by (auto simp: up sym_loop64.simps [of L m r sym_name i] ends_search_def Let_def)
    qed
  qed
qed simp

text \<open>A list of libraries in memory, from an address to the null pointer.\<close>

fun chain64 :: "trace_lib \<Rightarrow> mem64 \<Rightarrow> u64 \<Rightarrow> link_map64 list \<Rightarrow> bool" where
  "chain64 L m a [] \<longleftrightarrow> a = 0"
| "chain64 L m a (lm # lms) \<longleftrightarrow> a \<noteq> 0 \<and> get_link_map L m a = lm \<and> chain64 L m (l_next lm) lms"

text \<open>The libraries that are searched: those with a name.\<close>

definition has_name :: "trace_lib \<Rightarrow> mem64 \<Rightarrow> link_map64 \<Rightarrow> bool" where
  "has_name L m lm \<longleftrightarrow> l_name lm \<noteq> 0 \<and> c_str (ptrace_getstr L m (l_name lm) 128) \<noteq> []"

fun first_found :: "(link_map64 \<Rightarrow> trace_error + u64) \<Rightarrow> link_map64 list \<Rightarrow> trace_error + u64" where
  "first_found search [] = Inr 0"
| "first_found search (lm # lms) =
     (case search lm of
        Inl e \<Rightarrow> Inl e
      | Inr a \<Rightarrow> if a \<noteq> 0 then Inr a else first_found search lms)"

lemma find_symbol64_chain:
  assumes "chain64 L m a lms"
    and "\<And>lm. lm \<in> set lms \<Longrightarrow> has_name L m lm \<Longrightarrow> find_symbol_in_linkmap64 L v m sym_name lm = Some (search lm)"
  shows "find_symbol64 L v m sym_name a = Some (first_found search (filter (has_name L m) lms))"
  using assms
proof (induction lms arbitrary: a)
  case Nil
  then show ?case by (simp add: find_symbol64.simps)
next
  case (Cons lm lms)
  then have IH: "find_symbol64 L v m sym_name (l_next lm) = Some (first_found search (filter (has_name L m) lms))"
    by simp
  have lm: "a \<noteq> 0" "get_link_map L m a = lm" using Cons.prems(1) by auto
  show ?case
  proof (cases "has_name L m lm")
    case True
    with Cons.prems(2) have "find_symbol_in_linkmap64 L v m sym_name lm = Some (search lm)" by simp
    with True lm IH show ?thesis
      by (subst find_symbol64.simps) (simp add: has_name_def Let_def split: sum.splits)
  next
    case False
    with lm IH show ?thesis by (subst find_symbol64.simps) (auto simp: has_name_def Let_def)
  qed
qed

text \<open>Eight zero bytes are a null tag.\<close>

lemma le_nat_zeros: "(\<forall>b \<in> set bs. b = 0) \<Longrightarrow> le_nat bs = 0"
  by (induction bs) auto

lemma null_tag:
  assumes "getdata_reads L" and "\<forall>i < 8. m (a + of_nat i) = 0"
  shows "d_tag (get_dyn L m a) = 0"
proof -
  have "take 8 (ptrace_getdata L m a 16) = map (\<lambda>i. m (a + of_nat i)) [0..<8]"
    by (simp add: getdata_ok [OF assms(1)] take_map)
  then have "le_nat (take 8 (ptrace_getdata L m a 16)) = 0" using assms(2) by (intro le_nat_zeros) auto
  then show ?thesis by (simp add: get_dyn_def u64_at_def Let_def)
qed

text \<open>The second read of the walk finds a null tag between two entries.\<close>

lemma lmap_stops_early:
  assumes "getdata_reads L" and "d_tag (get_dyn L m (l_ld lm)) \<noteq> 0"
    and "\<forall>i. 2 \<le> i \<and> i < 10 \<longrightarrow> m (l_ld lm + of_nat i) = 0"
  shows "handle_one_lmap L v m lm = Some (lmap_of (l_addr lm) (apply_dyn64 (get_dyn L m (l_ld lm)) v))"
proof -
  have "m (l_ld lm + dyn_stride + of_nat i) = 0" if "i < 8" for i
    using assms(3) [rule_format, of "i + 2"] that by (simp add: dyn_stride_def algebra_simps)
  then have "d_tag (get_dyn L m (l_ld lm + dyn_stride)) = 0" using null_tag [OF assms(1)] by blast
  then show ?thesis using assms(2) by (simp add: handle_one_lmap_def lmap_loop.simps)
qed

section \<open>A process for the examples\<close>

text \<open>Functions on a memory of bytes, a buffer of 16 bytes and one relocation at address 64.\<close>

definition sample_lib :: trace_lib where
  "sample_lib = \<lparr>ptrace_getdata = (\<lambda>m a n. map (\<lambda>i. m (a + of_nat i)) [0..<n]),
     ptrace_getstr = (\<lambda>m a n. takeWhile (\<lambda>b. b \<noteq> 0) (map (\<lambda>i. m (a + of_nat i)) [0..<n])),
     ptrace_setdata = (\<lambda>a bs m x. if unat (x - a) < length bs then bs ! unat (x - a) else m x),
     get_dyn_info = (\<lambda>m. Some \<lparr>symtab = 128, strtab = 256, jmprel = 512, reldyn = 0, link_addr = 0,
       nsymbols = 1, nrelplts = 1, nreldyns = 0\<rparr>),
     msg_exits = True, usable = (\<lambda>n. n + 8), STRLEN = 16, image_addr = 0x400000\<rparr>"

lemma sample_lib_ok: "getdata_reads sample_lib"
  by (simp add: getdata_reads_def sample_lib_def)

abbreviation sample_regs :: regs64 where
  "sample_regs \<equiv> \<lparr>rsp = 0x7000, rdi = 1, rsi = 2, rip = 3, gprs = []\<rparr>"

abbreviation sample_vars :: lmap_vars where
  "sample_vars \<equiv> \<lparr>v_symtab = 0, v_syment = 24, v_symsz = 0, v_strtab = 0, v_jmprel = 0, v_relpltsz = 0,
     v_reldyn = 0, v_reldynsz = 0, v_relent = 24\<rparr>"

text \<open>A memory with one library named \<open>a\<close> at \<open>0x1000\<close>, whose first symbol is \<open>f\<close>.\<close>

definition example_mem :: mem64 where
  "example_mem = (\<lambda>_. 0)(0x1000 := 1, 0x1009 := 0x20, 0x1011 := 0x30, 0x2000 := 97, 0x3000 := 5, 0x300A := 1,
     8 := 0x40, 0x10000 := 102)"

abbreviation example_map :: link_map64 where
  "example_map \<equiv> \<lparr>l_addr = 1, l_name = 0x2000, l_ld = 0x3000, l_next = 0\<rparr>"

lemma sample_link_map: "get_link_map sample_lib example_mem 0x1000 = example_map"
  by (simp add: get_link_map_def sample_lib_def example_mem_def u64_at_def upt_rec)

lemma sample_names:
  "c_str (ptrace_getstr sample_lib example_mem 0x2000 128) = [97]"
  "c_str (ptrace_getstr sample_lib example_mem 0x10000 128) = str_bytes ''f''"
proof -
  have u: "[0..<128] = 0 # 1 # [2..<(128::nat)]" by (simp add: upt_conv_Cons)
  show "c_str (ptrace_getstr sample_lib example_mem 0x2000 128) = [97]"
    "c_str (ptrace_getstr sample_lib example_mem 0x10000 128) = str_bytes ''f''"
    by (simp_all add: sample_lib_def u c_str_def example_mem_def str_bytes_def del: upt.simps)
qed

lemma sample_dyn: "get_dyn sample_lib example_mem 0x3000 = \<lparr>d_tag = 5, d_un = 0x10000\<rparr>"
  by (simp add: get_dyn_def sample_lib_def example_mem_def u64_at_def upt_rec)

lemma example_sym: "get_sym sample_lib example_mem 0 = \<lparr>st_name = 0, st_value = 0x40, st_size = 0\<rparr>"
  by (simp add: get_sym_def sample_lib_def example_mem_def u64_at_def nat_at_def upt_rec)

lemma sample_lmap:
  "handle_one_lmap sample_lib sample_vars example_mem example_map =
     Some (Some \<lparr>symtab = 0, strtab = 0x10000, jmprel = 0, reldyn = 0, link_addr = 1, nsymbols = 0,
       nrelplts = 0, nreldyns = 0\<rparr>)"
proof -
  have z: "\<forall>i. 2 \<le> i \<and> i < 10 \<longrightarrow> example_mem (l_ld example_map + of_nat i) = 0"
  proof (intro allI impI)
    fix i :: nat assume "2 \<le> i \<and> i < 10"
    then have "i \<in> {2, 3, 4, 5, 6, 7, 8, 9}" by auto
    then show "example_mem (l_ld example_map + of_nat i) = 0" by (auto simp: example_mem_def)
  qed
  show ?thesis
    using lmap_stops_early [OF sample_lib_ok _ z, of sample_vars]
    by (simp add: sample_dyn apply_dyn64_def lmap_of_def)
qed

lemma sample_search:
  "find_symbol_in_linkmap64 sample_lib sample_vars example_mem (str_bytes ''f'') example_map = Some (Inr 0x41)"
  by (simp add: find_symbol_in_linkmap64_def sample_lmap sym_loop64.simps [of _ _ _ _ 0] sym64_at_def example_sym
      is_null_sym_def name_at_def sample_names bad_name_def Let_def) (simp add: str_bytes_def)

section \<open>Properties\<close>

text \<open>
  C19. The new function is looked up too early. If none of the named libraries that the process has
  before the injection gives an address for it, as when it comes with the library that is to be
  loaded, then the sequence, once the other searches and the call of \<open>dlopen\<close> succeed, ends by
  asking for a null pointer to be written to the entry of the old function, whatever the
  process loaded meanwhile.
\<close>

theorem install_hook_stores_null:
  assumes "chain64 L (pmem p) map0 lms"
    and "\<forall>lm \<in> set lms. has_name L (pmem p) lm \<longrightarrow>
           find_symbol_in_linkmap64 L v (pmem p) newfunname lm = Some (Inr 0)"
    and "find_symbol64 L v (pmem p) oldfunname map0 = Some (Inr a)"
    and "find_symbol64 L v (pmem p) (str_bytes ''__libc_dlopen_mode'') map0 = Some (Inr d)"
    and "inject_code L rets run d libpath p = Inr p1"
    and "find_sym_in_rel64 L (pmem p1) oldfunname = Inr rel"
  shows "install_hook L v rets run map0 oldfunname newfunname libpath p
    = Some (Inr (p1\<lparr>pmem := ptrace_setdata L rel (replicate 8 0) (pmem p1)\<rparr>))"
proof -
  have "first_found (\<lambda>_. Inr 0) xs = Inr 0" for xs by (induction xs) simp_all
  then have new: "find_symbol64 L v (pmem p) newfunname map0 = Some (Inr 0)"
    using find_symbol64_chain [OF assms(1), of v newfunname "\<lambda>_. Inr 0"] assms(2) by simp
  have "le_bytes k 0 = replicate k 0" for k by (induction k) simp_all
  then show ?thesis using assms(3-6) new by (simp add: install_hook_def patch_got_def)
qed

text \<open>
  The example's library with a symbol whose name cannot be printed, so that no search finds
  anything, and a relocation of the function \<open>f\<close> at \<open>0x40\<close>.
\<close>

definition hidden_mem :: mem64 where
  "hidden_mem = example_mem(0x10000 := 5, 256 := 102, 512 := 0x40)"

abbreviation hidden_proc :: proc64 where
  "hidden_proc \<equiv> \<lparr>pmem = hidden_mem, pregs = sample_regs\<rparr>"

lemma hidden_link_map: "get_link_map sample_lib hidden_mem 0x1000 = example_map"
  by (simp add: get_link_map_def sample_lib_def hidden_mem_def example_mem_def u64_at_def upt_rec)

lemma hidden_names:
  "c_str (ptrace_getstr sample_lib hidden_mem 0x2000 128) = [97]"
  "c_str (ptrace_getstr sample_lib hidden_mem 0x10000 128) = [5]"
proof -
  have u: "[0..<128] = 0 # 1 # [2..<(128::nat)]" by (simp add: upt_conv_Cons)
  show "c_str (ptrace_getstr sample_lib hidden_mem 0x2000 128) = [97]"
    "c_str (ptrace_getstr sample_lib hidden_mem 0x10000 128) = [5]"
    by (simp_all add: sample_lib_def u c_str_def hidden_mem_def example_mem_def del: upt.simps)
qed

lemma hidden_lmap:
  "\<exists>r. handle_one_lmap sample_lib sample_vars hidden_mem example_map = Some (Some r) \<and> symtab r = 0 \<and> strtab r = 0x10000"
proof -
  have z: "\<forall>i. 2 \<le> i \<and> i < 10 \<longrightarrow> hidden_mem (l_ld example_map + of_nat i) = 0"
  proof (intro allI impI)
    fix i :: nat assume "2 \<le> i \<and> i < 10"
    then have "i \<in> {2, 3, 4, 5, 6, 7, 8, 9}" by auto
    then show "hidden_mem (l_ld example_map + of_nat i) = 0" by (auto simp: hidden_mem_def example_mem_def)
  qed
  have "get_dyn sample_lib hidden_mem 0x3000 = \<lparr>d_tag = 5, d_un = 0x10000\<rparr>"
    by (simp add: get_dyn_def sample_lib_def hidden_mem_def example_mem_def u64_at_def upt_rec)
  then show ?thesis
    using lmap_stops_early [OF sample_lib_ok _ z, of sample_vars] by (simp add: apply_dyn64_def lmap_of_def)
qed

lemma hidden_search: "find_symbol_in_linkmap64 sample_lib sample_vars hidden_mem nm example_map = Some (Inr 0)"
proof -
  obtain r where r: "handle_one_lmap sample_lib sample_vars hidden_mem example_map = Some (Some r)"
    "symtab r = 0" "strtab r = 0x10000" using hidden_lmap by blast
  have "get_sym sample_lib hidden_mem 0 = \<lparr>st_name = 0, st_value = 0x40, st_size = 0\<rparr>"
    by (simp add: get_sym_def sample_lib_def hidden_mem_def example_mem_def u64_at_def nat_at_def upt_rec)
  then show ?thesis
    by (simp add: find_symbol_in_linkmap64_def r sym_loop64.simps [of _ _ _ _ 0] sym64_at_def is_null_sym_def
        name_at_def hidden_names bad_name_def Let_def)
qed

lemma install_hook_stores_null_witness:
  "\<exists>p1. inject_code sample_lib \<lparr>set1 = 0, cont = 0, set2 = 0\<rparr> (\<lambda>q. q\<lparr>pregs := (pregs q)\<lparr>rip := 0x666\<rparr>\<rparr>) 0
        (str_bytes ''/h.so'') hidden_proc = Inr p1
    \<and> install_hook sample_lib sample_vars \<lparr>set1 = 0, cont = 0, set2 = 0\<rparr> (\<lambda>q. q\<lparr>pregs := (pregs q)\<lparr>rip := 0x666\<rparr>\<rparr>) 0x1000
        (str_bytes ''f'') (str_bytes ''hook'') (str_bytes ''/h.so'') hidden_proc
      = Some (Inr (p1\<lparr>pmem := ptrace_setdata sample_lib 0x40 (replicate 8 0) (pmem p1)\<rparr>))"
proof -
  let ?rets = "\<lparr>set1 = 0, cont = 0, set2 = 0\<rparr>" and ?run = "\<lambda>q. q\<lparr>pregs := (pregs q)\<lparr>rip := 0x666\<rparr>\<rparr>"
  obtain p1 where p1: "inject_code sample_lib ?rets ?run 0 (str_bytes ''/h.so'') hidden_proc = Inr p1"
    and far: "\<And>x. 32 \<le> unat (x - 0x7000) \<Longrightarrow> 32 \<le> unat (x - 0x7010) \<Longrightarrow> pmem p1 x = hidden_mem x"
    by (simp add: inject_code_def inject_setup_def Let_def sample_lib_def str_bytes_def)
  have chain: "chain64 sample_lib (pmem hidden_proc) 0x1000 [example_map]" using hidden_link_map by simp
  have none: "find_symbol64 sample_lib sample_vars (pmem hidden_proc) nm 0x1000 = Some (Inr 0)" for nm
    using find_symbol64_chain [OF chain, of sample_vars nm "\<lambda>_. Inr 0"] hidden_search by simp
  have rel: "find_sym_in_rel64 sample_lib (pmem p1) (str_bytes ''f'') = Inr 0x40"
  proof -
    have "usable sample_lib 16 = 24" "STRLEN sample_lib = 16" by (simp_all add: sample_lib_def)
    moreover have "u64_at 0 (ptrace_getdata sample_lib (pmem p1) 512 24) = 0x40"
      "u64_at 8 (ptrace_getdata sample_lib (pmem p1) 512 24) = 0"
      by (simp_all add: u64_at_def sample_lib_def far hidden_mem_def example_mem_def upt_rec)
    moreover have "get_sym sample_lib (pmem p1) 128 = \<lparr>st_name = 0, st_value = 0, st_size = 0\<rparr>"
      by (simp add: get_sym_def sample_lib_def far hidden_mem_def example_mem_def u64_at_def nat_at_def upt_rec)
    moreover have "c_str (ptrace_getstr sample_lib (pmem p1) 256 16) = str_bytes ''f''"
      by (simp add: sample_lib_def far hidden_mem_def example_mem_def c_str_def str_bytes_def upt_rec)
    moreover obtain r where "get_dyn_info sample_lib (pmem p1) = Some r" "nrelplts r = 1" "jmprel r = 512"
      "symtab r = 128" "strtab r = 256" by (simp add: sample_lib_def)
    ultimately show ?thesis
      by (simp add: find_sym_in_rel64_def rel_loop64.simps [of _ _ _ _ 0] ELF64_R_SYM_def Let_def)
  qed
  have "\<forall>lm \<in> set [example_map]. has_name sample_lib (pmem hidden_proc) lm \<longrightarrow>
      find_symbol_in_linkmap64 sample_lib sample_vars (pmem hidden_proc) (str_bytes ''hook'') lm = Some (Inr 0)"
    using hidden_search by simp
  from install_hook_stores_null [OF chain this none none p1 rel] p1 show ?thesis by blast
qed

text \<open>
  C36. The search in one library equals a reference: the first symbol, over all indices an \<open>int\<close> can
  count, that is not empty and either has a name that does not begin with a printable character,
  which gives 0, or has the name sought and a value, which gives its address. There is no other
  end: the size of the symbol table is not used, and without such a symbol the counter overflows.
\<close>

theorem sym_loop64_is_find:
  "sym_loop64 L m r sym_name 0 =
    (case find (ends_search L m r sym_name) [0..<2 ^ 31] of
       None \<Rightarrow> Inl IntOverflow | Some k \<Rightarrow> Inr (search_result L m r k))"
  by (rule sym_loop64_find) simp_all

text \<open>
  The libraries are searched in order: on a list that ends, if the search of every named
  library ends, \<open>find_symbol\<close> ends, and its result is that of the first named library with a
  non-zero address or an error, and 0 if there is none.
\<close>

theorem find_symbol64_first:
  assumes "chain64 L m a lms"
    and "\<forall>lm \<in> set lms. has_name L m lm \<longrightarrow> find_symbol_in_linkmap64 L v m sym_name lm = Some (search lm)"
  shows "find_symbol64 L v m sym_name a = Some (first_found search (filter (has_name L m) lms))"
  using assms by (intro find_symbol64_chain) auto

lemma find_symbol64_first_witness:
  "find_symbol64 sample_lib sample_vars example_mem (str_bytes ''f'') 0x1000 = Some (Inr 0x41)"
proof -
  have chain: "chain64 sample_lib example_mem 0x1000 [example_map]" using sample_link_map by simp
  have name: "has_name sample_lib example_mem example_map" by (simp add: has_name_def sample_names)
  have "\<forall>lm \<in> set [example_map]. has_name sample_lib example_mem lm \<longrightarrow>
      find_symbol_in_linkmap64 sample_lib sample_vars example_mem (str_bytes ''f'') lm = Some (Inr 0x41)"
    using sample_search by simp
  from find_symbol64_first [OF chain this] name show ?thesis by simp
qed

text \<open>
  C37. The walk over a dynamic section moves by two bytes instead of a whole entry: when the first
  entry has a tag below \<open>2 ^ 16\<close> and a value that is a multiple of \<open>2 ^ 16\<close>, the walk takes the bytes in
  between for the end of the section, and every later entry is ignored.
\<close>

theorem handle_one_lmap_stops_early:
  assumes "getdata_reads L" and "d_tag (get_dyn L m (l_ld lm)) \<noteq> 0"
    and "\<forall>i. 2 \<le> i \<and> i < 10 \<longrightarrow> m (l_ld lm + of_nat i) = 0"
  shows "handle_one_lmap L v m lm = Some (lmap_of (l_addr lm) (apply_dyn64 (get_dyn L m (l_ld lm)) v))"
  by (rule lmap_stops_early [OF assms])

lemma handle_one_lmap_stops_early_witness:
  "handle_one_lmap sample_lib sample_vars ((\<lambda>_. 0)(0x1000 := 5, 0x100A := 1, 0x1010 := 6))
     \<lparr>l_addr = 0, l_name = 0, l_ld = 0x1000, l_next = 0\<rparr>
   = Some (Some \<lparr>symtab = 0, strtab = 0x10000, jmprel = 0, reldyn = 0, link_addr = 0, nsymbols = 0, nrelplts = 0,
       nreldyns = 0\<rparr>)"
proof -
  let ?m = "(\<lambda>_. 0)(0x1000 := 5, 0x100A := 1, 0x1010 := 6) :: mem64"
    and ?lm = "\<lparr>l_addr = 0, l_name = 0, l_ld = 0x1000, l_next = 0\<rparr>"
  have d: "get_dyn sample_lib ?m (l_ld ?lm) = \<lparr>d_tag = 5, d_un = 0x10000\<rparr>"
    by (simp add: get_dyn_def sample_lib_def u64_at_def upt_rec)
  have z: "\<forall>i. 2 \<le> i \<and> i < 10 \<longrightarrow> ?m (l_ld ?lm + of_nat i) = 0"
  proof (intro allI impI)
    fix i :: nat assume "2 \<le> i \<and> i < 10"
    then have "i \<in> {2, 3, 4, 5, 6, 7, 8, 9}" by auto
    then show "?m (l_ld ?lm + of_nat i) = 0" by auto
  qed
  have "d_tag (get_dyn sample_lib ?m (l_ld ?lm)) \<noteq> 0" by (simp only: d) simp
  from handle_one_lmap_stops_early [OF sample_lib_ok this z, where v = sample_vars] show ?thesis
    unfolding d by (simp add: apply_dyn64_def lmap_of_def del: fun_upd_apply)
qed

end
