(* ===== verification/Int_Types.thy ===== *)
theory Int_Types
  imports Jvm_Base
begin

text \<open>
  \<^verbatim>\<open>src/src/ts/common/types.h\<close>: the names of the integer types and the static assertions on their sizes. The
  size of a type of the language depends on the data model of the target.
\<close>

datatype base_type =
    SignedChar | Short | PlainInt | LongInt | UnsignedChar | UnsignedShort | UnsignedInt | UnsignedLongInt

datatype int_name = Int8 | Int16 | Int32 | Int64 | UInt8 | UInt16 | UInt32 | UInt64

text \<open>The data models of 64-bit and 32-bit Linux.\<close>

datatype data_model = LP64 | ILP32

fun sizeof_base :: "data_model \<Rightarrow> base_type \<Rightarrow> nat" where
  "sizeof_base d SignedChar = 1"
| "sizeof_base d UnsignedChar = 1"
| "sizeof_base d Short = 2"
| "sizeof_base d UnsignedShort = 2"
| "sizeof_base d PlainInt = 4"
| "sizeof_base d UnsignedInt = 4"
| "sizeof_base d LongInt = (case d of LP64 \<Rightarrow> 8 | ILP32 \<Rightarrow> 4)"
| "sizeof_base d UnsignedLongInt = (case d of LP64 \<Rightarrow> 8 | ILP32 \<Rightarrow> 4)"

fun typedef_of :: "int_name \<Rightarrow> base_type" where
  "typedef_of Int8 = SignedChar"
| "typedef_of Int16 = Short"
| "typedef_of Int32 = PlainInt"
| "typedef_of Int64 = LongInt"
| "typedef_of UInt8 = UnsignedChar"
| "typedef_of UInt16 = UnsignedShort"
| "typedef_of UInt32 = UnsignedInt"
| "typedef_of UInt64 = UnsignedLongInt"

text \<open>The eight assertions, in order.\<close>

definition static_asserts :: "(int_name \<times> nat) list" where
  "static_asserts = [(Int8, 1), (Int16, 2), (Int32, 4), (Int64, 8), (UInt8, 1), (UInt16, 2), (UInt32, 4), (UInt64, 8)]"

definition compiles :: "data_model \<Rightarrow> bool" where
  "compiles d \<longleftrightarrow> list_all (\<lambda>(n, k). sizeof_base d (typedef_of n) = k) static_asserts"

text \<open>
  The file compiles for a 64-bit target and only there; then the machine types of the prelude have
  the sizes of their names.
\<close>

lemma compiles_iff_LP64: "compiles d \<longleftrightarrow> d = LP64"
  by (cases d) (simp_all add: compiles_def static_asserts_def)

lemma machine_type_sizes:
  assumes "compiles d"
  shows "8 * sizeof_base d (typedef_of UInt8) = size (0 :: byte)"
    and "8 * sizeof_base d (typedef_of UInt32) = size (0 :: u32)"
    and "8 * sizeof_base d (typedef_of UInt64) = size (0 :: u64)"
  using assms by (simp_all add: compiles_iff_LP64 word_size)

end
