(* ===== verification/Spec2Isabelle.thy ===== *)
theory Spec2Isabelle
  imports ZQueue Trace_Util Hook Perfdata Unbuffered_Channel Trace_Agent Ptrace_Elf Gc_Agent Gc_Monitor
    Hook_Inject Int_Types
begin

text \<open>
  \<^bold>\<open>A verification library for the JVM tracing agent of this repository.\<close>

  \<^bold>\<open>The program.\<close> The repository watches a Java virtual machine from inside and from outside.
  \<^item> \<^verbatim>\<open>src/src/hook.cpp\<close>, \<^verbatim>\<open>mem_checker.cpp\<close>, \<^verbatim>\<open>trace_backtrace.h\<close> and \<^verbatim>\<open>mm.cpp\<close> interpose \<open>malloc\<close>, \<open>free\<close>,
    \<open>mmap\<close> and \<open>munmap\<close>, keep a ledger of the live blocks and print a backtrace per allocation.
  \<^item> \<^verbatim>\<open>src/src/trace_agent.h\<close> and \<^verbatim>\<open>main.cpp\<close> are the agent: start-up against the tool interface, the
    callbacks, a thread that dumps the Java stacks after a garbage collection and one that does so
    when memory is full; they use the queue of \<^verbatim>\<open>zqueue.h\<close> and the parking of \<^verbatim>\<open>trace_util.h\<close>.
  \<^item> \<^verbatim>\<open>src/src/ts/\<close> collects the native stacks of all threads with a signal: \<^verbatim>\<open>signal_handler.cc\<close> on top
    of \<^verbatim>\<open>common/sysutil.cc\<close> (the list of threads), \<^verbatim>\<open>common/defer.h\<close> (actions at the end of a scope) and
    beside \<^verbatim>\<open>common/unbuffered_channel.h\<close> (a channel with a handshake).
  \<^item> \<^verbatim>\<open>src/src/hsperfdata_parser.h\<close> reads the JVM's performance data file.
  \<^item> \<^verbatim>\<open>src/src/tt.cpp\<close> stops another process, finds a function in its memory and calls it; \<^verbatim>\<open>src/src/trace.h\<close> is
    its 64-bit draft, which also loads a library into the process and replaces a function.
  \<^item> \<^verbatim>\<open>src/agent.cpp\<close> is a separate agent that prints the times of garbage collections, and
    \<^verbatim>\<open>src/src/__trace_agent.h\<close> an earlier version of the agent.

  \<^bold>\<open>The theories.\<close> Each models the files it names, one definition per operation, with the names of
  the source, and proves what makes the component correct. System calls, the C library, the
  tool interface, \<open>libunwind\<close>, the symbolizer and the dynamic linker are parameters.
  \<^item> \<open>Jvm_Base\<close>: machine types, little-endian layouts, C strings; labelled runs of a step relation and
    the locale \<open>labelled_invariant\<close>, by which every invariant of a concurrent component is proved.
  \<^item> \<open>ZQueue\<close> (\<^verbatim>\<open>zqueue.h\<close>): \<open>zqueue\<close> is the contents, \<open>push\<close>, \<open>pop\<close>, \<open>try_pop\<close>, \<open>count\<close>, \<open>clear\<close> the methods
    and \<open>zstep\<close> the methods of any number of threads, one step per critical section. The locale
    \<open>fifo_queue\<close> is the contract, interpreted on these. First in first out in every interleaving,
    no lost wake-up without a late timeout, and what a late timeout does.
  \<^item> \<open>Trace_Util\<close> (\<^verbatim>\<open>trace_util.h\<close>): \<open>get_tid\<close>, the spin lock on an explicit store of cells, and \<open>mem_fuller\<close>
    as the step relation \<open>mstep\<close>. The lock excludes nobody; \<open>notify(true)\<close> leaves the mutex locked;
    \<open>notify(false)\<close> lets a waiter return. The steps \<open>istep\<close> are those of \<open>instance()\<close>: once settled it
    returns one object, but two first callers may get two.
  \<^item> \<open>Mem_Checker\<close> (\<^verbatim>\<open>mem_checker.cpp\<close>, \<^verbatim>\<open>trace_backtrace.h\<close>): the total and the map of blocks; the locale
    \<open>allocation_ledger\<close> is the contract of a ledger and gives the drift of the total.
  \<^item> \<open>Hook\<close> (\<^verbatim>\<open>hook.cpp\<close>, \<^verbatim>\<open>mm.cpp\<close>): the interposed functions over any C library with \<open>libc_ok\<close>, and the
    requests that \<open>mem_checker::add\<close> makes through them (\<open>add_requests\<close>), with the exception that leaves
    \<open>malloc\<close> when \<open>operator new\<close> is refused memory; the accounting over every sequence of requests that
    do not overlap, and that the guard \<open>in_mem\<close> stops the recursion.
  \<^item> \<open>Perfdata\<close> (\<^verbatim>\<open>hsperfdata_parser.h\<close>): the parser on bytes, each read with its bounds and each sum of
    \<open>int\<close>s with its overflow; a writer of the format, with every field the parser ignores arbitrary,
    gives the round trip.
    Whatever the file holds, the output is well-typed.
  \<^item> \<open>Channel\<close> (\<^verbatim>\<open>ts/common/channel.h\<close>): the documented contract as the abstract channel \<open>channel_step\<close>, with
    the call each thread is in; the locale \<open>channel_implementation\<close> says that an implementation's steps
    are runs of it, and gives the laws of reads, writes and returns.
  \<^item> \<open>Unbuffered_Channel\<close> (\<^verbatim>\<open>ts/common/unbuffered_channel.h\<close>): the step relation \<open>cstep\<close>, with sleeping
    threads, notifications and spurious wake-ups on the three condition variables, implements that
    contract; exact handover, the invariants the code states, no lost wake-up, when the process
    is ended, and why the limit of the untimed operations is a year.
  \<^item> \<open>Int_Types\<close> (\<^verbatim>\<open>ts/common/types.h\<close>): the type names and the static assertions on their sizes.
  \<^item> \<open>Defer\<close> (\<^verbatim>\<open>ts/common/defer.h\<close>) and \<open>Sysutil\<close> (\<^verbatim>\<open>ts/common/sysutil.cc\<close>): scopes with deferred actions,
    used by the next theories, and the list of threads.
  \<^item> \<open>Stack_Form\<close>, \<open>Stack_Collect\<close>, \<open>Stack_Service\<close> (\<^verbatim>\<open>ts/signal_handler.cc\<close>): the form and the handler that
    fills it, the grouping of equal stacks (the locale \<open>strict_weak_order\<close> is the contract of a
    map's comparator, interpreted on \<open>StackComparator\<close>, which is the order of \<open>stack_key\<close>); \<open>Collect\<close> with its descriptors, the forms'
    lifetime and the handlers running while it waits; the requesters and the service thread, whose
    turn \<open>collect_and_serve\<close> runs \<open>Collect\<close> on the same descriptor table.
  \<^item> \<open>Agent_Base\<close> (\<^verbatim>\<open>trace_agent.h\<close>): the tool interface and JNI as records of answers, checked calls and the
    printing of a frame, shared by the versions of the agent; \<open>Jvm_Inner\<close> (\<^verbatim>\<open>jvm_inner.h\<close>): thread ids.
  \<^item> \<open>Trace_Agent\<close> (\<^verbatim>\<open>trace_agent.h\<close>, \<^verbatim>\<open>main.cpp\<close>): start-up with every call checked, the dump of the Java
    stacks, the callbacks, the worker, and the safepoint worker with its notifier over \<open>Trace_Util\<close> and \<open>ZQueue\<close>
    as the step relation \<open>sp_step\<close>.
  \<^item> \<open>Ptrace_Elf\<close> (\<^verbatim>\<open>tt.cpp\<close>): 32-bit memory and registers of the other process, reading, writing and
    pushing words, the search for a symbol, the calls and \<open>main\<close>. A pushed string is read back; a
    call that works is never seen to return.
  \<^item> \<open>Hook_Inject\<close> (\<^verbatim>\<open>trace.h\<close>): the same for a 64-bit process, over a record of the functions the file uses
    and does not have; the search equals a reference, and two faults of the draft are proved. Since
    nothing is known of the missing \<open>ptrace_setdata\<close>, nothing is stated of memory that it has written.
  \<^item> \<open>Gc_Agent\<close> (\<^verbatim>\<open>agent.cpp\<close>): the time stamps, in any locale, and every end of the start-up.
  \<^item> \<open>Old_Agent\<close> and \<open>Gc_Monitor\<close> (\<^verbatim>\<open>__trace_agent.h\<close>): the callbacks; the dump on a signal with threads and
    signals interleaved (\<open>old_step\<close>), which says when a signal is lost; the worker and
    \<open>gc_start\<close> as the step relation \<open>gcm_step\<close> over any raw monitor with its documented laws: mutual
    exclusion, no lost collection, and a deadlock with the collector.
  This theory holds the properties that span components: from the list of threads over the
  collection to the report of the service, and from a collection of garbage over the queue to
  the worker's dump (\<open>gc_agent_step\<close> composes \<open>gc_start\<close>, \<open>try_pop\<close> and \<open>worker\<close>).

  \<^bold>\<open>Loops and bounds.\<close> Loops that end are total functions with a measure. The spin lock, the polling
  loops and the searches in another process's memory may not end: they are partial functions
  into \<open>option\<close>, and where they return this is proved. Waiting is modelled by the events that
  come while a thread waits; when the events are used up the result says that it still waits.
  Integers are words of their width where the code computes with them (\<open>uint64_t\<close> totals and
  clocks, 32-bit addresses, \<open>int64_t\<close> addresses compared with their sign); depths, counters of a
  loop and lengths are natural numbers bounded by the data, with the overflow of an \<open>int\<close> counter
  as an error value where the data do not bound it. 31-bit bounds in hypotheses are
  those of \<open>pid_t\<close> and of the parser's \<open>int\<close> positions.

  \<^bold>\<open>Not modelled.\<close> Some actions are one step where the code could be interrupted: a request of \<open>Hook\<close>
  (the race of two \<open>add\<close> calls on the total is \<open>astep\<close> of \<open>Mem_Checker\<close>, that on the map is undefined in
  C++), the run of a signal handler in \<open>Stack_Collect\<close>, a turn of the service in \<open>Stack_Service\<close>, and the
  dump, including its printing, in \<open>Gc_Monitor\<close>. \<open>GetThreadInfo\<close>, whose result the code ignores, is taken
  to succeed. The memory of a C++ exception is left out. Text with terminal colours is one constructor per format string, and the
  collector's diagnostics are left out. \<^verbatim>\<open>__hook.cpp__\<close> is an earlier text of \<^verbatim>\<open>hook.cpp\<close> under a name that no
  compiler reads. The headers that only declare the functions of a modelled file have no
  definitions of their own.
\<close>

section \<open>From the list of threads to the report\<close>

text \<open>
  C1. A served request reports every thread: when the task directory lists the threads \<open>T\<close>, the
  collection over that list returns results, and the service serves a request with them, then
  the callback is called once, before the flush and the acknowledgement, with each thread of
  \<open>T\<close> that could be signalled, once.
\<close>

theorem backtrace_reports_every_thread:
  assumes "set names = {''.'', ''..''} \<union> decimal ` T" and "\<forall>t \<in> T. t < 2 ^ 31"
    and "listed e = ListThreads True (map (\<lambda>n. (0, Some n)) names @ (0, None) # rs)"
    and "Collect sy pid e evs error w = Some (results, err, w', rest)" and "results \<noteq> []"
    and "pending w = {}" and "\<forall>t. length (garbage e t) = kMaxDepth"
    and "serve True wr_end n ReadRequest results err s = Some (go_on, s')"
  shows "\<exists>es fd ts. effects s' = effects s @ es @ [Flush, CloseFd fd] \<and> callbacks es = [ts]
    \<and> distinct ts \<and> set ts = {int t | t. t \<in> T \<and> signal_ret e (int t) = 0}"
proof -
  obtain hs F where r: "results = collect_results sy (map F (signalled e))"
      and "\<forall>t \<in> set (signalled e). \<forall>h. hs t = Some h \<longrightarrow> first_handler t evs = Some h"
      and F: "\<forall>t \<in> set (signalled e). wf_form (F t) \<and> tid (stack (F t)) = t
        \<and> (\<exists>h. hs t = Some h \<and> frames (stack (F t)) = take kMaxDepth (readable (drop 1 (cursor h))))"
      and "pending w' = {}" "err = error"
    by (rule Collect_all_acked [OF assms(4-7)])
  have tid_eq: "map (\<lambda>f. tid (stack f)) (map F (signalled e)) = signalled e"
    using F by (simp add: map_idI)
  have d: "distinct (concat (map tids results))"
    unfolding r by (rule results_distinct) (simp only: tid_eq signalled(1))
  have "set (concat (map tids results)) = set (signalled e)"
    unfolding r results_set using tid_eq by (metis set_map)
  also have "\<dots> = {int t | t. t \<in> T \<and> signal_ret e (int t) = 0}"
    using ListThreads_set [OF assms(1,2), of rs] assms(3) signalled(2) [of e] by auto
  finally have all: "set (concat (map tids results)) = {int t | t. t \<in> T \<and> signal_ret e (int t) = 0}" .
  obtain fd qs where "s' = serve_request True n fd results err (s\<lparr>requests := qs\<rparr>)"
    using assms(8) by (auto simp: serve_def split: list.splits)
  then obtain es where "effects s' = effects s @ es @ [Flush, CloseFd fd]"
      "callbacks es = [concat (map tids results)]"
    using serve_request_effects [of True n fd results err "s\<lparr>requests := qs\<rparr>"] assms(5) by auto
  then show ?thesis using d all by blast
qed

lemma backtrace_reports_every_thread_witness:
  "\<exists>results w' s' es fd ts.
     Collect (\<lambda>a. None) 1
      \<lparr>listed = ListThreads True (map (\<lambda>n. (0, Some n)) [''.'', ''..'', decimal 7] @ [(0, None)]),
       pipe_ret = Some (3, 4), signal_ret = \<lambda>t. 0, timer_ret = 5, settime_ret = 0,
       garbage = \<lambda>t. replicate kMaxDepth 0\<rparr>
      [Handler 7 \<lparr>si_pid = 1, own_pid = 1, getcontext_ret = 0, init_local_ret = 0, cursor = [], write_ret = 1\<rparr>,
       SelectPipe False] []
      \<lparr>fds = {}, forms = Map.empty, pending = {}, acked = 0, use_after_free = False\<rparr>
      = Some (results, [], w', [])
   \<and> serve True 9 1 ReadRequest results [] \<lparr>open_fds = {8}, requests = [8], effects = []\<rparr> = Some (True, s')
   \<and> effects s' = es @ [Flush, CloseFd fd] \<and> callbacks es = [ts] \<and> distinct ts \<and> set ts = {7}"
proof -
  let ?l = "ListThreads True (map (\<lambda>n. (0, Some n)) [''.'', ''..'', decimal 7] @ [(0, None)])"
  let ?e = "\<lparr>listed = ?l, pipe_ret = Some (3, 4), signal_ret = \<lambda>t. 0, timer_ret = 5, settime_ret = 0,
       garbage = \<lambda>t. replicate kMaxDepth 0\<rparr>"
  let ?w = "\<lparr>fds = {}, forms = Map.empty, pending = {}, acked = 0, use_after_free = False\<rparr>"
  let ?evs = "[Handler 7 \<lparr>si_pid = 1, own_pid = 1, getcontext_ret = 0, init_local_ret = 0,
      cursor = [], write_ret = 1\<rparr>, SelectPipe False]"
  let ?s = "\<lparr>open_fds = {8}, requests = [8], effects = []\<rparr>"
  have l: "?l = [7]" by code_simp
  obtain results w' where c: "Collect (\<lambda>a. None) 1 ?e ?evs [] ?w = Some (results, [], w', [])" "results \<noteq> []"
    unfolding l
    by (simp add: Collect_def set_of_vector_def insort_insert_key_def run_handler_def
        InternalHandler_def SignalThread_def Submit_def List.map_filter_simps results_empty)
  obtain s' where s': "serve True 9 1 ReadRequest results [] ?s = Some (True, s')"
    by (simp add: serve_def)
  have names: "set [''.'', ''..'', decimal 7] = {''.'', ''..''} \<union> decimal ` {7}" by auto
  have "\<exists>es fd ts. effects s' = effects ?s @ es @ [Flush, CloseFd fd] \<and> callbacks es = [ts]
      \<and> distinct ts \<and> set ts = {int t | t. t \<in> {7} \<and> signal_ret ?e (int t) = 0}"
    by (rule backtrace_reports_every_thread [OF names _ _ c _ _ s', where rs = "[]"]) simp_all
  then show ?thesis using c(1) s' by auto
qed

section \<open>From a collection to the dump\<close>

text \<open>
  The callback \<open>gc_start\<close> and the thread \<open>worker\<close> of the agent, over the queue between them. A turn of the
  worker is one call of \<open>try_pop\<close>, which times out on an empty queue, and what follows it.
\<close>

record gc_agent =
  gc_queue :: "u64 zqueue"
  gc_dump :: dump_state
  gc_left :: bool

datatype gc_event = Collection u64 u64 | Turn bool

definition queue_after :: "'a pop_result \<Rightarrow> 'a zqueue" where
  "queue_after r = (case r of Popped x q \<Rightarrow> q | TimedOut q \<Rightarrow> q | Blocked q \<Rightarrow> q)"

fun gc_agent_step :: "jvmti \<Rightarrow> gc_event \<Rightarrow> gc_agent \<Rightarrow> gc_agent" where
  "gc_agent_step j (Collection sec usec) a = a\<lparr>gc_queue := gc_start sec usec (gc_queue a)\<rparr>"
| "gc_agent_step j (Turn stopped) a =
     (if gc_left a then a
      else
        (let r = try_pop [(timeout, gc_queue a)] (gc_queue a); out = worker j [(r, stopped)] (gc_dump a) in
         a\<lparr>gc_queue := queue_after r, gc_dump := snd out, gc_left := fst out\<rparr>))"

definition gc_agent_new :: gc_agent where
  "gc_agent_new = \<lparr>gc_queue = zq_new, gc_dump = \<lparr>lines = [], held = 0\<rparr>, gc_left = False\<rparr>"

definition gc_agent_run :: "jvmti \<Rightarrow> gc_event list \<Rightarrow> gc_agent \<Rightarrow> gc_agent" where
  "gc_agent_run j es a = fold (gc_agent_step j) es a"

definition dumps_made :: "dump_state \<Rightarrow> nat" where
  "dumps_made d = length (filter (\<lambda>l. l = BegGetAll) (lines d))"

definition is_collection :: "gc_event \<Rightarrow> bool" where
  "is_collection e = (case e of Collection s u \<Rightarrow> True | Turn b \<Rightarrow> False)"

definition quiet_jvmti :: jvmti where
  "quiet_jvmti = \<lparr>GetAllStackTraces = (0, []), GetThreadInfo = (\<lambda>t. ''main''), get_jtid = (\<lambda>t. 1),
     GetMethodDeclaringClass = (\<lambda>m. (0, m)), GetClassSignature = (\<lambda>c. (0, ''LA;'')),
     GetMethodName = (\<lambda>m. (0, ''run'')), Deallocate = (\<lambda>b. 0)\<rparr>"

lemma dumps_made_java: "dumps_made (snd (java_stack_trace j False d)) = dumps_made d + 1"
  by (simp add: dumps_made_def java_stack_trace_def print_line_def obtain_buffer_def Let_def split: prod.splits)

lemma turn_effect:
  "gc_agent_step j (Turn b) a =
    (if gc_left a then a
     else case que (gc_queue a) of
       [] \<Rightarrow> a\<lparr>gc_left := b\<rparr>
     | x # xs \<Rightarrow> a\<lparr>gc_queue := (gc_queue a)\<lparr>que := xs\<rparr>, gc_dump := snd (java_stack_trace j False (gc_dump a))\<rparr>)"
  by (cases "que (gc_queue a)")
    (simp_all add: try_pop.simps [of _ "gc_queue a"] front_pop_def queue_after_def Let_def)

lemma collection_effect:
  "gc_agent_step j (Collection sec usec) a = a\<lparr>gc_queue := push (gtm sec usec) (gc_queue a)\<rparr>"
  by (simp add: gc_start_def)

declare gc_agent_step.simps [simp del]

lemma balance_step:
  "dumps_made (gc_dump (gc_agent_step j e a)) + length (que (gc_queue (gc_agent_step j e a)))
     = dumps_made (gc_dump a) + length (que (gc_queue a)) + (if is_collection e then 1 else 0)"
  by (cases e) (simp_all add: collection_effect turn_effect is_collection_def dumps_made_java push_def split: list.splits)

lemma balance_run:
  "dumps_made (gc_dump (gc_agent_run j es a)) + length (que (gc_queue (gc_agent_run j es a)))
     = dumps_made (gc_dump a) + length (que (gc_queue a)) + length (filter is_collection es)"
  unfolding gc_agent_run_def by (induction es arbitrary: a) (simp_all add: balance_step)

lemma turns_empty_queue:
  assumes "\<not> gc_left a"
  shows "que (gc_queue (gc_agent_run j (replicate (length (que (gc_queue a))) (Turn b)) a)) = []"
  using assms
proof (induction "que (gc_queue a)" arbitrary: a)
  case Nil
  then show ?case by (simp add: gc_agent_run_def)
next
  case (Cons x xs)
  let ?a = "gc_agent_step j (Turn b) a"
  have a: "que (gc_queue ?a) = xs" "\<not> gc_left ?a"
    using Cons.prems by (simp_all add: turn_effect flip: Cons.hyps(2))
  from Cons.hyps(1) [OF a(1) [symmetric] a(2)] a(1) show ?case
    by (simp add: gc_agent_run_def flip: Cons.hyps(2))
qed

text \<open>
  C11. Every collection is followed by one dump of the stacks: in every order of collections and
  turns of the worker, the dumps made and the entries still queued are together as many as the
  collections; and as long as the worker has not left its loop, as many turns as there are
  entries make a dump for each of them.
\<close>

theorem one_dump_per_collection:
  "dumps_made (gc_dump (gc_agent_run j es gc_agent_new)) + length (que (gc_queue (gc_agent_run j es gc_agent_new)))
     = length (filter is_collection es)
   \<and> (\<not> gc_left (gc_agent_run j es gc_agent_new) \<longrightarrow>
       dumps_made (gc_dump (gc_agent_run j (replicate (length (que (gc_queue (gc_agent_run j es gc_agent_new)))) (Turn b))
         (gc_agent_run j es gc_agent_new)))
       = length (filter is_collection es))"
proof -
  define a where "a = gc_agent_run j es gc_agent_new"
  let ?n = "length (que (gc_queue a))"
  have 1: "dumps_made (gc_dump a) + ?n = length (filter is_collection es)"
    using balance_run [of j es gc_agent_new] by (simp add: a_def gc_agent_new_def zq_new_def dumps_made_def)
  have "dumps_made (gc_dump (gc_agent_run j (replicate ?n (Turn b)) a)) = dumps_made (gc_dump a) + ?n"
    if "\<not> gc_left a"
    using balance_run [of j "replicate ?n (Turn b)" a] turns_empty_queue [OF that, of j b]
    by (simp add: is_collection_def)
  with 1 show ?thesis by (simp flip: a_def)
qed

lemma one_dump_per_collection_witness:
  "dumps_made (gc_dump (gc_agent_run quiet_jvmti [Turn False]
     (gc_agent_run quiet_jvmti [Collection 1 2, Turn False, Collection 3 4] gc_agent_new))) = 2"
proof -
  let ?es = "[Collection 1 2, Turn False, Collection 3 4]"
  define a where "a = gc_agent_run quiet_jvmti ?es gc_agent_new"
  have a: "\<not> gc_left a" "length (que (gc_queue a)) = 1"
    by (simp_all add: a_def gc_agent_run_def gc_agent_new_def turn_effect collection_effect push_def zq_new_def)
  from one_dump_per_collection [of quiet_jvmti ?es False, folded a_def] a
  have "dumps_made (gc_dump (gc_agent_run quiet_jvmti [Turn False] a)) = 2"
    by (simp add: is_collection_def)
  then show ?thesis by (simp only: a_def)
qed

end
